(* ===== verification/Ht_Prelude.thy ===== *)
theory Ht_Prelude
  imports Main "HOL-Library.Word"
begin

text \<open>
  Shared vocabulary of the development: executable labelled transition systems, their runs
  and reachable states, and the small facts on counting threads that every concurrent
  component uses.  A concurrent component is a function \<open>step\<close> that maps a state and a label
  (which thread moves, or which event of the environment happens) to the next state, or to
  \<open>None\<close> where that move is not possible.  Interleavings are lists of labels.
\<close>

section \<open>Types and rule collections\<close>

type_synonym u8 = "8 word"
type_synonym u32 = "32 word"
type_synonym u64 = "64 word"

type_synonym tid = nat

named_theorems asm_simps \<open>one-instruction execution of the assembly blocks\<close>
named_theorems model_defs \<open>definitions of a component's states and operations\<close>

section \<open>Labelled transition systems as step functions\<close>

fun run :: "('s \<Rightarrow> 'l \<Rightarrow> 's option) \<Rightarrow> 's \<Rightarrow> 'l list \<Rightarrow> 's option" where
  "run step s [] = Some s"
| "run step s (l # ls) = (case step s l of None \<Rightarrow> None | Some t \<Rightarrow> run step t ls)"

inductive reachable :: "('s \<Rightarrow> 'l \<Rightarrow> 's option) \<Rightarrow> 's \<Rightarrow> 's \<Rightarrow> bool"
  for step :: "'s \<Rightarrow> 'l \<Rightarrow> 's option" and s0 :: 's where
  reach_start: "reachable step s0 s0"
| reach_next: "reachable step s0 s \<Longrightarrow> step s l = Some t \<Longrightarrow> reachable step s0 t"

lemma reachable_trans:
  assumes "reachable step s t" and "reachable step t u"
  shows "reachable step s u"
  using assms(2,1) by (induction rule: reachable.induct) (auto intro: reach_next)

lemma reachable_step: "step s l = Some t \<Longrightarrow> reachable step s t"
  by (rule reach_next [OF reach_start])

lemma run_reachable: "run step s ls = Some t \<Longrightarrow> reachable step s t"
proof (induction ls arbitrary: s)
  case Nil
  then show ?case by (auto intro: reach_start)
next
  case (Cons l ls)
  then obtain u where u: "step s l = Some u" "run step u ls = Some t"
    by (auto split: option.splits)
  have "reachable step s u" using u(1) by (rule reach_next [OF reach_start])
  with Cons.IH [OF u(2)] show ?case by (blast intro: reachable_trans)
qed

lemma run_append:
  "run step s (xs @ ys) = (case run step s xs of None \<Rightarrow> None | Some t \<Rightarrow> run step t ys)"
  by (induction xs arbitrary: s) (auto split: option.splits)

lemma reachable_run:
  assumes "reachable step s t"
  shows "\<exists>ls. run step s ls = Some t"
  using assms
proof (induction rule: reachable.induct)
  case reach_start
  have "run step s [] = Some s" by simp
  then show ?case ..
next
  case (reach_next u l t)
  then obtain ls where "run step s ls = Some u" by blast
  with reach_next.hyps have "run step s (ls @ [l]) = Some t" by (simp add: run_append)
  then show ?case ..
qed

text \<open>An invariant holds at the start, every step keeps it, so it holds wherever a run leads.\<close>

lemma reachable_invariant:
  assumes "reachable step s0 s" and "I s0"
    and "\<And>s l t. I s \<Longrightarrow> step s l = Some t \<Longrightarrow> I t"
  shows "I s"
  using assms by (induction rule: reachable.induct) auto

text \<open>A fact relating consecutive states holds along every run.\<close>

lemma reachable_mono:
  fixes f :: "'s \<Rightarrow> nat"
  assumes "reachable step s0 s" and "\<And>s l t. step s l = Some t \<Longrightarrow> f s \<le> f t"
  shows "f s0 \<le> f s"
  using assms by (induction rule: reachable.induct) (auto intro: order_trans)

text \<open>\<open>k\<close> consecutive steps of one routine that nobody disturbs: private state and shared word.\<close>

fun solo :: "('l \<Rightarrow> 'm \<Rightarrow> 'l \<times> 'm) \<Rightarrow> nat \<Rightarrow> 'l \<Rightarrow> 'm \<Rightarrow> 'l \<times> 'm" where
  "solo lstep 0 l m = (l, m)"
| "solo lstep (Suc k) l m = (let (l', m') = lstep l m in solo lstep k l' m')"

section \<open>Counting threads\<close>

text \<open>How many of the threads \<open>0 .. n - 1\<close> satisfy a predicate.\<close>

definition count_threads :: "nat \<Rightarrow> (tid \<Rightarrow> bool) \<Rightarrow> nat" where
  "count_threads n P = card {i. i < n \<and> P i}"

lemma count_threads_le: "count_threads n P \<le> n"
proof -
  have "card {i. i < n \<and> P i} \<le> card {..<n}" by (intro card_mono) auto
  then show ?thesis by (simp add: count_threads_def)
qed

lemma count_threads_full: "count_threads n P = n \<longleftrightarrow> (\<forall>i<n. P i)"
proof
  assume c: "count_threads n P = n"
  have "{i. i < n \<and> P i} = {..<n}"
    using c by (intro card_subset_eq) (auto simp: count_threads_def)
  then show "\<forall>i<n. P i" by auto
next
  assume "\<forall>i<n. P i"
  then have "{i. i < n \<and> P i} = {..<n}" by auto
  then show "count_threads n P = n" by (simp add: count_threads_def)
qed

lemma count_threads_zero: "count_threads n P = 0 \<longleftrightarrow> (\<forall>i<n. \<not> P i)"
  by (auto simp: count_threads_def card_eq_0_iff)

lemma count_threads_cong:
  "(\<And>i. i < n \<Longrightarrow> P i = Q i) \<Longrightarrow> count_threads n P = count_threads n Q"
  unfolding count_threads_def by (rule arg_cong [where f = card]) auto

lemma count_threads_mono:
  "(\<And>i. i < n \<Longrightarrow> P i \<Longrightarrow> Q i) \<Longrightarrow> count_threads n P \<le> count_threads n Q"
  unfolding count_threads_def by (rule card_mono) auto

text \<open>
  Splitting one thread off: the count is the thread's own share plus the others'.  It turns
  every argument about one moving thread into arithmetic.
\<close>

lemma count_threads_split:
  assumes "i < n"
  shows "count_threads n P = of_bool (P i) + count_threads n (\<lambda>j. j \<noteq> i \<and> P j)"
proof -
  have "{j. j < n \<and> P j} = (if P i then {i} else {}) \<union> {j. j < n \<and> j \<noteq> i \<and> P j}"
    using assms by auto
  moreover have "card ((if P i then {i} else {}) \<union> {j. j < n \<and> j \<noteq> i \<and> P j})
      = card (if P i then {i} else {}) + card {j. j < n \<and> j \<noteq> i \<and> P j}"
    by (rule card_Un_disjoint) auto
  ultimately show ?thesis by (simp add: count_threads_def conj_assoc)
qed

lemma count_threads_others:
  "(\<And>j. j < n \<Longrightarrow> j \<noteq> i \<Longrightarrow> P j = Q j) \<Longrightarrow>
   count_threads n (\<lambda>j. j \<noteq> i \<and> P j) = count_threads n (\<lambda>j. j \<noteq> i \<and> Q j)"
  by (rule count_threads_cong) auto

lemma count_threads_others_less:
  assumes "i < n"
  shows "count_threads n (\<lambda>j. j \<noteq> i \<and> P j) < n"
proof -
  have "count_threads n (\<lambda>j. j \<noteq> i \<and> P j) \<noteq> n"
    using assms by (auto simp: count_threads_full)
  then show ?thesis using count_threads_le [of n] by (simp add: le_neq_implies_less)
qed

text \<open>Changing one thread changes the count by that thread only.\<close>

lemma count_threads_update:
  assumes "i < n" and "\<And>j. j < n \<Longrightarrow> j \<noteq> i \<Longrightarrow> P j = Q j"
  shows "count_threads n Q + of_bool (P i) = count_threads n P + of_bool (Q i)"
  using count_threads_split [OF assms(1), of P] count_threads_split [OF assms(1), of Q]
    count_threads_others [of n i P Q] assms(2) by simp

section \<open>Words\<close>

lemma sint_word_ge: "- (2 ^ (LENGTH('w) - 1)) \<le> sint (w :: 'w::len word)"
  by (rule sint_ge)

lemma sint_word_lt: "sint (w :: 'w::len word) < 2 ^ (LENGTH('w) - 1)"
  by (rule sint_lt)

lemma unat_inc_word:
  assumes "unat (w :: 'w::len word) + 1 < 2 ^ LENGTH('w)"
  shows "unat (w + 1) = unat w + 1"
  using assms by (simp add: unat_word_ariths)

lemma unat_of_nat_u32: "n < 2 ^ 32 \<Longrightarrow> unat (word_of_nat n :: u32) = n"
  by (simp add: unsigned_of_nat take_bit_nat_eq_self)

end
