(* ===== verification/X86_Asm.thy ===== *)
theory X86_Asm
  imports Ht_Prelude
begin

text \<open>
  The inline-assembly blocks of \<open>mwait_barrier/synch.h\<close> and of
  \<open>kernel_monitor_user_notification_with_mmap/spin.h\<close>, \<open>spin.c\<close> are lists of the
  instructions below, one for one, with their local labels resolved to indices.  All of them
  work on one shared memory operand (\<open>%0\<close>), an operand \<open>%1\<close> that does not change while the
  block runs (for the blocks that could destroy it, \<open>Spin_Loops\<close> has a second version), a private counter (\<open>%2\<close>) and the register \<open>rax\<close>/\<open>eax\<close>.  One step executes one
  instruction atomically on the shared word, so that any interleaving of threads is a list of
  steps; the flags are the ones the conditional jumps of these blocks read.  \<open>'w\<close> is the
  operand width: 32 for the \<open>l\<close> suffix, 64 for the \<open>q\<close> suffix.
\<close>

section \<open>Instructions\<close>

datatype cond = CE | CNE | CLE | CGE | CG | CNS

datatype operand = Imm int | Eax | Mem0 | Op1

datatype instr =
    LockDec                               \<comment> \<open>\<open>lock; decl %0\<close>\<close>
  | LockInc                               \<comment> \<open>\<open>lock; incl %0\<close>\<close>
  | Mov operand operand         \<comment> \<open>\<open>mov src, dst\<close>\<close>
  | XchgMemEax                            \<comment> \<open>\<open>xchg %0, %eax\<close> (implicitly locked)\<close>
  | Cmp operand operand         \<comment> \<open>\<open>cmp src, dst\<close>: flags of \<open>dst - src\<close>\<close>
  | J cond nat
  | Jmp nat
  | Pause
  | MovRax u64                            \<comment> \<open>\<open>movq $n, %rax\<close>\<close>
  | Syscall
  | IncCnt                                \<comment> \<open>\<open>incq %2\<close>\<close>
  | Leave                                 \<comment> \<open>the end of the block\<close>

record core =
  pc :: nat
  rax :: u64
  zf :: bool
  sf :: bool
  ovf :: bool
  cnt :: u64
  syscalls :: "u64 list"

definition core_entry :: core where
  "core_entry = \<lparr>pc = 0, rax = 0, zf = False, sf = False, ovf = False, cnt = 0, syscalls = []\<rparr>"

fun cond_holds :: "cond \<Rightarrow> core \<Rightarrow> bool" where
  "cond_holds CE c = zf c"
| "cond_holds CNE c = (\<not> zf c)"
| "cond_holds CLE c = (zf c \<or> sf c \<noteq> ovf c)"
| "cond_holds CGE c = (sf c = ovf c)"
| "cond_holds CG c = (\<not> zf c \<and> sf c = ovf c)"
| "cond_holds CNS c = (\<not> sf c)"

fun operand_val :: "core \<Rightarrow> 'w::len word \<Rightarrow> 'w word \<Rightarrow> operand \<Rightarrow> 'w word" where
  "operand_val c v m (Imm k) = of_int k"
| "operand_val c v m Eax = ucast (rax c)"
| "operand_val c v m Mem0 = m"
| "operand_val c v m Op1 = v"

text \<open>The flags of a result that replaces \<open>exact\<close>, the unbounded signed result.\<close>

definition set_flags :: "'w::len word \<Rightarrow> int \<Rightarrow> core \<Rightarrow> core" where
  "set_flags r exact c = c\<lparr>zf := (r = 0), sf := (sint r < 0), ovf := (sint r \<noteq> exact)\<rparr>"

definition next_pc :: "core \<Rightarrow> core" where
  "next_pc c = c\<lparr>pc := Suc (pc c)\<rparr>"

text \<open>
  One instruction.  \<open>kret\<close> gives what the kernel leaves in \<open>rax\<close> for a system call number;
  \<open>v\<close> is \<open>%1\<close>, \<open>m\<close> the shared word.
\<close>

fun x86_exec :: "(u64 \<Rightarrow> u64) \<Rightarrow> 'w::len word \<Rightarrow> instr \<Rightarrow> core \<Rightarrow> 'w word \<Rightarrow> core \<times> 'w word"
where
  "x86_exec kret v LockDec c m = (next_pc (set_flags (m - 1) (sint m - 1) c), m - 1)"
| "x86_exec kret v LockInc c m = (next_pc (set_flags (m + 1) (sint m + 1) c), m + 1)"
| "x86_exec kret v (Mov s d) c m =
     (let x = operand_val c v m s in
      case d of Mem0 \<Rightarrow> (next_pc c, x)
              | Eax \<Rightarrow> (next_pc (c\<lparr>rax := ucast x\<rparr>), m)
              | _ \<Rightarrow> (next_pc c, m))"
| "x86_exec kret v XchgMemEax c m = (next_pc (c\<lparr>rax := ucast m\<rparr>), ucast (rax c))"
| "x86_exec kret v (Cmp s d) c m =
     (let x = operand_val c v m s; y = operand_val c v m d
      in (next_pc (set_flags (y - x) (sint y - sint x) c), m))"
| "x86_exec kret v (J b l) c m = (if cond_holds b c then (c\<lparr>pc := l\<rparr>, m) else (next_pc c, m))"
| "x86_exec kret v (Jmp l) c m = (c\<lparr>pc := l\<rparr>, m)"
| "x86_exec kret v Pause c m = (next_pc c, m)"
| "x86_exec kret v (MovRax k) c m = (next_pc (c\<lparr>rax := k\<rparr>), m)"
| "x86_exec kret v Syscall c m =
     (next_pc (c\<lparr>rax := kret (rax c), syscalls := syscalls c @ [rax c]\<rparr>), m)"
| "x86_exec kret v IncCnt c m =
     (next_pc (set_flags (cnt c + 1) (sint (cnt c) + 1) (c\<lparr>cnt := cnt c + 1\<rparr>)), m)"
| "x86_exec kret v Leave c m = (c, m)"

definition x86_step ::
  "(u64 \<Rightarrow> u64) \<Rightarrow> instr list \<Rightarrow> 'w::len word \<Rightarrow> core \<Rightarrow> 'w word \<Rightarrow> core \<times> 'w word" where
  "x86_step kret prog v c m =
     (if pc c < length prog then x86_exec kret v (prog ! pc c) c m else (c, m))"

definition finished :: "instr list \<Rightarrow> core \<Rightarrow> bool" where
  "finished prog c \<longleftrightarrow> \<not> pc c < length prog \<or> prog ! pc c = Leave"

section \<open>What the flags say\<close>

lemma sint_diff_cases:
  fixes x y :: "'w::len word"
  shows "sint (y - x) = sint y - sint x
       \<or> sint (y - x) = sint y - sint x + 2 ^ LENGTH('w)
       \<or> sint (y - x) = sint y - sint x - 2 ^ LENGTH('w)"
proof -
  have half: "2 * (2 ^ (LENGTH('w) - 1) :: int) = 2 ^ LENGTH('w)"
    by (cases "LENGTH('w)") auto
  have "sint (y - x) = signed_take_bit (LENGTH('w) - 1) (sint y - sint x)"
    by (simp add: sint_word_ariths)
  then have "sint (y - x) = (sint y - sint x + 2 ^ (LENGTH('w) - 1)) mod 2 ^ LENGTH('w)
      - 2 ^ (LENGTH('w) - 1)"
    using half by (simp add: signed_take_bit_eq_take_bit_shift take_bit_eq_mod)
  then have "sint (y - x) = sint y - sint x
      + (- ((sint y - sint x + 2 ^ (LENGTH('w) - 1)) div 2 ^ LENGTH('w))) * 2 ^ LENGTH('w)"
    by (simp add: minus_mult_div_eq_mod [symmetric])
  then obtain k where k: "sint (y - x) = sint y - sint x + k * 2 ^ LENGTH('w)" by blast
  let ?p = "2 ^ LENGTH('w) :: int"
  have b: "- ?p < sint y - sint x" "sint y - sint x < ?p" "2 * sint (y - x) < ?p" "- ?p \<le> 2 * sint (y - x)"
    using sint_word_ge [of x] sint_word_lt [of x] sint_word_ge [of y] sint_word_lt [of y]
      sint_word_ge [of "y - x"] sint_word_lt [of "y - x"] half by linarith+
  have "k * ?p < 2 * ?p" and "(-2) * ?p < k * ?p" using k b by linarith+
  then have "k < 2" and "-2 < k" using mult_less_cancel_right_pos [of ?p k 2]
      mult_less_cancel_right_pos [of ?p "-2" k] by auto
  then have "k = -1 \<or> k = 0 \<or> k = 1" by linarith
  then show ?thesis using k by (elim disjE) simp_all
qed

lemma cmp_signed_less:
  fixes x y :: "'w::len word"
  shows "(sint (y - x) < 0) \<noteq> (sint (y - x) \<noteq> sint y - sint x) \<longleftrightarrow> sint y < sint x"
proof -
  have half: "2 * (2 ^ (LENGTH('w) - 1) :: int) = 2 ^ LENGTH('w)"
    by (cases "LENGTH('w)") auto
  show ?thesis
    using sint_diff_cases [of y x] sint_word_ge [of x] sint_word_lt [of x]
      sint_word_ge [of y] sint_word_lt [of y]
      sint_word_ge [of "y - x"] sint_word_lt [of "y - x"] half by linarith
qed

end
