(* ===== verification/Atomics.thy ===== *)
theory Atomics
  imports X86_Asm
begin

text \<open>
  The first part of \<open>mwait_barrier/synch.h\<close>: the atomic increment, the atomic decrement with a
  test for zero, and the two values of a lock word with its initialiser.
\<close>

definition atomic_inc :: "u32 \<Rightarrow> u32" where
  "atomic_inc v = snd (x86_exec id (0 :: u32) LockInc core_entry v)"

text \<open>\<open>lock; decl %0; sete %1\<close>, and the result \<open>c != 0\<close> with the new value of \<open>*v\<close>.\<close>

definition atomic_dec_and_test :: "u32 \<Rightarrow> bool \<times> u32" where
  "atomic_dec_and_test v =
     (let (c, v') = x86_exec id (0 :: u32) LockDec core_entry v;
          sete = (if zf c then 1 else 0 :: u8)
      in (sete \<noteq> 0, v'))"

lemma atomic_inc_simp [simp]: "atomic_inc v = v + 1"
  by (simp add: atomic_inc_def)

lemma atomic_dec_and_test_simp [simp]: "atomic_dec_and_test v = (v - 1 = 0, v - 1)"
  by (simp add: atomic_dec_and_test_def Let_def next_pc_def set_flags_def)

definition SPIN_LOCK_UNLOCKED :: u32 where "SPIN_LOCK_UNLOCKED = 1"
definition SPIN_LOCK_LOCKED :: u32 where "SPIN_LOCK_LOCKED = 0"

definition spin_lock_init :: "u32 \<Rightarrow> u32" where
  "spin_lock_init spin_var = SPIN_LOCK_UNLOCKED"

end
