(* ===== verification/Mutex.thy ===== *)
theory Mutex
  imports Ht_Prelude
begin

text \<open>
  Any number of threads that take a lock, work in a critical section and release the lock
  again, and the contract a lock routine has to keep so that this excludes them from each
  other.  The lock routine is given by its instruction step \<open>lstep\<close> on a private state and the
  shared lock word; the release by its effect on the lock word.  The theory \<open>Spin_Locks\<close>
  interprets the contract on the assembly routines of the repository.
\<close>

section \<open>Threads around a lock\<close>

datatype 'l lthread = Out | Locking 'l | Critical

record ('l, 'm) mutex_sys =
  lock_word :: 'm
  lthreads :: "tid \<Rightarrow> 'l lthread"

definition mutex_init :: "'m \<Rightarrow> ('l, 'm) mutex_sys" where
  "mutex_init w0 = \<lparr>lock_word = w0, lthreads = (\<lambda>_. Out)\<rparr>"

text \<open>
  Thread \<open>i\<close> makes one move: it enters the lock routine, executes one instruction of it, goes
  on to the critical section once the routine is at its end, or releases the lock.
\<close>

definition mutex_step ::
  "('l \<Rightarrow> 'm \<Rightarrow> 'l \<times> 'm) \<Rightarrow> 'l \<Rightarrow> ('l \<Rightarrow> bool) \<Rightarrow> ('m \<Rightarrow> 'm) \<Rightarrow> nat
   \<Rightarrow> ('l, 'm) mutex_sys \<Rightarrow> tid \<Rightarrow> ('l, 'm) mutex_sys option" where
  "mutex_step lstep entry fin unlock n s i =
     (if i < n then
        Some (case lthreads s i of
          Out \<Rightarrow> s\<lparr>lthreads := (lthreads s)(i := Locking entry)\<rparr>
        | Locking l \<Rightarrow>
            (if fin l then s\<lparr>lthreads := (lthreads s)(i := Critical)\<rparr>
             else let (l', m') = lstep l (lock_word s)
                  in s\<lparr>lock_word := m', lthreads := (lthreads s)(i := Locking l')\<rparr>)
        | Critical \<Rightarrow>
            s\<lparr>lock_word := unlock (lock_word s), lthreads := (lthreads s)(i := Out)\<rparr>)
      else None)"

text \<open>The abstract lock: free or owned by one thread.\<close>

type_synonym abs_lock = "tid option"

inductive abs_lock_step :: "tid \<Rightarrow> abs_lock \<Rightarrow> abs_lock \<Rightarrow> bool" where
  abs_acquire: "abs_lock_step i None (Some i)"
| abs_release: "abs_lock_step i (Some i) None"
| abs_stutter: "abs_lock_step i a a"

inductive_simps abs_lock_step_simps: "abs_lock_step i a b"

lemma abs_lock_stepI:
  assumes "\<And>j. j \<noteq> i \<Longrightarrow> b = Some j \<longleftrightarrow> a = Some j"
  shows "abs_lock_step i a b"
  using assms by (cases a; cases b) (fastforce simp: abs_lock_step_simps)+

text \<open>Who owns the lock, given which private states hold it.\<close>

fun owns :: "('l \<Rightarrow> bool) \<Rightarrow> 'l lthread \<Rightarrow> bool" where
  "owns holds Out = False"
| "owns holds (Locking l) = holds l"
| "owns holds Critical = True"

definition lock_owner :: "('l \<Rightarrow> bool) \<Rightarrow> nat \<Rightarrow> ('l, 'm) mutex_sys \<Rightarrow> abs_lock" where
  "lock_owner holds n s = find (\<lambda>i. owns holds (lthreads s i)) [0..<n]"

lemma find_upt_unique:
  assumes "i < n" and "P i" and "\<And>j. j < n \<Longrightarrow> P j \<Longrightarrow> j = i"
  shows "find P [0..<n] = Some i"
proof -
  obtain j where j: "find P [0..<n] = Some j"
    using assms(1,2) by (cases "find P [0..<n]") (auto simp: find_None_iff)
  then have "j < n \<and> P j" by (auto simp: find_Some_iff)
  with assms(3) j show ?thesis by auto
qed

section \<open>The contract of a lock routine\<close>

text \<open>
  \<open>holds l\<close>: in private state \<open>l\<close> the routine has won the lock; \<open>lvl m\<close>: 0 when the word says
  free, otherwise how far it has been driven below free; \<open>credit l\<close>: the routine may lower the
  word once more before it looks at it again.  The credits bound how far contending threads
  can push the word down, which is what keeps a decrementing lock from wrapping around.
\<close>

text \<open>What one instruction from \<open>(l, m)\<close> to \<open>(l', m')\<close> has to respect.\<close>

definition lock_laws :: "('l \<Rightarrow> bool) \<Rightarrow> ('m \<Rightarrow> bool) \<Rightarrow> ('l \<Rightarrow> bool) \<Rightarrow> ('l \<Rightarrow> bool) \<Rightarrow> ('m \<Rightarrow> nat)
    \<Rightarrow> 'l \<Rightarrow> 'm \<Rightarrow> 'l \<Rightarrow> 'm \<Rightarrow> bool" where
  "lock_laws linv wok holds credit lvl l m l' m' \<longleftrightarrow>
     linv l' \<and> wok m'
     \<and> (holds l \<longrightarrow> holds l' \<and> m' = m)
     \<and> (\<not> holds l \<longrightarrow> holds l' \<longrightarrow> lvl m = 0 \<and> lvl m' \<noteq> 0)
     \<and> (\<not> holds l' \<longrightarrow> (lvl m' = 0 \<longleftrightarrow> lvl m = 0))
     \<and> (lvl m' + of_bool (credit l') \<le> lvl m + of_bool (credit l)
        \<or> lvl m' + of_bool (credit l') \<le> 1)"

locale lock_routine =
  fixes lstep :: "'l \<Rightarrow> 'm \<Rightarrow> 'l \<times> 'm"
    and entry :: 'l
    and fin :: "'l \<Rightarrow> bool"
    and unlock :: "'m \<Rightarrow> 'm"
    and w0 :: 'm
    and linv :: "'l \<Rightarrow> bool"
    and wok :: "'m \<Rightarrow> bool"
    and holds :: "'l \<Rightarrow> bool"
    and credit :: "'l \<Rightarrow> bool"
    and lvl :: "'m \<Rightarrow> nat"
    and limit :: nat
  assumes start_word: "wok w0" "lvl w0 = 0"
    and entry_state: "linv entry" "\<not> holds entry"
    and unlock_word: "wok m \<Longrightarrow> wok (unlock m)" "wok m \<Longrightarrow> lvl (unlock m) = 0"
    and fin_holds: "linv l \<Longrightarrow> fin l \<Longrightarrow> holds l"
    and step_laws:
      "linv l \<Longrightarrow> wok m \<Longrightarrow> lvl m + of_bool (credit l) \<le> limit \<Longrightarrow> \<not> fin l \<Longrightarrow>
       lstep l m = (l', m') \<Longrightarrow> lock_laws linv wok holds credit lvl l m l' m'"
begin

fun has_credit :: "'l lthread \<Rightarrow> bool" where
  "has_credit Out = True"
| "has_credit (Locking l) = credit l"
| "has_credit Critical = False"

definition inv :: "nat \<Rightarrow> ('l, 'm) mutex_sys \<Rightarrow> bool" where
  "inv n s \<longleftrightarrow> wok (lock_word s)
     \<and> (\<forall>i<n. \<forall>l. lthreads s i = Locking l \<longrightarrow> linv l)
     \<and> count_threads n (\<lambda>i. owns holds (lthreads s i)) = of_bool (lvl (lock_word s) \<noteq> 0)
     \<and> count_threads n (\<lambda>i. has_credit (lthreads s i)) + lvl (lock_word s) \<le> n"

lemma inv_init: "inv n (mutex_init w0)"
  using start_word count_threads_le [of n "\<lambda>_. True"]
  by (simp add: inv_def mutex_init_def count_threads_zero)

text \<open>One thread \<open>i\<close> changes its state to \<open>x\<close> and the word to \<open>m'\<close>.\<close>

lemma inv_update:
  assumes "inv n s" and i: "i < n"
    and "wok m'" and "\<forall>l. x = Locking l \<longrightarrow> linv l"
    and own: "of_bool (owns holds x) + of_bool (lvl (lock_word s) \<noteq> 0)
        = of_bool (owns holds (lthreads s i)) + (of_bool (lvl m' \<noteq> 0) :: nat)"
    and cred: "lvl m' + of_bool (has_credit x)
        \<le> lvl (lock_word s) + of_bool (has_credit (lthreads s i))
      \<or> lvl m' + of_bool (has_credit x) \<le> 1"
  shows "inv n (s\<lparr>lock_word := m', lthreads := (lthreads s)(i := x)\<rparr>)" (is "inv n ?t")
proof -
  let ?own = "\<lambda>s i. owns holds (lthreads s i)" and ?cr = "\<lambda>s i. has_credit (lthreads s i)"
  have "count_threads n (?own ?t) + of_bool (?own s i) = count_threads n (?own s) + of_bool (?own ?t i)"
    by (rule count_threads_update [OF i]) simp
  moreover have "count_threads n (?own s) = of_bool (lvl (lock_word s) \<noteq> 0)"
    using assms(1) by (simp add: inv_def)
  ultimately have o: "count_threads n (?own ?t) = of_bool (lvl m' \<noteq> 0)"
    using own by simp
  have "count_threads n (?cr ?t) + of_bool (?cr s i) = count_threads n (?cr s) + of_bool (?cr ?t i)"
    by (rule count_threads_update [OF i]) simp
  moreover have "count_threads n (?cr s) + lvl (lock_word s) \<le> n"
    using assms(1) by (simp add: inv_def)
  moreover have "count_threads n (?cr ?t)
      = of_bool (has_credit x) + count_threads n (\<lambda>j. j \<noteq> i \<and> ?cr ?t j)"
    using count_threads_split [OF i, of "?cr ?t"] by simp
  moreover have "count_threads n (\<lambda>j. j \<noteq> i \<and> ?cr ?t j) < n"
    by (rule count_threads_others_less [OF i])
  ultimately have c: "count_threads n (?cr ?t) + lvl m' \<le> n"
    using cred by (elim disjE) simp_all
  from o c show ?thesis using assms(1,3,4) by (simp add: inv_def)
qed

text \<open>A thread that has won passes the lock on to another one, which has not asked for it.\<close>

lemma inv_handoff:
  assumes "inv n s" and i: "i < n" and j: "j < n" "j \<noteq> i"
    and x: "lthreads s i = Locking l" "holds l" and y: "lthreads s j = Out"
  shows "inv n (s\<lparr>lthreads := (lthreads s)(i := Out, j := Critical)\<rparr>)"
proof -
  let ?s1 = "(lthreads s)(i := Out)" and ?s2 = "(lthreads s)(i := Out, j := Critical)"
  have o: "count_threads n (\<lambda>k. owns holds (?s1 k)) + 1 = count_threads n (\<lambda>k. owns holds (lthreads s k))"
    using count_threads_update [OF i, of "\<lambda>k. owns holds (lthreads s k)" "\<lambda>k. owns holds (?s1 k)"] x by simp
  have o2: "count_threads n (\<lambda>k. owns holds (?s2 k)) = count_threads n (\<lambda>k. owns holds (?s1 k)) + 1"
    using count_threads_update [OF j(1), of "\<lambda>k. owns holds (?s1 k)" "\<lambda>k. owns holds (?s2 k)"] y j(2) by simp
  have c: "count_threads n (\<lambda>k. has_credit (?s1 k)) \<le> count_threads n (\<lambda>k. has_credit (lthreads s k)) + 1"
    using count_threads_update [OF i, of "\<lambda>k. has_credit (lthreads s k)" "\<lambda>k. has_credit (?s1 k)"] by simp
  have c2: "count_threads n (\<lambda>k. has_credit (?s2 k)) + 1 = count_threads n (\<lambda>k. has_credit (?s1 k))"
    using count_threads_update [OF j(1), of "\<lambda>k. has_credit (?s1 k)" "\<lambda>k. has_credit (?s2 k)"] y j(2) by simp
  from o o2 c c2 show ?thesis using assms(1) j by (auto simp: inv_def)
qed

lemma inv_bound:
  assumes "inv n s" and "i < n" and "lthreads s i = Locking l"
  shows "lvl (lock_word s) + of_bool (credit l) \<le> n"
  using assms count_threads_split [OF assms(2), of "\<lambda>i. has_credit (lthreads s i)"]
  by (simp add: inv_def)

lemma inv_owned:
  assumes "inv n s" and "i < n" and "owns holds (lthreads s i)"
  shows "lvl (lock_word s) \<noteq> 0"
proof -
  have "count_threads n (\<lambda>i. owns holds (lthreads s i)) \<noteq> 0"
    using assms(2,3) by (auto simp: count_threads_zero)
  then show ?thesis using assms(1) by (simp add: inv_def)
qed

lemma inv_exec:
  assumes "inv n s" and "n \<le> limit" and i: "i < n"
    and th: "lthreads s i = Locking l" and "\<not> fin l"
    and st: "lstep l (lock_word s) = (l', m')"
  shows "inv n (s\<lparr>lock_word := m', lthreads := (lthreads s)(i := Locking l')\<rparr>)"
proof -
  have l: "linv l" and w: "wok (lock_word s)" using assms(1) i th by (auto simp: inv_def)
  have b: "lvl (lock_word s) + of_bool (credit l) \<le> limit"
    using inv_bound [OF assms(1) i th] assms(2) by simp
  have laws: "lock_laws linv wok holds credit lvl l (lock_word s) l' m'"
    by (rule step_laws [OF l w b \<open>\<not> fin l\<close> st])
  show ?thesis
  proof (rule inv_update [OF assms(1) i])
    show "wok m'" and "\<forall>l. Locking l' = Locking l \<longrightarrow> linv l"
      using laws by (auto simp: lock_laws_def)
    show "of_bool (owns holds (Locking l')) + of_bool (lvl (lock_word s) \<noteq> 0)
        = of_bool (owns holds (lthreads s i)) + (of_bool (lvl m' \<noteq> 0) :: nat)"
      using laws inv_owned [OF assms(1) i] th
      by (cases "holds l"; cases "holds l'") (auto simp: lock_laws_def)
    show "lvl m' + of_bool (has_credit (Locking l'))
        \<le> lvl (lock_word s) + of_bool (has_credit (lthreads s i))
      \<or> lvl m' + of_bool (has_credit (Locking l')) \<le> 1"
      using laws th by (simp add: lock_laws_def)
  qed
qed

lemma inv_step:
  assumes "inv n s" and "n \<le> limit" and st: "mutex_step lstep entry fin unlock n s i = Some t"
  shows "inv n t"
proof -
  have i: "i < n" using st by (auto simp: mutex_step_def split: if_splits)
  have w: "wok (lock_word s)" using assms(1) by (simp add: inv_def)
  show ?thesis
  proof (cases "lthreads s i")
    case Out
    then have "t = s\<lparr>lock_word := lock_word s, lthreads := (lthreads s)(i := Locking entry)\<rparr>"
      using st i by (simp add: mutex_step_def)
    then show ?thesis
      using inv_update [OF assms(1) i w, of "Locking entry"] entry_state Out by simp
  next
    case Critical
    then have "t = s\<lparr>lock_word := unlock (lock_word s), lthreads := (lthreads s)(i := Out)\<rparr>"
      using st i by (simp add: mutex_step_def)
    then show ?thesis
      using inv_update [OF assms(1) i unlock_word(1) [OF w], of Out] unlock_word(2) [OF w]
        inv_owned [OF assms(1) i] Critical by simp
  next
    case (Locking l)
    have l: "linv l" using assms(1) i Locking by (simp add: inv_def)
    show ?thesis
    proof (cases "fin l")
      case True
      then have "t = s\<lparr>lock_word := lock_word s, lthreads := (lthreads s)(i := Critical)\<rparr>"
        using st i Locking by (simp add: mutex_step_def)
      then show ?thesis
        using inv_update [OF assms(1) i w, of Critical] Locking fin_holds [OF l True] by simp
    next
      case False
      then show ?thesis
        using inv_exec [OF assms(1,2) i Locking False] st i Locking
        by (auto simp: mutex_step_def split: prod.splits)
    qed
  qed
qed

lemma reachable_inv:
  assumes "reachable (mutex_step lstep entry fin unlock n) (mutex_init w0) s" and "n \<le> limit"
  shows "inv n s"
  using assms(1) inv_init by (rule reachable_invariant) (rule inv_step [OF _ assms(2)])

lemma routine_state:
  assumes "reachable (mutex_step lstep entry fin unlock n) (mutex_init w0) s" and "n \<le> limit"
    and "i < n" and "lthreads s i = Locking l"
  shows "linv l"
  using reachable_inv [OF assms(1,2)] assms(3,4) by (simp add: inv_def)

lemma owner_unique:
  assumes "inv n s" and "i < n" "j < n" and "owns holds (lthreads s i)" "owns holds (lthreads s j)"
  shows "i = j"
proof (rule ccontr)
  assume "i \<noteq> j"
  let ?own = "\<lambda>i. owns holds (lthreads s i)"
  have "count_threads n (\<lambda>k. k \<noteq> i \<and> ?own k) \<noteq> 0"
    using assms(3,5) \<open>i \<noteq> j\<close> by (auto simp: count_threads_zero)
  then have "2 \<le> count_threads n ?own"
    using count_threads_split [OF assms(2), of ?own] assms(4) by simp
  then show False using assms(1) by (simp add: inv_def of_bool_def split: if_splits)
qed

theorem mutual_exclusion:
  assumes "reachable (mutex_step lstep entry fin unlock n) (mutex_init w0) s" and "n \<le> limit"
    and "i < n" "j < n" and "lthreads s i = Critical" "lthreads s j = Critical"
  shows "i = j"
  using owner_unique [OF reachable_inv [OF assms(1,2)] assms(3,4)] assms(5,6) by simp

lemma lock_owner_Some:
  assumes "inv n s" and "i < n"
  shows "lock_owner holds n s = Some i \<longleftrightarrow> owns holds (lthreads s i)"
proof
  assume "lock_owner holds n s = Some i"
  then show "owns holds (lthreads s i)" by (auto simp: lock_owner_def find_Some_iff)
next
  assume "owns holds (lthreads s i)"
  then show "lock_owner holds n s = Some i"
    unfolding lock_owner_def using assms owner_unique [OF assms(1)]
    by (intro find_upt_unique) auto
qed

lemma lock_owner_None: "lock_owner holds n s = None \<longleftrightarrow> (\<forall>i<n. \<not> owns holds (lthreads s i))"
  by (auto simp: lock_owner_def find_None_iff)

text \<open>The word says free exactly when nobody owns the lock.\<close>

lemma free_iff:
  assumes "inv n s"
  shows "lvl (lock_word s) = 0 \<longleftrightarrow> lock_owner holds n s = None"
proof -
  have "count_threads n (\<lambda>i. owns holds (lthreads s i)) = of_bool (lvl (lock_word s) \<noteq> 0)"
    using assms by (simp add: inv_def)
  then show ?thesis
    using count_threads_zero [of n "\<lambda>i. owns holds (lthreads s i)"]
    by (auto simp: lock_owner_None of_bool_def split: if_splits)
qed

lemma step_other:
  "mutex_step lstep entry fin unlock n s i = Some t \<Longrightarrow> j \<noteq> i \<Longrightarrow> lthreads t j = lthreads s j"
  by (auto simp: mutex_step_def split: if_splits lthread.splits prod.splits)

text \<open>Every instruction of a thread is a move of that thread on the abstract lock, or no move.\<close>

theorem refines_abs_lock:
  assumes r: "reachable (mutex_step lstep entry fin unlock n) (mutex_init w0) s" and "n \<le> limit"
    and st: "mutex_step lstep entry fin unlock n s i = Some t"
  shows "abs_lock_step i (lock_owner holds n s) (lock_owner holds n t)"
proof -
  have i: "i < n" using st by (auto simp: mutex_step_def split: if_splits)
  have s: "inv n s" by (rule reachable_inv [OF r assms(2)])
  have t: "inv n t" by (rule inv_step [OF s assms(2) st])
  have rng: "lock_owner holds n u = Some j \<Longrightarrow> j < n" for u :: "('l, 'm) mutex_sys" and j
    by (auto simp: lock_owner_def find_Some_iff)
  show ?thesis
  proof (rule abs_lock_stepI)
    fix j assume "j \<noteq> i"
    show "lock_owner holds n t = Some j \<longleftrightarrow> lock_owner holds n s = Some j"
    proof (cases "j < n")
      case True
      then show ?thesis
        using lock_owner_Some [OF s True] lock_owner_Some [OF t True]
          step_other [OF st \<open>j \<noteq> i\<close>] by simp
    next
      case False
      then show ?thesis using rng [of s j] rng [of t j] by blast
    qed
  qed
qed

end

section \<open>A contract with progress\<close>

text \<open>
  A routine that also gets a free lock within \<open>bound\<close> instructions when nobody interferes: the
  lock is then never dead.  A free lock can be taken by any thread that waits for it.
\<close>

locale live_lock_routine = lock_routine +
  fixes bound :: nat
  assumes solo_wins:
    "linv l \<Longrightarrow> wok m \<Longrightarrow> lvl m = 0 \<or> holds l \<Longrightarrow> fin (fst (solo lstep bound l m))"
begin

lemma solo_run:
  assumes "i < n" and "lthreads s i = Locking l" and "fin (fst (solo lstep k l (lock_word s)))"
  shows "\<exists>j t. j \<le> Suc k \<and> run (mutex_step lstep entry fin unlock n) s (replicate j i) = Some t
    \<and> lthreads t i = Critical"
  using assms
proof (induction k arbitrary: s l)
  case 0
  then have "run (mutex_step lstep entry fin unlock n) s (replicate 1 i)
      = Some (s\<lparr>lthreads := (lthreads s)(i := Critical)\<rparr>)"
    by (simp add: mutex_step_def)
  then show ?case
    by (intro exI [of _ 1] exI [of _ "s\<lparr>lthreads := (lthreads s)(i := Critical)\<rparr>"]) simp
next
  case (Suc k)
  show ?case
  proof (cases "fin l")
    case True
    then have "run (mutex_step lstep entry fin unlock n) s (replicate 1 i)
        = Some (s\<lparr>lthreads := (lthreads s)(i := Critical)\<rparr>)"
      using Suc.prems by (simp add: mutex_step_def)
    then show ?thesis
      by (intro exI [of _ 1] exI [of _ "s\<lparr>lthreads := (lthreads s)(i := Critical)\<rparr>"]) simp
  next
    case False
    obtain l' m' where st: "lstep l (lock_word s) = (l', m')" by fastforce
    let ?u = "s\<lparr>lock_word := m', lthreads := (lthreads s)(i := Locking l')\<rparr>"
    have u: "mutex_step lstep entry fin unlock n s i = Some ?u"
      using Suc.prems False st by (simp add: mutex_step_def)
    have "fin (fst (solo lstep k l' (lock_word ?u)))" using Suc.prems(3) st by simp
    then obtain j t where "j \<le> Suc k" "lthreads t i = Critical"
      "run (mutex_step lstep entry fin unlock n) ?u (replicate j i) = Some t"
      using Suc.IH [of ?u l'] Suc.prems(1) by auto
    then show ?thesis using u by (intro exI [of _ "Suc j"] exI [of _ t]) simp
  qed
qed

theorem free_lock_available:
  assumes "reachable (mutex_step lstep entry fin unlock n) (mutex_init w0) s" and "n \<le> limit"
    and "i < n" and "lthreads s i = Locking l" and "\<forall>j<n. j \<noteq> i \<longrightarrow> \<not> owns holds (lthreads s j)"
  shows "\<exists>j t. j \<le> Suc bound \<and> run (mutex_step lstep entry fin unlock n) s (replicate j i) = Some t
    \<and> lthreads t i = Critical"
proof -
  have inv: "inv n s" by (rule reachable_inv [OF assms(1,2)])
  have "lvl (lock_word s) = 0 \<or> holds l"
    using free_iff [OF inv] assms(3,4,5) by (auto simp: lock_owner_None)
  then show ?thesis
    using solo_run [OF assms(3,4) solo_wins] inv assms(3,4) by (simp add: inv_def)
qed

end

end
