(* ===== verification/Spin_Locks.thy ===== *)
theory Spin_Locks
  imports Atomics Mutex
begin

text \<open>
  The five spin locks: \<open>spin_lock\<close>, \<open>spin_lock_fast\<close> and \<open>spin_lock_cas\<close> of
  \<open>mwait_barrier/synch.h\<close>, and \<open>spin_lock\<close> (the function of \<open>spin.c\<close> and the macro \<open>SPIN_LOCK\<close>
  of \<open>spin.h\<close>) and \<open>spin_lock_v2\<close> of \<open>kernel_monitor_user_notification_with_mmap\<close>, as their
  instruction lists, with the release and initialisation that goes with each.  Every lock is
  shown to keep the contract of \<open>Mutex\<close>.  \<open>spin_t\<close> is 64 bits wide in \<open>spin.h\<close>, but all lock
  instructions have the \<open>l\<close> suffix: the word here is its low half.
\<close>

section \<open>The locks of synch.h\<close>

definition spin_lock :: "instr list" where
  "spin_lock =
    [ LockDec,              \<comment> \<open>0: label 1\<close>
      J CNS 6,              \<comment> \<open>1: \<open>jns 2f\<close>\<close>
      Pause,                \<comment> \<open>2: label 3\<close>
      Cmp (Imm 0) Mem0,     \<comment> \<open>3\<close>
      J CLE 2,              \<comment> \<open>4: \<open>jle 3b\<close>\<close>
      Jmp 0,                \<comment> \<open>5: \<open>jmp 1b\<close>\<close>
      Leave ]               \<comment> \<open>6: label 2\<close>"

definition spin_unlock :: "instr list" where
  "spin_unlock = [ Mov (Imm 1) Mem0, Leave ]"

text \<open>
  The waiting loop of \<open>spin_lock_fast\<close> sits in a subsection behind the code that follows the
  block, so the fall-through of the first jump is the end of the block.
\<close>

definition spin_lock_fast :: "instr list" where
  "spin_lock_fast =
    [ LockDec,              \<comment> \<open>0: label 1\<close>
      J CNE 3,              \<comment> \<open>1: \<open>jne 2f\<close>\<close>
      Leave,                \<comment> \<open>2: what follows the block\<close>
      Pause,                \<comment> \<open>3: label 2, in \<open>.subsection 1\<close>\<close>
      Cmp (Imm 0) Mem0,     \<comment> \<open>4\<close>
      J CG 0,               \<comment> \<open>5: \<open>jg 1b\<close>\<close>
      Jmp 3 ]               \<comment> \<open>6: \<open>jmp 2b\<close>\<close>"

definition spin_lock_cas :: "instr list" where
  "spin_lock_cas =
    [ Mov (Imm 0) Eax,      \<comment> \<open>0: label 1\<close>
      XchgMemEax,           \<comment> \<open>1\<close>
      Cmp (Imm 1) Eax,      \<comment> \<open>2\<close>
      J CNE 5,              \<comment> \<open>3: \<open>jne 2f\<close>\<close>
      Jmp 9,                \<comment> \<open>4: \<open>jmp 3f\<close>\<close>
      Pause,                \<comment> \<open>5: label 2\<close>
      Cmp (Imm 1) Mem0,     \<comment> \<open>6\<close>
      J CNE 5,              \<comment> \<open>7: \<open>jne 2b\<close>\<close>
      Jmp 0,                \<comment> \<open>8: \<open>jmp 1b\<close>\<close>
      Leave ]               \<comment> \<open>9: label 3\<close>"

section \<open>The locks of spin.c and spin.h\<close>

definition kmon_spin_lock :: "instr list" where
  "kmon_spin_lock =
    [ Mov (Imm 1) Eax,      \<comment> \<open>0: label 1\<close>
      XchgMemEax,           \<comment> \<open>1\<close>
      Cmp (Imm 0) Eax,      \<comment> \<open>2\<close>
      J CNE 5,              \<comment> \<open>3: \<open>jne 2f\<close>\<close>
      Jmp 9,                \<comment> \<open>4: \<open>jmp 3f\<close>\<close>
      Pause,                \<comment> \<open>5: label 2, \<open>SPIN_INSTR\<close>\<close>
      Cmp (Imm 0) Mem0,     \<comment> \<open>6\<close>
      J CNE 5,              \<comment> \<open>7: \<open>jne 2b\<close>\<close>
      Jmp 0,                \<comment> \<open>8: \<open>jmp 1b\<close>\<close>
      Leave ]               \<comment> \<open>9: label 3\<close>"

definition kmon_spin_unlock :: "instr list" where
  "kmon_spin_unlock = [ Mov (Imm 0) Mem0, Leave ]"

definition SPIN_LOCK :: "instr list" where
  "SPIN_LOCK =
    [ Mov (Imm 1) Eax, XchgMemEax, Cmp (Imm 0) Eax, J CNE 5, Jmp 9,
      Pause, Cmp (Imm 0) Mem0, J CNE 5, Jmp 0, Leave ]"

definition SPIN_UNLOCK :: "instr list" where
  "SPIN_UNLOCK = [ Mov (Imm 0) Mem0, Leave ]"

definition kmon_spin_lock_v2 :: "instr list" where
  "kmon_spin_lock_v2 =
    [ LockDec,              \<comment> \<open>0: label 1\<close>
      J CNS 6,              \<comment> \<open>1: \<open>jns 3f\<close>\<close>
      Cmp (Imm 0) Mem0,     \<comment> \<open>2: label 2\<close>
      Pause,                \<comment> \<open>3\<close>
      J CLE 2,              \<comment> \<open>4: \<open>jle 2b\<close>\<close>
      Jmp 0,                \<comment> \<open>5: \<open>jmp 1b\<close>\<close>
      Leave ]               \<comment> \<open>6: label 3\<close>"

definition kmon_spin_unlock_v2 :: "instr list" where
  "kmon_spin_unlock_v2 = [ Mov (Imm 1) Mem0, Leave ]"

text \<open>\<open>spin_init\<close> and \<open>spin_init_v2\<close> are macros for the releases.\<close>

definition kmon_spin_init :: "instr list" where "kmon_spin_init = kmon_spin_unlock"
definition kmon_spin_init_v2 :: "instr list" where "kmon_spin_init_v2 = kmon_spin_unlock_v2"

section \<open>Running a block against the lock word\<close>

text \<open>No lock block makes a system call or has an operand \<open>%1\<close>.\<close>

definition lock_step :: "instr list \<Rightarrow> core \<Rightarrow> u32 \<Rightarrow> core \<times> u32" where
  "lock_step prog = x86_step (\<lambda>_. 0) prog 0"

definition store_effect :: "instr list \<Rightarrow> u32 \<Rightarrow> u32" where
  "store_effect prog m = snd (lock_step prog core_entry m)"

abbreviation spin_system :: "instr list \<Rightarrow> instr list \<Rightarrow> nat
    \<Rightarrow> (core, u32) mutex_sys \<Rightarrow> tid \<Rightarrow> (core, u32) mutex_sys option" where
  "spin_system lck unl n \<equiv> mutex_step (lock_step lck) core_entry (finished lck) (store_effect unl) n"

lemmas lock_exec_simps = lock_step_def x86_step_def next_pc_def set_flags_def Let_def

lemma store_effect_unlock [simp]:
  "store_effect spin_unlock m = 1" "store_effect kmon_spin_unlock m = 0"
  "store_effect kmon_spin_unlock_v2 m = 1"
  by (simp_all add: store_effect_def lock_step_def x86_step_def spin_unlock_def kmon_spin_unlock_def
      kmon_spin_unlock_v2_def core_entry_def)

section \<open>Decrementing locks\<close>

text \<open>
  \<open>1\<close> is free; every losing \<open>decl\<close> takes the word one further below.  The routine has a credit
  while it is about to decrement: at its entry, and after it saw a positive word.
\<close>

definition dec_lvl :: "u32 \<Rightarrow> nat" where "dec_lvl m = nat (1 - sint m)"
definition dec_wok :: "u32 \<Rightarrow> bool" where "dec_wok m \<longleftrightarrow> sint m \<le> 1"
definition dec_limit :: nat where "dec_limit = 2 ^ 31"

lemma sint_dec:
  "- (2 ^ 31) < sint m \<Longrightarrow> sint (m - 1) = sint m - 1" for m :: u32
  using sint_diff_cases [of m 1] sint_word_ge [of "m - 1"] sint_word_lt [of m] sint_word_lt [of "m - 1"]
  by (elim disjE) simp_all

lemma dec_lvl_credit:
  "dec_lvl m + 1 \<le> dec_limit \<Longrightarrow> - (2 ^ 31) < sint m" for m :: u32
  by (simp add: dec_lvl_def dec_limit_def)

lemma ucast_low [simp]: "(ucast (ucast m :: u64) :: u32) = m" for m :: u32
  by (rule bit_word_eqI) (auto simp: bit_simps dest: bit_imp_le_length)

lemma nonzero_sint: "(m = 0) = (sint m = 0)" for m :: "'w::len word"
  using signed_word_eqI [of m 0] by auto

definition sl_linv :: "core \<Rightarrow> bool" where "sl_linv c \<longleftrightarrow> pc c < 7"
definition sl_holds :: "core \<Rightarrow> bool" where "sl_holds c \<longleftrightarrow> pc c = 1 \<and> \<not> sf c \<or> pc c = 6"
definition sl_credit :: "core \<Rightarrow> bool" where
  "sl_credit c \<longleftrightarrow> pc c = 0 \<or> pc c = 4 \<and> \<not> cond_holds CLE c \<or> pc c = 5"

lemmas sl_defs = sl_linv_def sl_holds_def sl_credit_def dec_wok_def dec_lvl_def

lemma pc_cases7: "k < 7 \<Longrightarrow> k = 0 \<or> k = 1 \<or> k = 2 \<or> k = 3 \<or> k = 4 \<or> k = 5 \<or> k = (6::nat)"
  by arith

lemma pc_cases10: "k < 10 \<Longrightarrow> k = 0 \<or> k = 1 \<or> k = 2 \<or> k = 3 \<or> k = 4 \<or> k = 5 \<or> k = 6
    \<or> k = 7 \<or> k = 8 \<or> k = (9::nat)"
  by arith

lemma sl_laws:
  assumes "sl_linv c" and "dec_wok m" and "dec_lvl m + of_bool (sl_credit c) \<le> dec_limit"
    and "\<not> finished spin_lock c" and "lock_step spin_lock c m = (c', m')"
  shows "lock_laws sl_linv dec_wok sl_holds sl_credit dec_lvl c m c' m'"
proof -
  have k: "pc c = 0 \<or> pc c = 1 \<or> pc c = 2 \<or> pc c = 3 \<or> pc c = 4 \<or> pc c = 5 \<or> pc c = 6"
    using assms(1) pc_cases7 by (simp add: sl_linv_def)
  show ?thesis
  proof (cases "pc c = 0")
    case True
    then have d: "sint (m - 1) = sint m - 1"
      using assms(3) dec_lvl_credit sint_dec by (simp add: sl_credit_def)
    show ?thesis
      using assms(2,5) True d
      by (auto simp: lock_laws_def lock_exec_simps spin_lock_def sl_defs)
  next
    case False
    then show ?thesis
      using k assms(2,4,5)
      by (elim disjE)
        (auto simp: lock_laws_def lock_exec_simps spin_lock_def sl_defs finished_def nonzero_sint
          split: if_splits)
  qed
qed

definition slf_holds :: "core \<Rightarrow> bool" where "slf_holds c \<longleftrightarrow> pc c = 1 \<and> zf c \<or> pc c = 2"
definition slf_credit :: "core \<Rightarrow> bool" where
  "slf_credit c \<longleftrightarrow> pc c = 0 \<or> pc c = 5 \<and> cond_holds CG c"

lemmas slf_defs = sl_linv_def slf_holds_def slf_credit_def dec_wok_def dec_lvl_def

lemma slf_laws:
  assumes "sl_linv c" and "dec_wok m" and "dec_lvl m + of_bool (slf_credit c) \<le> dec_limit"
    and "\<not> finished spin_lock_fast c" and "lock_step spin_lock_fast c m = (c', m')"
  shows "lock_laws sl_linv dec_wok slf_holds slf_credit dec_lvl c m c' m'"
proof -
  have k: "pc c = 0 \<or> pc c = 1 \<or> pc c = 2 \<or> pc c = 3 \<or> pc c = 4 \<or> pc c = 5 \<or> pc c = 6"
    using assms(1) pc_cases7 by (simp add: sl_linv_def)
  show ?thesis
  proof (cases "pc c = 0")
    case True
    then have d: "sint (m - 1) = sint m - 1"
      using assms(3) dec_lvl_credit sint_dec by (simp add: slf_credit_def)
    then have z: "m - 1 = 0 \<longleftrightarrow> sint m = 1" using nonzero_sint [of "m - 1"] by simp
    show ?thesis
      using assms(2,5) True d z
      by (auto simp: lock_laws_def lock_exec_simps spin_lock_fast_def slf_defs)
  next
    case False
    then show ?thesis
      using k assms(2,4,5)
      by (elim disjE)
        (auto simp: lock_laws_def lock_exec_simps spin_lock_fast_def slf_defs finished_def
          nonzero_sint split: if_splits)
  qed
qed

definition v2_credit :: "core \<Rightarrow> bool" where
  "v2_credit c \<longleftrightarrow> pc c = 0 \<or> (pc c = 3 \<or> pc c = 4) \<and> \<not> cond_holds CLE c \<or> pc c = 5"

lemmas v2_defs = sl_linv_def sl_holds_def v2_credit_def dec_wok_def dec_lvl_def

lemma v2_laws:
  assumes "sl_linv c" and "dec_wok m" and "dec_lvl m + of_bool (v2_credit c) \<le> dec_limit"
    and "\<not> finished kmon_spin_lock_v2 c" and "lock_step kmon_spin_lock_v2 c m = (c', m')"
  shows "lock_laws sl_linv dec_wok sl_holds v2_credit dec_lvl c m c' m'"
proof -
  have k: "pc c = 0 \<or> pc c = 1 \<or> pc c = 2 \<or> pc c = 3 \<or> pc c = 4 \<or> pc c = 5 \<or> pc c = 6"
    using assms(1) pc_cases7 by (simp add: sl_linv_def)
  show ?thesis
  proof (cases "pc c = 0")
    case True
    then have d: "sint (m - 1) = sint m - 1"
      using assms(3) dec_lvl_credit sint_dec by (simp add: v2_credit_def)
    show ?thesis
      using assms(2,5) True d
      by (auto simp: lock_laws_def lock_exec_simps kmon_spin_lock_v2_def v2_defs)
  next
    case False
    then show ?thesis
      using k assms(2,4,5)
      by (elim disjE)
        (auto simp: lock_laws_def lock_exec_simps kmon_spin_lock_v2_def v2_defs finished_def
          nonzero_sint split: if_splits)
  qed
qed

section \<open>Exchanging locks\<close>

text \<open>
  The routine swaps its taken value into the word and wins when it gets the free value back.
  \<open>spin_lock_cas\<close> has 1 for free and 0 for taken, the locks of \<open>spin.c\<close> the other way round.
\<close>

definition xl_linv :: "u32 \<Rightarrow> core \<Rightarrow> bool" where
  "xl_linv taken c \<longleftrightarrow> pc c < 10 \<and> (pc c = 1 \<longrightarrow> (ucast (rax c) :: u32) = taken)"
definition xl_holds :: "u32 \<Rightarrow> core \<Rightarrow> bool" where
  "xl_holds free c \<longleftrightarrow> pc c = 2 \<and> (ucast (rax c) :: u32) = free \<or> pc c = 3 \<and> zf c \<or> pc c = 4 \<or> pc c = 9"
definition xl_lvl :: "u32 \<Rightarrow> u32 \<Rightarrow> nat" where "xl_lvl free m = of_bool (m \<noteq> free)"
definition no_credit :: "core \<Rightarrow> bool" where "no_credit c = False"
definition any_word :: "u32 \<Rightarrow> bool" where "any_word m = True"

lemmas xl_defs = xl_linv_def xl_holds_def xl_lvl_def no_credit_def any_word_def

lemma cas_laws:
  assumes "xl_linv 0 c" and "\<not> finished spin_lock_cas c" and "lock_step spin_lock_cas c m = (c', m')"
  shows "lock_laws (xl_linv 0) any_word (xl_holds 1) no_credit (xl_lvl 1)
    c m c' m'"
proof -
  have "pc c < 10" using assms(1) by (simp add: xl_linv_def)
  from pc_cases10 [OF this] show ?thesis
    using assms
    by (elim disjE)
      (auto simp: lock_laws_def lock_exec_simps spin_lock_cas_def xl_defs finished_def
        split: if_splits)
qed

lemma kmon_laws:
  assumes "xl_linv 1 c" and "\<not> finished kmon_spin_lock c" and "lock_step kmon_spin_lock c m = (c', m')"
  shows "lock_laws (xl_linv 1) any_word (xl_holds 0) no_credit (xl_lvl 0)
    c m c' m'"
proof -
  have "pc c < 10" using assms(1) by (simp add: xl_linv_def)
  from pc_cases10 [OF this] show ?thesis
    using assms
    by (elim disjE)
      (auto simp: lock_laws_def lock_exec_simps kmon_spin_lock_def xl_defs finished_def
        split: if_splits)
qed

section \<open>A free lock is won\<close>

lemma solo_numeral: "solo f (numeral k) l m
    = (let (l', m') = f l m in solo f (pred_numeral k) l' m')"
  by (simp add: numeral_eq_Suc)

lemmas solo_simps = solo_numeral lock_exec_simps

lemma dec_free: "dec_wok m \<Longrightarrow> dec_lvl m = 0 \<Longrightarrow> m = 1"
  using signed_word_eqI [of m 1] by (simp add: dec_wok_def dec_lvl_def)

lemma sl_solo:
  assumes "sl_linv c" and "dec_wok m" and "dec_lvl m = 0 \<or> sl_holds c"
  shows "finished spin_lock (fst (solo (lock_step spin_lock) 10 c m))"
proof -
  have "m = 1 \<or> sl_holds c" using assms dec_free by blast
  moreover have "pc c < 7" using assms(1) by (simp add: sl_linv_def)
  note pc_cases7 [OF this]
  ultimately show ?thesis
    using assms(1) by (elim disjE; simp add: sl_linv_def spin_lock_def sl_holds_def finished_def solo_simps)
qed

lemma slf_solo:
  assumes "sl_linv c" and "dec_wok m" and "dec_lvl m = 0 \<or> slf_holds c"
  shows "finished spin_lock_fast (fst (solo (lock_step spin_lock_fast) 10 c m))"
proof -
  have "m = 1 \<or> slf_holds c" using assms dec_free by blast
  moreover have "pc c < 7" using assms(1) by (simp add: sl_linv_def)
  note pc_cases7 [OF this]
  ultimately show ?thesis
    using assms(1) by (elim disjE; simp add: sl_linv_def spin_lock_fast_def slf_holds_def finished_def solo_simps)
qed

lemma v2_solo:
  assumes "sl_linv c" and "dec_wok m" and "dec_lvl m = 0 \<or> sl_holds c"
  shows "finished kmon_spin_lock_v2 (fst (solo (lock_step kmon_spin_lock_v2) 10 c m))"
proof -
  have "m = 1 \<or> sl_holds c" using assms dec_free by blast
  moreover have "pc c < 7" using assms(1) by (simp add: sl_linv_def)
  note pc_cases7 [OF this]
  ultimately show ?thesis
    using assms(1) by (elim disjE; simp add: sl_linv_def kmon_spin_lock_v2_def sl_holds_def finished_def solo_simps)
qed

lemma cas_solo:
  assumes "xl_linv 0 c" and "any_word m" and "xl_lvl 1 m = 0 \<or> xl_holds 1 c"
  shows "finished spin_lock_cas (fst (solo (lock_step spin_lock_cas) 14 c m))"
proof -
  have "m = 1 \<or> xl_holds 1 c" using assms by (simp add: xl_lvl_def)
  moreover have "pc c < 10" using assms(1) by (simp add: xl_linv_def)
  note pc_cases10 [OF this]
  ultimately show ?thesis
    using assms(1) by (elim disjE; simp add: xl_linv_def spin_lock_cas_def xl_holds_def finished_def solo_simps)
qed

lemma kmon_solo:
  assumes "xl_linv 1 c" and "any_word m" and "xl_lvl 0 m = 0 \<or> xl_holds 0 c"
  shows "finished kmon_spin_lock (fst (solo (lock_step kmon_spin_lock) 14 c m))"
proof -
  have "m = 0 \<or> xl_holds 0 c" using assms by (simp add: xl_lvl_def)
  moreover have "pc c < 10" using assms(1) by (simp add: xl_linv_def)
  note pc_cases10 [OF this]
  ultimately show ?thesis
    using assms(1) by (elim disjE; simp add: xl_linv_def kmon_spin_lock_def xl_holds_def finished_def solo_simps)
qed

section \<open>The locks keep the contract\<close>

lemmas routine_defs = sl_linv_def sl_holds_def slf_holds_def xl_linv_def xl_holds_def xl_lvl_def
  any_word_def dec_wok_def dec_lvl_def SPIN_LOCK_UNLOCKED_def core_entry_def finished_def

interpretation sl: live_lock_routine "lock_step spin_lock" core_entry "finished spin_lock"
  "store_effect spin_unlock" SPIN_LOCK_UNLOCKED sl_linv dec_wok sl_holds sl_credit dec_lvl dec_limit 10
proof unfold_locales
  show "sl_holds l" if "sl_linv l" "finished spin_lock l" for l
    using that pc_cases7 [of "pc l"] by (auto simp: routine_defs spin_lock_def)
qed (rule sl_laws | erule (2) sl_solo | simp add: routine_defs)+

interpretation slf: live_lock_routine "lock_step spin_lock_fast" core_entry "finished spin_lock_fast"
  "store_effect spin_unlock" SPIN_LOCK_UNLOCKED sl_linv dec_wok slf_holds slf_credit dec_lvl dec_limit 10
proof unfold_locales
  show "slf_holds l" if "sl_linv l" "finished spin_lock_fast l" for l
    using that pc_cases7 [of "pc l"] by (auto simp: routine_defs spin_lock_fast_def)
qed (rule slf_laws | erule (2) slf_solo | simp add: routine_defs)+

interpretation v2: live_lock_routine "lock_step kmon_spin_lock_v2" core_entry "finished kmon_spin_lock_v2"
  "store_effect kmon_spin_unlock_v2" 1 sl_linv dec_wok sl_holds v2_credit dec_lvl dec_limit 10
proof unfold_locales
  show "sl_holds l" if "sl_linv l" "finished kmon_spin_lock_v2 l" for l
    using that pc_cases7 [of "pc l"] by (auto simp: routine_defs kmon_spin_lock_v2_def)
qed (rule v2_laws | erule (2) v2_solo | simp add: routine_defs)+

text \<open>The exchanging locks never count down, so they work for any number of threads.\<close>

interpretation cas: live_lock_routine "lock_step spin_lock_cas" core_entry "finished spin_lock_cas"
  "store_effect spin_unlock" SPIN_LOCK_UNLOCKED "xl_linv 0" any_word "xl_holds 1" no_credit "xl_lvl 1" limit 14
  for limit
proof unfold_locales
  show "xl_holds 1 l" if "xl_linv 0 l" "finished spin_lock_cas l" for l
    using that pc_cases10 [of "pc l"] by (auto simp: routine_defs spin_lock_cas_def)
qed (rule cas_laws | erule (2) cas_solo | simp add: routine_defs)+

interpretation kmon: live_lock_routine "lock_step kmon_spin_lock" core_entry "finished kmon_spin_lock"
  "store_effect kmon_spin_unlock" 0 "xl_linv 1" any_word "xl_holds 0" no_credit "xl_lvl 0" limit 14
  for limit
proof unfold_locales
  show "xl_holds 0 l" if "xl_linv 1 l" "finished kmon_spin_lock l" for l
    using that pc_cases10 [of "pc l"] by (auto simp: routine_defs kmon_spin_lock_def)
qed (rule kmon_laws | erule (2) kmon_solo | simp add: routine_defs)+

section \<open>Properties\<close>

lemma macro_lock_same: "SPIN_LOCK = kmon_spin_lock" "SPIN_UNLOCK = kmon_spin_unlock"
  by (simp_all add: SPIN_LOCK_def kmon_spin_lock_def SPIN_UNLOCK_def kmon_spin_unlock_def)

lemmas lock_init_simps = spin_lock_init_def SPIN_LOCK_UNLOCKED_def kmon_spin_init_def
  kmon_spin_init_v2_def

lemmas lock_run_simps = mutex_step_def mutex_init_def lock_exec_simps core_entry_def finished_def

definition lock_routines :: "u32 \<Rightarrow> (instr list \<times> instr list \<times> u32) set" where
  "lock_routines w = {(spin_lock, spin_unlock, spin_lock_init w), (spin_lock_fast, spin_unlock, spin_lock_init w),
     (spin_lock_cas, spin_unlock, spin_lock_init w), (kmon_spin_lock, kmon_spin_unlock, store_effect kmon_spin_init w),
     (SPIN_LOCK, SPIN_UNLOCK, store_effect kmon_spin_init w),
     (kmon_spin_lock_v2, kmon_spin_unlock_v2, store_effect kmon_spin_init_v2 w)}"

text \<open>
  With the lock of synch.h that tests the sign, two threads are never in the critical section
  together, whatever the interleaving of their instructions (up to 2 to the 31 threads: the bound keeps the word from wrapping around).
\<close>

lemma spin_lock_mutex:
  assumes "reachable (spin_system spin_lock spin_unlock n) (mutex_init (spin_lock_init w)) s"
    and "n \<le> 2 ^ 31" and "i < n" "j < n" and "lthreads s i = Critical" "lthreads s j = Critical"
  shows "i = j"
  using assms sl.mutual_exclusion
  by (simp add: lock_init_simps dec_limit_def)

text \<open>
  With the lock of synch.h taken from pthreads, two threads are never in the critical section
  together, whatever the interleaving of their instructions (up to 2 to the 31 threads: the bound keeps the word from wrapping around).
\<close>

lemma spin_lock_fast_mutex:
  assumes "reachable (spin_system spin_lock_fast spin_unlock n) (mutex_init (spin_lock_init w)) s"
    and "n \<le> 2 ^ 31" and "i < n" "j < n" and "lthreads s i = Critical" "lthreads s j = Critical"
  shows "i = j"
  using assms slf.mutual_exclusion
  by (simp add: lock_init_simps dec_limit_def)

text \<open>
  With the exchanging lock of synch.h, two threads are never in the critical section
  together, whatever the interleaving of their instructions and however many threads there are.
\<close>

lemma spin_lock_cas_mutex:
  assumes "reachable (spin_system spin_lock_cas spin_unlock n) (mutex_init (spin_lock_init w)) s"
    and "i < n" "j < n" and "lthreads s i = Critical" "lthreads s j = Critical"
  shows "i = j"
  using assms cas.mutual_exclusion [where limit = n]
  by (simp add: lock_init_simps)

text \<open>
  With the exchanging lock of spin.c and spin.h, two threads are never in the critical section
  together, whatever the interleaving of their instructions and however many threads there are.
\<close>

lemma kmon_spin_lock_mutex:
  assumes "reachable (spin_system kmon_spin_lock kmon_spin_unlock n) (mutex_init (store_effect kmon_spin_init w)) s"
    and "i < n" "j < n" and "lthreads s i = Critical" "lthreads s j = Critical"
  shows "i = j"
  using assms kmon.mutual_exclusion [where limit = n]
  by (simp add: lock_init_simps)

text \<open>
  With the decrementing lock of spin.c, two threads are never in the critical section
  together, whatever the interleaving of their instructions (up to 2 to the 31 threads: the bound keeps the word from wrapping around).
\<close>

lemma kmon_spin_lock_v2_mutex:
  assumes "reachable (spin_system kmon_spin_lock_v2 kmon_spin_unlock_v2 n) (mutex_init (store_effect kmon_spin_init_v2 w)) s"
    and "n \<le> 2 ^ 31" and "i < n" "j < n" and "lthreads s i = Critical" "lthreads s j = Critical"
  shows "i = j"
  using assms v2.mutual_exclusion
  by (simp add: lock_init_simps dec_limit_def)

text \<open>
  C12: with each of the locks of synch.h and of spin.c and spin.h, two threads are never in the critical section
  together, whatever the interleaving of their instructions, for up to 2 to the 31 threads.
\<close>

theorem locks_mutex:
  assumes "(lock, unlock, v) \<in> lock_routines w"
    and "reachable (spin_system lock unlock n) (mutex_init v) s"
    and "n \<le> 2 ^ 31" and "i < n" "j < n" and "lthreads s i = Critical" "lthreads s j = Critical"
  shows "i = j"
proof -
  consider "lock = spin_lock" "unlock = spin_unlock" "v = spin_lock_init w"
    | "lock = spin_lock_cas" "unlock = spin_unlock" "v = spin_lock_init w"
    | "lock = kmon_spin_lock" "unlock = kmon_spin_unlock" "v = store_effect kmon_spin_init w"
    | "lock = kmon_spin_lock_v2" "unlock = kmon_spin_unlock_v2" "v = store_effect kmon_spin_init_v2 w"
    | "lock = spin_lock_fast" "unlock = spin_unlock" "v = spin_lock_init w"
    using assms(1) by (auto simp: lock_routines_def macro_lock_same)
  then show ?thesis
  proof cases
    case 1
    with assms(2) have "reachable (spin_system spin_lock spin_unlock n) (mutex_init (spin_lock_init w)) s" by simp
    from spin_lock_mutex [OF this assms(3-7)] show ?thesis .
  next
    case 2
    with assms(2) have "reachable (spin_system spin_lock_cas spin_unlock n) (mutex_init (spin_lock_init w)) s" by simp
    from spin_lock_cas_mutex [OF this assms(4-7)] show ?thesis .
  next
    case 3
    with assms(2) have "reachable (spin_system kmon_spin_lock kmon_spin_unlock n) (mutex_init (store_effect kmon_spin_init w)) s"
      by simp
    from kmon_spin_lock_mutex [OF this assms(4-7)] show ?thesis .
  next
    case 4
    with assms(2) have "reachable (spin_system kmon_spin_lock_v2 kmon_spin_unlock_v2 n)
      (mutex_init (store_effect kmon_spin_init_v2 w)) s" by simp
    from kmon_spin_lock_v2_mutex [OF this assms(3-7)] show ?thesis .
  next
    case 5
    with assms(2) have "reachable (spin_system spin_lock_fast spin_unlock n) (mutex_init (spin_lock_init w)) s" by simp
    from spin_lock_fast_mutex [OF this assms(3-7)] show ?thesis .
  qed
qed

theorem locks_mutex_witness:
  "\<exists>s. reachable (spin_system SPIN_LOCK SPIN_UNLOCK 2) (mutex_init (store_effect kmon_spin_init 7)) s
     \<and> lthreads s 0 = Critical \<and> lthreads s 1 \<noteq> Critical"
proof -
  let ?sys = "spin_system SPIN_LOCK SPIN_UNLOCK 2"
    and ?s0 = "mutex_init (store_effect kmon_spin_init 7) :: (core, u32) mutex_sys"
  obtain s where s: "run ?sys ?s0 [1, 0, 0, 0, 0, 1, 0, 0, 0] = Some s" "lthreads s 0 = Critical"
    by (simp add: lock_run_simps lock_init_simps SPIN_LOCK_def)
  from s(1) have r: "reachable ?sys ?s0 s" by (rule run_reachable)
  have "lthreads s 1 \<noteq> Critical"
    using locks_mutex [of SPIN_LOCK SPIN_UNLOCK "store_effect kmon_spin_init 7" 7, OF _ r, of 0 1] s(2)
    by (auto simp: lock_routines_def)
  with r s(2) show ?thesis by blast
qed

text \<open>The routines' own invariants bound their program counters.\<close>

lemma linv_in_code:
  "sl_linv l \<Longrightarrow> pc l < length spin_lock" "sl_linv l \<Longrightarrow> pc l < length spin_lock_fast"
  "sl_linv l \<Longrightarrow> pc l < length kmon_spin_lock_v2" "xl_linv x l \<Longrightarrow> pc l < length spin_lock_cas"
  "xl_linv x l \<Longrightarrow> pc l < length kmon_spin_lock"
  by (simp_all add: sl_linv_def xl_linv_def spin_lock_def spin_lock_fast_def kmon_spin_lock_v2_def
      spin_lock_cas_def kmon_spin_lock_def)

text \<open>
  C15: a thread in any of the locking routines is always at one of its instructions: no jump,
  and no fall-through, leads out of the block other than through its end, for up to 2 to the 31 threads.
\<close>

theorem locks_stay_in_code:
  assumes "(lock, unlock, v) \<in> lock_routines w" and "n \<le> 2 ^ 31"
    and r: "reachable (spin_system lock unlock n) (mutex_init v) s" and "i < n" "lthreads s i = Locking l"
  shows "pc l < length lock"
proof -
  have n: "n \<le> dec_limit" "n \<le> n" using assms(2) by (simp_all add: dec_limit_def)
  consider "lock = spin_lock" "unlock = spin_unlock" "v = SPIN_LOCK_UNLOCKED"
    | "lock = spin_lock_fast" "unlock = spin_unlock" "v = SPIN_LOCK_UNLOCKED"
    | "lock = spin_lock_cas" "unlock = spin_unlock" "v = SPIN_LOCK_UNLOCKED"
    | "lock = kmon_spin_lock" "unlock = kmon_spin_unlock" "v = 0"
    | "lock = kmon_spin_lock_v2" "unlock = kmon_spin_unlock_v2" "v = 1"
    using assms(1) by (auto simp: lock_routines_def macro_lock_same lock_init_simps)
  then show ?thesis
  proof cases
    case 1
    then show ?thesis using linv_in_code(1) [OF sl.routine_state [OF _ n(1) assms(4,5)]] r by simp
  next
    case 2
    then show ?thesis using linv_in_code(2) [OF slf.routine_state [OF _ n(1) assms(4,5)]] r by simp
  next
    case 3
    then show ?thesis using linv_in_code(4) [OF cas.routine_state [OF _ n(2) assms(4,5)]] r by simp
  next
    case 4
    then show ?thesis using linv_in_code(5) [OF kmon.routine_state [OF _ n(2) assms(4,5)]] r by simp
  next
    case 5
    then show ?thesis using linv_in_code(3) [OF v2.routine_state [OF _ n(1) assms(4,5)]] r by simp
  qed
qed

theorem locks_stay_in_code_witness:
  "\<exists>s l. reachable (spin_system spin_lock spin_unlock 2) (mutex_init (spin_lock_init 7)) s
     \<and> lthreads s 1 = Locking l \<and> pc l = 4 \<and> pc l < length spin_lock"
proof -
  let ?sys = "spin_system spin_lock spin_unlock 2" and ?s0 = "mutex_init (spin_lock_init 7) :: (core, u32) mutex_sys"
  have "\<exists>s l. run ?sys ?s0 [0, 1, 0, 1, 1, 1, 1] = Some s \<and> lthreads s 1 = Locking l \<and> pc l = 4"
    by (simp add: lock_run_simps lock_init_simps spin_lock_def)
  then obtain s l where s: "run ?sys ?s0 [0, 1, 0, 1, 1, 1, 1] = Some s" "lthreads s 1 = Locking l" "pc l = 4"
    by blast
  from s(1) have r: "reachable ?sys ?s0 s" by (rule run_reachable)
  have "(spin_lock, spin_unlock, spin_lock_init 7) \<in> lock_routines 7" by (simp add: lock_routines_def)
  from locks_stay_in_code [OF this _ r, of 1 l] s(2,3) r show ?thesis by auto
qed

text \<open>
  C13: every instruction of every thread in \<open>spin_lock_fast\<close> and its release is a move of
  the abstract lock (acquired by a thread only while free, released only by its owner) or
  leaves it as it is.
\<close>

theorem spin_lock_fast_refines:
  assumes "reachable (spin_system spin_lock_fast spin_unlock n) (mutex_init (spin_lock_init w)) s"
    and "n \<le> 2 ^ 31" and "spin_system spin_lock_fast spin_unlock n s i = Some t"
  shows "abs_lock_step i (lock_owner slf_holds n s) (lock_owner slf_holds n t)"
  using assms slf.refines_abs_lock 
  by (simp add: lock_init_simps dec_limit_def)

theorem spin_lock_fast_refines_witness:
  "\<exists>s t. spin_system spin_lock_fast spin_unlock 2 s 0 = Some t
     \<and> lock_owner slf_holds 2 s = None \<and> lock_owner slf_holds 2 t = Some 0
     \<and> abs_lock_step 0 (lock_owner slf_holds 2 s) (lock_owner slf_holds 2 t)"
proof -
  let ?sys = "spin_system spin_lock_fast spin_unlock 2" and ?s0 = "mutex_init (spin_lock_init 7) :: (core, u32) mutex_sys"
  obtain s t where s: "run ?sys ?s0 [0] = Some s" "?sys s 0 = Some t"
      "lock_owner slf_holds 2 s = None" "lock_owner slf_holds 2 t = Some 0"
    by (simp add: lock_run_simps lock_init_simps spin_lock_fast_def lock_owner_def slf_holds_def
        upt_rec numeral_2_eq_2)
  from s(1) have r: "reachable ?sys ?s0 s" by (rule run_reachable)
  have "abs_lock_step 0 (lock_owner slf_holds 2 s) (lock_owner slf_holds 2 t)"
    by (rule spin_lock_fast_refines [OF r _ s(2)]) simp
  with s(2-4) show ?thesis by blast
qed

text \<open>
  C14: a thread waiting in \<open>spin_lock_fast\<close> while no other thread owns the lock gets
  it within 11 moves of its own, so a released lock is never lost.
\<close>

theorem spin_lock_fast_available:
  assumes "reachable (spin_system spin_lock_fast spin_unlock n) (mutex_init (spin_lock_init w)) s"
    and "n \<le> 2 ^ 31" and "i < n" "lthreads s i = Locking l"
    and "\<forall>j<n. j \<noteq> i \<longrightarrow> \<not> owns slf_holds (lthreads s j)"
  shows "\<exists>j t. j \<le> 11 \<and> run (spin_system spin_lock_fast spin_unlock n) s (replicate j i) = Some t
    \<and> lthreads t i = Critical"
  using assms slf.free_lock_available 
  by (simp add: lock_init_simps dec_limit_def)

theorem spin_lock_fast_available_witness:
  "\<exists>s j t. lthreads s 1 = Locking core_entry
     \<and> run (spin_system spin_lock_fast spin_unlock 2) s (replicate j 1) = Some t \<and> lthreads t 1 = Critical"
proof -
  let ?sys = "spin_system spin_lock_fast spin_unlock 2" and ?s0 = "mutex_init (spin_lock_init 7) :: (core, u32) mutex_sys"
  obtain s where s: "run ?sys ?s0 [1] = Some s" "lthreads s 1 = Locking core_entry"
      "\<forall>j. j \<noteq> 1 \<longrightarrow> lthreads s j = Out"
    by (simp add: lock_run_simps lock_init_simps)
  from s(1) have r: "reachable ?sys ?s0 s" by (rule run_reachable)
  have "\<exists>j t. j \<le> 11 \<and> run ?sys s (replicate j 1) = Some t \<and> lthreads t 1 = Critical"
    using s(2,3) by (intro spin_lock_fast_available [OF r]) auto
  with s(2) show ?thesis by blast
qed

text \<open>
  Every instruction of every thread in \<open>kmon_spin_lock\<close> and its release is a move of
  the abstract lock (acquired by a thread only while free, released only by its owner) or
  leaves it as it is.
\<close>

theorem kmon_spin_lock_refines:
  assumes "reachable (spin_system kmon_spin_lock kmon_spin_unlock n) (mutex_init (store_effect kmon_spin_init w)) s"
    and "spin_system kmon_spin_lock kmon_spin_unlock n s i = Some t"
  shows "abs_lock_step i (lock_owner (xl_holds 0) n s) (lock_owner (xl_holds 0) n t)"
  using assms kmon.refines_abs_lock [where limit = n]
  by (simp add: lock_init_simps)

theorem kmon_spin_lock_refines_witness:
  "\<exists>s t. spin_system kmon_spin_lock kmon_spin_unlock 2 s 0 = Some t
     \<and> lock_owner (xl_holds 0) 2 s = None \<and> lock_owner (xl_holds 0) 2 t = Some 0
     \<and> abs_lock_step 0 (lock_owner (xl_holds 0) 2 s) (lock_owner (xl_holds 0) 2 t)"
proof -
  let ?sys = "spin_system kmon_spin_lock kmon_spin_unlock 2" and ?s0 = "mutex_init (store_effect kmon_spin_init 7) :: (core, u32) mutex_sys"
  obtain s t where s: "run ?sys ?s0 [0, 0] = Some s" "?sys s 0 = Some t"
      "lock_owner (xl_holds 0) 2 s = None" "lock_owner (xl_holds 0) 2 t = Some 0"
    by (simp add: lock_run_simps lock_init_simps kmon_spin_lock_def lock_owner_def xl_holds_def
        upt_rec numeral_2_eq_2)
  from s(1) have r: "reachable ?sys ?s0 s" by (rule run_reachable)
  have "abs_lock_step 0 (lock_owner (xl_holds 0) 2 s) (lock_owner (xl_holds 0) 2 t)"
    by (rule kmon_spin_lock_refines [OF r s(2)])
  with s(2-4) show ?thesis by blast
qed

text \<open>
  A thread waiting in \<open>kmon_spin_lock\<close> while no other thread owns the lock gets
  it within 15 moves of its own, so a released lock is never lost.
\<close>

theorem kmon_spin_lock_available:
  assumes "reachable (spin_system kmon_spin_lock kmon_spin_unlock n) (mutex_init (store_effect kmon_spin_init w)) s"
    and "i < n" "lthreads s i = Locking l"
    and "\<forall>j<n. j \<noteq> i \<longrightarrow> \<not> owns (xl_holds 0) (lthreads s j)"
  shows "\<exists>j t. j \<le> 15 \<and> run (spin_system kmon_spin_lock kmon_spin_unlock n) s (replicate j i) = Some t
    \<and> lthreads t i = Critical"
  using assms kmon.free_lock_available [where limit = n]
  by (simp add: lock_init_simps)

theorem kmon_spin_lock_available_witness:
  "\<exists>s j t. lthreads s 1 = Locking core_entry
     \<and> run (spin_system kmon_spin_lock kmon_spin_unlock 2) s (replicate j 1) = Some t \<and> lthreads t 1 = Critical"
proof -
  let ?sys = "spin_system kmon_spin_lock kmon_spin_unlock 2" and ?s0 = "mutex_init (store_effect kmon_spin_init 7) :: (core, u32) mutex_sys"
  obtain s where s: "run ?sys ?s0 [1] = Some s" "lthreads s 1 = Locking core_entry"
      "\<forall>j. j \<noteq> 1 \<longrightarrow> lthreads s j = Out"
    by (simp add: lock_run_simps lock_init_simps)
  from s(1) have r: "reachable ?sys ?s0 s" by (rule run_reachable)
  have "\<exists>j t. j \<le> 15 \<and> run ?sys s (replicate j 1) = Some t \<and> lthreads t 1 = Critical"
    using s(2,3) by (intro kmon_spin_lock_available [OF r]) auto
  with s(2) show ?thesis by blast
qed

end
