(* ===== verification/Spin_Loops.thy ===== *)
theory Spin_Loops
  imports X86_Asm
begin

text \<open>
  The waiting loops: \<open>spin_on_condition\<close> and its variants of \<open>mwait_barrier/synch.h\<close>, and the
  \<open>SPIN_ON_CONDITION\<close> macros of \<open>spin.h\<close>.  A loop only reads the shared word, so what it sees is
  a list of values, one for each instruction it executes: whatever other threads store.
\<close>

section \<open>The loops of synch.h\<close>

definition spin_on_condition :: "instr list" where
  "spin_on_condition =
    [ Cmp Op1 Mem0, J CE 5,                   \<comment> \<open>\<open>je 2f\<close>\<close>
      Pause,                                  \<comment> \<open>label 1\<close>
      Cmp Op1 Mem0, J CNE 2,                  \<comment> \<open>\<open>jne 1b\<close>\<close>
      Leave ]"

definition spin_on_condition_ineq :: "instr list" where
  "spin_on_condition_ineq =
    [ Cmp Op1 Mem0, J CGE 5,                  \<comment> \<open>\<open>jge 2f\<close>\<close>
      Pause,
      Cmp Op1 Mem0, J CLE 2,                  \<comment> \<open>\<open>jle 1b\<close>\<close>
      Leave ]"

definition spin_on_condition_cpuhalt :: "instr list" where
  "spin_on_condition_cpuhalt =
    [ Cmp Op1 Mem0, J CE 7,
      Pause, MovRax 256, Syscall,
      Cmp Op1 Mem0, J CNE 2,
      Leave ]"

definition spin_on_condition_ineq_cpuhalt :: "instr list" where
  "spin_on_condition_ineq_cpuhalt =
    [ Cmp Op1 Mem0, J CGE 7,
      Pause, MovRax 256, Syscall,
      Cmp Op1 Mem0, J CLE 2,
      Leave ]"

text \<open>
  Both blocks overwrite \<open>rax\<close>, by the number and by the kernel's result, and do not declare it; \<open>condition_val\<close> has
  the constraint \<open>ir\<close>, so a compiler may keep it in \<open>eax\<close>.  The lists above are the blocks with the value in a place they leave
  alone; these are the same blocks with the value in \<open>eax\<close>.
\<close>

fun operand_in_rax :: "instr \<Rightarrow> instr" where
  "operand_in_rax (Cmp Op1 d) = Cmp Eax d"
| "operand_in_rax i = i"

definition cpuhalt_in_rax :: "instr list" where
  "cpuhalt_in_rax = map operand_in_rax spin_on_condition_cpuhalt"

definition ineq_cpuhalt_in_rax :: "instr list" where
  "ineq_cpuhalt_in_rax = map operand_in_rax spin_on_condition_ineq_cpuhalt"

definition rax_entry :: "u32 \<Rightarrow> core" where
  "rax_entry condition_val = core_entry\<lparr>rax := ucast condition_val\<rparr>"

section \<open>The loops of spin.h and spin.c\<close>

definition kmon_spin_on_condition :: "instr list" where
  "kmon_spin_on_condition =
    [ Cmp Op1 Mem0, J CE 5, Pause, Cmp Op1 Mem0, J CNE 2, Leave ]"

definition SPIN_ON_CONDITION :: "instr list" where
  "SPIN_ON_CONDITION =
    [ Cmp Op1 Mem0, J CE 5, Pause, Cmp Op1 Mem0, J CNE 2, Leave ]"

definition SPIN_ON_CONDITION_HLT :: "instr list" where
  "SPIN_ON_CONDITION_HLT =
    [ Cmp Op1 Mem0, J CE 7, Pause, MovRax 16, Syscall, Cmp Op1 Mem0, J CNE 2, Leave ]"

definition SPIN_ON_CONDITION_HLTCNT :: "instr list" where
  "SPIN_ON_CONDITION_HLTCNT =
    [ Cmp Op1 Mem0, J CE 8, Pause, MovRax 16, Syscall, IncCnt, Cmp Op1 Mem0, J CNE 2, Leave ]"

definition SPIN_ON_CONDITION_INEQ :: "instr list" where
  "SPIN_ON_CONDITION_INEQ =
    [ Cmp Op1 Mem0, J CGE 5, Pause, Cmp Op1 Mem0, J CLE 2, Leave ]"

definition SPIN_ON_CONDITION_INEQ_CNT :: "instr list" where
  "SPIN_ON_CONDITION_INEQ_CNT =
    [ Cmp Op1 Mem0, J CGE 6, Pause, IncCnt, Cmp Op1 Mem0, J CLE 2, Leave ]"

definition SPIN_ON_CONDITION_INEQ_CPUHALT :: "instr list" where
  "SPIN_ON_CONDITION_INEQ_CPUHALT =
    [ Cmp Op1 Mem0, J CGE 7, Pause, MovRax 256, Syscall, Cmp Op1 Mem0, J CLE 2, Leave ]"

definition SPIN_ON_CONDITION_INEQ_CPUHALT_CNT :: "instr list" where
  "SPIN_ON_CONDITION_INEQ_CPUHALT_CNT =
    [ Cmp Op1 Mem0, J CGE 8, Pause, MovRax 256, Syscall, IncCnt, Cmp Op1 Mem0, J CLE 2, Leave ]"

definition SPIN_ON_CONDITION_INEQ_HLT :: "instr list" where
  "SPIN_ON_CONDITION_INEQ_HLT =
    [ Cmp Op1 Mem0, J CGE 7, Pause, MovRax 16, Syscall, Cmp Op1 Mem0, J CLE 2, Leave ]"

definition SPIN_ON_CONDITION_INEQ_HLT_CNT :: "instr list" where
  "SPIN_ON_CONDITION_INEQ_HLT_CNT =
    [ Cmp Op1 Mem0, J CGE 8, Pause, MovRax 16, Syscall, IncCnt, Cmp Op1 Mem0, J CLE 2, Leave ]"

definition FAST_IOCTL :: "instr list" where
  "FAST_IOCTL = [ MovRax 16, Syscall, Leave ]"

definition IOCTL_HLT :: "instr list" where
  "IOCTL_HLT = [ MovRax 16, Syscall, Leave ]"

section \<open>What a loop sees\<close>

fun obs_run :: "(u64 \<Rightarrow> u64) \<Rightarrow> instr list \<Rightarrow> 'w::len word \<Rightarrow> core \<Rightarrow> 'w word list \<Rightarrow> core" where
  "obs_run kret prog v c [] = c"
| "obs_run kret prog v c (m # ms) = obs_run kret prog v (fst (x86_step kret prog v c m)) ms"

lemma obs_run_append:
  "obs_run kret prog v c (xs @ ys) = obs_run kret prog v (obs_run kret prog v c xs) ys"
  by (induction xs arbitrary: c) simp_all

text \<open>All loops have one shape: test, body, test again, with a body that runs straight through.\<close>

fun straight :: "instr \<Rightarrow> bool" where
  "straight Pause = True"
| "straight (MovRax k) = True"
| "straight Syscall = True"
| "straight IncCnt = True"
| "straight _ = False"

definition spin_loop :: "cond \<Rightarrow> instr list \<Rightarrow> cond \<Rightarrow> instr list" where
  "spin_loop ec body bc =
    [Cmp Op1 Mem0, J ec (length body + 4)] @ body @ [Cmp Op1 Mem0, J bc 2, Leave]"

lemma loop_shapes:
  "spin_on_condition = spin_loop CE [Pause] CNE"
  "spin_on_condition_ineq = spin_loop CGE [Pause] CLE"
  "spin_on_condition_cpuhalt = spin_loop CE [Pause, MovRax 256, Syscall] CNE"
  "spin_on_condition_ineq_cpuhalt = spin_loop CGE [Pause, MovRax 256, Syscall] CLE"
  "kmon_spin_on_condition = spin_loop CE [Pause] CNE"
  "SPIN_ON_CONDITION = spin_loop CE [Pause] CNE"
  "SPIN_ON_CONDITION_HLT = spin_loop CE [Pause, MovRax 16, Syscall] CNE"
  "SPIN_ON_CONDITION_HLTCNT = spin_loop CE [Pause, MovRax 16, Syscall, IncCnt] CNE"
  "SPIN_ON_CONDITION_INEQ = spin_loop CGE [Pause] CLE"
  "SPIN_ON_CONDITION_INEQ_CNT = spin_loop CGE [Pause, IncCnt] CLE"
  "SPIN_ON_CONDITION_INEQ_CPUHALT = spin_loop CGE [Pause, MovRax 256, Syscall] CLE"
  "SPIN_ON_CONDITION_INEQ_CPUHALT_CNT = spin_loop CGE [Pause, MovRax 256, Syscall, IncCnt] CLE"
  "SPIN_ON_CONDITION_INEQ_HLT = spin_loop CGE [Pause, MovRax 16, Syscall] CLE"
  "SPIN_ON_CONDITION_INEQ_HLT_CNT = spin_loop CGE [Pause, MovRax 16, Syscall, IncCnt] CLE"
  by (simp_all add: spin_loop_def spin_on_condition_def spin_on_condition_ineq_def
      spin_on_condition_cpuhalt_def spin_on_condition_ineq_cpuhalt_def kmon_spin_on_condition_def
      SPIN_ON_CONDITION_def SPIN_ON_CONDITION_HLT_def SPIN_ON_CONDITION_HLTCNT_def
      SPIN_ON_CONDITION_INEQ_def SPIN_ON_CONDITION_INEQ_CNT_def
      SPIN_ON_CONDITION_INEQ_CPUHALT_def SPIN_ON_CONDITION_INEQ_CPUHALT_CNT_def
      SPIN_ON_CONDITION_INEQ_HLT_def SPIN_ON_CONDITION_INEQ_HLT_CNT_def)

section \<open>Conditions after a comparison\<close>

fun test :: "cond \<Rightarrow> 'w::len word \<Rightarrow> 'w word \<Rightarrow> bool" where
  "test CE m v = (m = v)"
| "test CNE m v = (m \<noteq> v)"
| "test CLE m v = (sint m \<le> sint v)"
| "test CGE m v = (sint v \<le> sint m)"
| "test CG m v = (sint v < sint m)"
| "test CNS m v = (\<not> sint (m - v) < 0)"

lemma cond_after_cmp:
  "cond_holds b (next_pc (set_flags (m - v) (sint m - sint v) c)) = test b m v"
proof -
  have eq: "m = v \<longleftrightarrow> sint m = sint v" using signed_word_eqI by auto
  show ?thesis
    using cmp_signed_less [of m v] eq
    by (cases b) (auto simp: next_pc_def set_flags_def)
qed

lemma pc_next_pc [simp]: "pc (next_pc c) = Suc (pc c)"
  by (simp add: next_pc_def)

lemma core_frame [simp]:
  "rax (next_pc c) = rax c" "cnt (next_pc c) = cnt c" "syscalls (next_pc c) = syscalls c"
  "rax (set_flags r e c) = rax c" "cnt (set_flags r e c) = cnt c"
  "syscalls (set_flags r e c) = syscalls c"
  by (simp_all add: next_pc_def set_flags_def)

lemma pc_set_flags [simp]: "pc (set_flags r e c) = pc c"
  by (simp add: set_flags_def)

lemma straight_exec:
  "straight i \<Longrightarrow> pc (fst (x86_exec kret v i c m)) = Suc (pc c) \<and> snd (x86_exec kret v i c m) = m"
  by (cases i) (simp_all add: next_pc_def set_flags_def)

section \<open>One instruction of a loop\<close>

lemma loop_regions:
  assumes "k < n + 4"
  obtains "k = 0" | "k = 1" | "2 \<le> k" "k < n + 2" | "k = n + 2" | "k = n + (3::nat)"
proof -
  have "k = 0 \<or> k = 1 \<or> 2 \<le> k \<and> k < n + 2 \<or> k = n + 2 \<or> k = n + 3" using assms by linarith
  then show thesis using that by blast
qed

lemma loop_length [simp]: "length (spin_loop ec body bc) = length body + 5"
  by (simp add: spin_loop_def)

lemma loop_nth:
  "spin_loop ec body bc ! 0 = Cmp Op1 Mem0"
  "spin_loop ec body bc ! Suc 0 = J ec (length body + 4)"
  "k < length body \<Longrightarrow> spin_loop ec body bc ! (2 + k) = body ! k"
  "spin_loop ec body bc ! (length body + 2) = Cmp Op1 Mem0"
  "spin_loop ec body bc ! (length body + 3) = J bc 2"
  "spin_loop ec body bc ! (length body + 4) = Leave"
  by (simp_all add: spin_loop_def nth_append nth_Cons')

lemmas loop_nths = loop_nth loop_nth [simplified]

abbreviation loop_exec :: "(u64 \<Rightarrow> u64) \<Rightarrow> cond \<Rightarrow> instr list \<Rightarrow> cond \<Rightarrow> 'w::len word
    \<Rightarrow> core \<Rightarrow> 'w word \<Rightarrow> core" where
  "loop_exec kret ec body bc v c m \<equiv> fst (x86_step kret (spin_loop ec body bc) v c m)"

lemma loop_step:
  assumes "list_all straight body"
  shows "pc c = 0 \<Longrightarrow> pc (loop_exec kret ec body bc v c m) = 1 \<and> (\<forall>b. cond_holds b (loop_exec kret ec body bc v c m) = test b m v)"
    and "pc c = 1 \<Longrightarrow> pc (loop_exec kret ec body bc v c m) = (if cond_holds ec c then length body + 4 else 2)"
    and "2 \<le> pc c \<Longrightarrow> pc c < length body + 2 \<Longrightarrow> pc (loop_exec kret ec body bc v c m) = Suc (pc c)"
    and "pc c = length body + 2 \<Longrightarrow>
      pc (loop_exec kret ec body bc v c m) = length body + 3 \<and> (\<forall>b. cond_holds b (loop_exec kret ec body bc v c m) = test b m v)"
    and "pc c = length body + 3 \<Longrightarrow> pc (loop_exec kret ec body bc v c m) = (if cond_holds bc c then 2 else length body + 4)"
    and "pc c = length body + 4 \<Longrightarrow> loop_exec kret ec body bc v c m = c"
proof -
  show "pc (loop_exec kret ec body bc v c m) = Suc (pc c)" if "2 \<le> pc c" "pc c < length body + 2"
  proof -
    have k: "pc c - 2 < length body" and p: "2 + (pc c - 2) = pc c" using that by auto
    have "straight (body ! (pc c - 2))" using assms(1) k by (simp add: list_all_length)
    then show ?thesis
      using loop_nth(3) [OF k, of ec bc] p that by (simp add: x86_step_def straight_exec)
  qed
qed (simp_all add: x86_step_def loop_nths cond_after_cmp)

lemma loop_finished:
  "pc c < length body + 5 \<Longrightarrow> list_all straight body \<Longrightarrow>
   finished (spin_loop ec body bc) c \<longleftrightarrow> pc c = length body + 4"
proof -
  assume k: "pc c < length body + 5" and st: "list_all straight body"
  have "spin_loop ec body bc ! pc c \<noteq> Leave" if "pc c \<noteq> length body + 4"
  proof -
    have "pc c < length body + 4" using k that by simp
    then show ?thesis
    proof (cases rule: loop_regions)
      case 3
      then have j: "pc c - 2 < length body" and p: "2 + (pc c - 2) = pc c" by auto
      have "straight (body ! (pc c - 2))" using st j by (simp add: list_all_length)
      then show ?thesis using loop_nth(3) [OF j, of ec bc] p by (metis straight.simps(12))
    qed (simp_all add: loop_nths)
  qed
  then show ?thesis using k loop_nth(6) by (auto simp: finished_def)
qed

section \<open>Waiting and leaving\<close>

definition loop_waiting :: "cond \<Rightarrow> instr list \<Rightarrow> cond \<Rightarrow> core \<Rightarrow> bool" where
  "loop_waiting ec body bc c \<longleftrightarrow> 0 < pc c \<and> pc c < length body + 4
     \<and> (pc c = 1 \<longrightarrow> \<not> cond_holds ec c) \<and> (pc c = length body + 3 \<longrightarrow> cond_holds bc c)"

lemma loop_waiting_step:
  assumes "list_all straight body" and "loop_waiting ec body bc c" and "test bc m v"
  shows "loop_waiting ec body bc (loop_exec kret ec body bc v c m)"
proof -
  have "pc c < length body + 4" using assms(2) by (simp add: loop_waiting_def)
  then show ?thesis
    using loop_step [OF assms(1), of c kret ec bc v m] assms(2,3)
    by (cases rule: loop_regions) (auto simp: loop_waiting_def)
qed

lemma loop_waiting_run:
  assumes "list_all straight body" and "loop_waiting ec body bc c" and "\<forall>m\<in>set ms. test bc m v"
  shows "loop_waiting ec body bc (obs_run kret (spin_loop ec body bc) v c ms)"
  using assms(2,3)
  by (induction ms arbitrary: c) (simp_all add: loop_waiting_step [OF assms(1)])

lemma loop_waiting_not_finished:
  "list_all straight body \<Longrightarrow> loop_waiting ec body bc c \<Longrightarrow> \<not> finished (spin_loop ec body bc) c"
  by (simp add: loop_waiting_def loop_finished)

text \<open>A loop that fails its first test stays as long as what it sees sends it back.\<close>

lemma loop_stays:
  assumes "list_all straight body" and "\<not> test ec m0 v" and "\<forall>m\<in>set ms. test bc m v"
  shows "\<not> finished (spin_loop ec body bc)
    (obs_run kret (spin_loop ec body bc) v core_entry (m0 # ms))"
proof -
  have "loop_waiting ec body bc (loop_exec kret ec body bc v core_entry m0)"
    using loop_step(1) [OF assms(1), of core_entry kret ec bc v m0] assms(2)
    by (auto simp: loop_waiting_def core_entry_def)
  then show ?thesis
    using loop_waiting_not_finished [OF assms(1)] loop_waiting_run [OF assms(1) _ assms(3)] by simp
qed

text \<open>Wherever a loop is, a value that passes both tests lets it out after one more round.\<close>

definition in_loop :: "instr list \<Rightarrow> core \<Rightarrow> bool" where
  "in_loop body c \<longleftrightarrow> pc c < length body + 5"

lemma in_loop_step:
  assumes "list_all straight body" and "in_loop body c"
  shows "in_loop body (loop_exec kret ec body bc v c m)"
proof (cases "pc c = length body + 4")
  case True
  then show ?thesis using assms(2) by (simp add: loop_step(6) [OF assms(1)])
next
  case False
  then have "pc c < length body + 4" using assms(2) by (simp add: in_loop_def)
  then show ?thesis
    using loop_step [OF assms(1), of c kret ec bc v m]
    by (cases rule: loop_regions) (auto simp: in_loop_def split: if_splits)
qed

lemma in_loop_run:
  "list_all straight body \<Longrightarrow> in_loop body c \<Longrightarrow>
   in_loop body (obs_run kret (spin_loop ec body bc) v c ms)"
  by (induction ms arbitrary: c) (simp_all add: in_loop_step)

text \<open>How many instructions are left when everything seen passes both tests.\<close>

definition loop_rank :: "cond \<Rightarrow> instr list \<Rightarrow> cond \<Rightarrow> core \<Rightarrow> nat" where
  "loop_rank ec body bc c =
     (if pc c = 0 then 2
      else if pc c = 1 then (if cond_holds ec c then 1 else length body + 3)
      else if pc c = length body + 3 then (if cond_holds bc c then length body + 3 else 1)
      else length body + 4 - pc c)"

lemma loop_rank_step:
  assumes "list_all straight body" and "in_loop body c" and "test ec m v" and "\<not> test bc m v"
  shows "loop_rank ec body bc (loop_exec kret ec body bc v c m) \<le> loop_rank ec body bc c - 1"
proof (cases "pc c = length body + 4")
  case True
  then show ?thesis by (simp add: loop_step(6) [OF assms(1)] loop_rank_def)
next
  case False
  then have "pc c < length body + 4" using assms(2) by (simp add: in_loop_def)
  then show ?thesis
    using loop_step [OF assms(1), of c kret ec bc v m] assms(3,4)
    by (cases rule: loop_regions) (auto simp: loop_rank_def)
qed

lemma loop_leaves:
  assumes "list_all straight body" and "in_loop body c" and "test ec m v" and "\<not> test bc m v"
    and "loop_rank ec body bc c \<le> k"
  shows "finished (spin_loop ec body bc) (obs_run kret (spin_loop ec body bc) v c (replicate k m))"
  using assms(2,5)
proof (induction k arbitrary: c)
  case 0
  then show ?case
    using loop_finished [of c body ec bc] assms(1)
    by (auto simp: loop_rank_def in_loop_def split: if_splits)
next
  case (Suc k)
  have "loop_rank ec body bc (loop_exec kret ec body bc v c m) \<le> k"
    using loop_rank_step [OF assms(1) Suc.prems(1) assms(3,4), of kret] Suc.prems(2) by linarith
  then show ?case using Suc.IH [OF in_loop_step [OF assms(1) Suc.prems(1)]] by simp
qed

lemma loop_leaves_eventually:
  assumes "list_all straight body" and "test ec m v" and "\<not> test bc m v" and "length body + 3 \<le> k"
  shows "finished (spin_loop ec body bc) (obs_run kret (spin_loop ec body bc) v core_entry
    (ms @ replicate k m))"
proof -
  let ?c = "obs_run kret (spin_loop ec body bc) v core_entry ms"
  have "in_loop body ?c" by (rule in_loop_run [OF assms(1)]) (simp add: in_loop_def core_entry_def)
  moreover from this have "loop_rank ec body bc ?c \<le> k"
    using assms(4) by (auto simp: loop_rank_def in_loop_def)
  ultimately show ?thesis
    by (simp add: obs_run_append loop_leaves [OF assms(1) _ assms(2,3)])
qed

section \<open>The system calls a halting loop makes\<close>

definition halt_log :: "u64 \<Rightarrow> bool \<Rightarrow> core \<Rightarrow> bool" where
  "halt_log n counts c \<longleftrightarrow> pc c < 9 \<and> (pc c = 4 \<longrightarrow> rax c = n) \<and> set (syscalls c) \<subseteq> {n}
     \<and> (counts \<longrightarrow> word_of_nat (length (syscalls c)) = cnt c + (if pc c = 5 then 1 else 0))"

lemma halt_log_entry: "halt_log n counts core_entry"
  by (simp add: halt_log_def core_entry_def)

lemma pc_cases9: "k < 9 \<Longrightarrow> k = 0 \<or> k = 1 \<or> k = 2 \<or> k = 3 \<or> k = 4 \<or> k = 5 \<or> k = 6
    \<or> k = 7 \<or> k = (8::nat)"
  by arith

lemma halt_log_step:
  assumes "halt_log n counts c"
    and "prog = spin_loop ec (if counts then [Pause, MovRax n, Syscall, IncCnt]
      else [Pause, MovRax n, Syscall]) bc"
  shows "halt_log n counts (fst (x86_step kret prog v c m))"
proof (cases "pc c < length prog")
  case False
  then show ?thesis using assms(1) by (simp add: x86_step_def)
next
  case True
  have k: "pc c < 9" using assms(1) by (simp add: halt_log_def)
  have x: "x86_step kret prog v c m = x86_exec kret v (prog ! pc c) c m"
    using True by (simp add: x86_step_def)
  from pc_cases9 [OF k] show ?thesis
    unfolding x
    by (elim disjE)
      (use assms True in \<open>cases counts; simp add: halt_log_def spin_loop_def\<close>)+
qed

lemma halt_log_run:
  assumes "prog = spin_loop ec (if counts then [Pause, MovRax n, Syscall, IncCnt]
      else [Pause, MovRax n, Syscall]) bc" and "halt_log n counts c"
  shows "halt_log n counts (obs_run kret prog v c ms)"
  using assms(2)
  by (induction ms arbitrary: c) (simp_all add: halt_log_step [OF _ assms(1)])

section \<open>The awaited value in a register the loop destroys\<close>

text \<open>
  After its first system call a halting loop of \<open>synch.h\<close> whose operand is in \<open>eax\<close> waits for the kernel's result and
  no longer for the value it was called with.
\<close>

lemmas in_rax_eval = cpuhalt_in_rax_def ineq_cpuhalt_in_rax_def spin_on_condition_cpuhalt_def
  spin_on_condition_ineq_cpuhalt_def rax_entry_def core_entry_def x86_step_def finished_def cond_after_cmp Let_def

lemma ucast_back [simp]: "ucast (ucast (x :: u32) :: u64) = x"
  by (intro bit_word_eqI) (auto simp: bit_simps)

lemma cpuhalt_operand_lost:
  fixes condition_val :: u32
  assumes "m0 \<noteq> condition_val"
  shows "finished cpuhalt_in_rax (obs_run kret cpuhalt_in_rax v (rax_entry condition_val) [m0, a, b, c, d, m, e])
    \<longleftrightarrow> m = ucast (kret 256)"
  using assms by (simp add: in_rax_eval)

lemma ineq_cpuhalt_operand_lost:
  fixes condition_val m0 :: u32
  assumes "sint m0 < sint condition_val"
  shows "finished ineq_cpuhalt_in_rax (obs_run kret ineq_cpuhalt_in_rax v (rax_entry condition_val) [m0, a, b, c, d, m, e])
    \<longleftrightarrow> sint (ucast (kret 256) :: u32) < sint m"
  using assms by (simp add: in_rax_eval not_le)

section \<open>Properties\<close>

text \<open>
  C23: a loop that waits for equality ends only when some instruction of it has
  read the awaited value, and it ends within seven instructions once the word keeps that value,
  whatever was seen before.  (\<open>spin_on_condition_cpuhalt\<close> compiled with its operand outside of \<open>rax\<close>;
  \<open>cpuhalt_operand_lost\<close> says what it does otherwise.)
\<close>

theorem equality_loops:
  assumes "prog \<in> {spin_on_condition, spin_on_condition_cpuhalt, kmon_spin_on_condition,
    SPIN_ON_CONDITION, SPIN_ON_CONDITION_HLT, SPIN_ON_CONDITION_HLTCNT}"
  shows "(finished prog (obs_run kret prog v core_entry ms) \<longrightarrow> v \<in> set ms)
    \<and> finished prog (obs_run kret prog v core_entry (ms @ replicate 7 v))"
proof -
  obtain body where p: "prog = spin_loop CE body CNE" and b: "list_all straight body"
      "length body + 3 \<le> 7"
    using assms unfolding loop_shapes
    by (elim insertE emptyE) (auto intro: that)
  have "v \<in> set ms" if f: "finished prog (obs_run kret prog v core_entry ms)"
  proof (cases ms)
    case Nil
    then show ?thesis
      using f loop_finished [of core_entry body CE CNE] b by (simp add: p core_entry_def)
  next
    case (Cons m0 rest)
    then show ?thesis
      using loop_stays [OF b(1), of CE m0 v rest CNE kret] f p by auto
  qed
  moreover have "finished prog (obs_run kret prog v core_entry (ms @ replicate 7 v))"
    unfolding p by (rule loop_leaves_eventually [OF b(1) _ _ b(2)]) simp_all
  ultimately show ?thesis by blast
qed

theorem equality_loops_witness:
  "finished spin_on_condition
     (obs_run (\<lambda>_. 0) spin_on_condition (1::u32) core_entry ([0, 5, 0] @ replicate 7 1))
   \<and> \<not> finished spin_on_condition (obs_run (\<lambda>_. 0) spin_on_condition (1::u32) core_entry [0, 5, 0])"
  using equality_loops [of spin_on_condition "\<lambda>_. 0" "1::u32" "[0, 5, 0]"] by auto

definition ineq_programs :: "instr list set" where
  "ineq_programs = {spin_on_condition_ineq, spin_on_condition_ineq_cpuhalt, SPIN_ON_CONDITION_INEQ,
      SPIN_ON_CONDITION_INEQ_CNT, SPIN_ON_CONDITION_INEQ_CPUHALT,
      SPIN_ON_CONDITION_INEQ_CPUHALT_CNT, SPIN_ON_CONDITION_INEQ_HLT,
      SPIN_ON_CONDITION_INEQ_HLT_CNT}"

text \<open>
  The inequality loops are documented to end as soon as the word
  is at least the condition value.  A loop whose first reading is below that value never ends
  while the word stays at or below it, in particular when the word becomes equal to it and
  stays so: the test inside the loop jumps back on less or equal.
\<close>

lemma ineq_loops_miss_equality:
  assumes "prog \<in> ineq_programs"
    and "sint m0 < sint v" and "\<forall>m\<in>set ms. sint m \<le> sint v"
  shows "\<not> finished prog (obs_run kret prog v core_entry (m0 # ms))"
proof -
  obtain body where p: "prog = spin_loop CGE body CLE" and b: "list_all straight body"
    using assms(1) unfolding ineq_programs_def loop_shapes
    by (elim insertE emptyE) (auto intro: that)
  show ?thesis unfolding p by (rule loop_stays [OF b]) (use assms(2,3) in auto)
qed

text \<open>
  An inequality loop ends at once when its first reading is at least the
  condition value, and within seven instructions once the word stays strictly above it.
\<close>

lemma ineq_loops_leave:
  assumes "prog \<in> ineq_programs"
  shows "(sint v \<le> sint m \<longrightarrow> finished prog (obs_run kret prog v core_entry [m, m']))
    \<and> (sint v < sint m \<longrightarrow> finished prog (obs_run kret prog v core_entry (ms @ replicate 7 m)))"
proof -
  obtain body where p: "prog = spin_loop CGE body CLE" and b: "list_all straight body"
      "length body + 3 \<le> 7"
    using assms unfolding ineq_programs_def loop_shapes
    by (elim insertE emptyE) (auto intro: that)
  have "finished prog (obs_run kret prog v core_entry [m, m'])" if "sint v \<le> sint m"
  proof -
    let ?c = "loop_exec kret CGE body CLE v core_entry m"
    have "pc (loop_exec kret CGE body CLE v ?c m') = length body + 4"
      using loop_step(1) [OF b(1), of core_entry kret CGE CLE v m]
        loop_step(2) [OF b(1), of ?c kret CGE CLE v m'] that by (simp add: core_entry_def)
    then show ?thesis
      unfolding p by (simp add: loop_finished b(1))
  qed
  moreover have "finished prog (obs_run kret prog v core_entry (ms @ replicate 7 m))"
    if "sint v < sint m"
    unfolding p by (rule loop_leaves_eventually [OF b(1) _ _ b(2)]) (use that in simp_all)
  ultimately show ?thesis by blast
qed

text \<open>
  C24: the inequality loops are documented to end as soon as the word is at least the condition
  value.  In fact such a loop ends at once when its first reading is at least that value; when it is below, the loop never
  ends while the word stays at or below the value, in particular when the word becomes equal to it and stays so; and it
  ends within seven instructions once the word stays strictly above.  (\<open>spin_on_condition_ineq_cpuhalt\<close> compiled with its
  operand outside of \<open>rax\<close>; \<open>ineq_cpuhalt_operand_lost\<close> says what it does otherwise.)
\<close>

theorem ineq_loops:
  assumes "prog \<in> ineq_programs"
  shows "(sint v \<le> sint m \<longrightarrow> finished prog (obs_run kret prog v core_entry [m, m']))
    \<and> (sint m < sint v \<and> (\<forall>x\<in>set ms. sint x \<le> sint v) \<longrightarrow> \<not> finished prog (obs_run kret prog v core_entry (m # ms)))
    \<and> (sint v < sint m \<longrightarrow> finished prog (obs_run kret prog v core_entry (ms @ replicate 7 m)))"
  using ineq_loops_leave [OF assms] ineq_loops_miss_equality [OF assms] by blast

theorem ineq_loops_witness:
  "\<not> finished spin_on_condition_ineq
     (obs_run (\<lambda>_. 0) spin_on_condition_ineq (3::u32) core_entry (2 # replicate 1000 3))
   \<and> finished spin_on_condition_ineq
     (obs_run (\<lambda>_. 0) spin_on_condition_ineq (3::u32) core_entry ([1, 2] @ replicate 7 4))"
proof -
  have p: "spin_on_condition_ineq \<in> ineq_programs" by (simp add: ineq_programs_def)
  show ?thesis
    using ineq_loops [OF p, of "3::u32" 2 "\<lambda>_. 0" 0 "replicate 1000 3"]
      ineq_loops [OF p, of "3::u32" 4 "\<lambda>_. 0" 0 "[1, 2]"] by simp
qed

text \<open>
  A halting loop asks the kernel for exactly one kind of service: number
  256 in the \<open>cpuhalt\<close> loops, 16 (\<open>ioctl\<close>) in the \<open>HLT\<close> loops; the counter of the counting
  variants is, between rounds, the number of calls made, modulo 2 to the 64.
\<close>

theorem halting_loops_calls:
  fixes v :: "'w::len word"
  shows "set (syscalls (obs_run kret spin_on_condition_cpuhalt v core_entry ms)) \<subseteq> {256}
    \<and> set (syscalls (obs_run kret spin_on_condition_ineq_cpuhalt v core_entry ms)) \<subseteq> {256}
    \<and> set (syscalls (obs_run kret SPIN_ON_CONDITION_HLT v core_entry ms)) \<subseteq> {16}
    \<and> (let c = obs_run kret SPIN_ON_CONDITION_HLTCNT v core_entry ms
       in set (syscalls c) \<subseteq> {16}
        \<and> word_of_nat (length (syscalls c)) = cnt c + (if pc c = 5 then 1 else 0))"
  using halt_log_run [of _ CE False 256 CNE core_entry kret v ms]
    halt_log_run [of _ CGE False 256 CLE core_entry kret v ms]
    halt_log_run [of _ CE False 16 CNE core_entry kret v ms]
    halt_log_run [of _ CE True 16 CNE core_entry kret v ms]
  by (simp add: loop_shapes Let_def halt_log_entry) (simp add: halt_log_def)

end
