(* ===== verification/Barrier_Spec.thy ===== *)
theory Barrier_Spec
  imports Ht_Prelude
begin

text \<open>
  What a barrier promises to the threads that use it round after round.  The models of the
  barriers count, for every thread, the calls it has begun and the calls that have returned.
  The contract is that a call returns only after every thread has begun its call of the same
  round; the lemmas of the locale are what a client may conclude.  \<open>supported n\<close> says for which
  numbers of threads the barrier makes the promise.
\<close>

locale round_barrier =
  fixes step :: "nat \<Rightarrow> 's \<Rightarrow> 'l \<Rightarrow> 's option"
    and start :: "nat \<Rightarrow> 's"
    and supported :: "nat \<Rightarrow> bool"
    and begun :: "'s \<Rightarrow> tid \<Rightarrow> nat"
    and ended :: "'s \<Rightarrow> tid \<Rightarrow> nat"
  assumes all_or_none: "supported n \<Longrightarrow> reachable (step n) (start n) s \<Longrightarrow> i < n \<Longrightarrow> j < n \<Longrightarrow>
      ended s i \<le> begun s j"
    and one_call: "supported n \<Longrightarrow> reachable (step n) (start n) s \<Longrightarrow> i < n \<Longrightarrow>
      begun s i \<le> Suc (ended s i)"
begin

text \<open>Two threads are never more than one round apart.\<close>

lemma drift:
  assumes "supported n" and "reachable (step n) (start n) s" and "i < n" and "j < n"
  shows "begun s i \<le> Suc (begun s j)"
  using one_call [OF assms(1-3)] all_or_none [OF assms] by simp

text \<open>
  Work between two calls is separated: while thread \<open>i\<close> works between its calls \<open>k\<close> and
  \<open>k + 1\<close>, every other thread is inside call \<open>k\<close>, between the same calls, or inside call \<open>k + 1\<close>.
\<close>

lemma separated:
  assumes "supported n" and "reachable (step n) (start n) s" and "i < n" and "j < n"
    and "begun s i = k" "ended s i = k"
  shows "begun s j = k \<and> k \<le> Suc (ended s j) \<and> ended s j \<le> k \<or> begun s j = Suc k \<and> ended s j = k"
  using all_or_none [OF assms(1-4)] all_or_none [OF assms(1,2,4,3)] one_call [OF assms(1,2,4)]
    assms(5,6) by linarith

end

section \<open>Progress by rounds\<close>

text \<open>
  When in every state of round \<open>R\<close> some step either completes the round or brings its end nearer,
  any number of further rounds can be completed.
\<close>

lemma rounds_complete:
  fixes Inv :: "nat \<Rightarrow> 's \<Rightarrow> bool" and rank :: "nat \<Rightarrow> 's \<Rightarrow> nat"
  assumes adv: "\<And>R s. Inv R s \<Longrightarrow> \<exists>l t. step s l = Some t \<and> (Inv (Suc R) t \<or> Inv R t \<and> rank R t < rank R s)"
    and "Inv R s"
  shows "\<exists>u. reachable step s u \<and> Inv (R + k) u"
proof -
  have one: "\<exists>u. reachable step s u \<and> Inv (Suc R) u" if "Inv R s" for R s
    using that
  proof (induction "rank R s" arbitrary: s rule: less_induct)
    case less
    obtain l t where t: "step s l = Some t" "Inv (Suc R) t \<or> Inv R t \<and> rank R t < rank R s"
      using adv [OF less.prems] by blast
    have r: "reachable step s t" using t(1) by (rule reach_next [OF reach_start])
    show ?case
      using t(2)
    proof
      assume "Inv R t \<and> rank R t < rank R s"
      then obtain u where "reachable step t u" "Inv (Suc R) u" using less.hyps by blast
      then show ?thesis using reachable_trans [OF r] by blast
    qed (use r in blast)
  qed
  show ?thesis
  proof (induction k)
    case 0
    have "reachable step s s" by (rule reach_start)
    then show ?case using assms(2) by auto
  next
    case (Suc k)
    then obtain u where u: "reachable step s u" "Inv (R + k) u" by blast
    obtain u' where "reachable step u u'" "Inv (Suc (R + k)) u'" using one [OF u(2)] by blast
    then show ?case using reachable_trans [OF u(1)] by auto
  qed
qed

end
