(* ===== verification/Barrier_Lsense.thy ===== *)
theory Barrier_Lsense
  imports Barrier_Spec Atomics
begin

text \<open>
  The barriers with a per-thread sense of \<open>mwait_barrier/synch.h\<close>: \<open>spin_barrier_lsense\<close>, which
  waits with \<open>pause\<close>, \<open>spin_barrier_lsense_cpuhalt\<close>, which halts the waiting processor until the
  next interrupt, and \<open>spin_barrier_lsense_cpuhalt_sendIPI\<close>, whose last thread also interrupts
  the others.  They differ in nothing else, so one step function serves the three.  A step is
  one access to the shared barrier.  The processor driver behind \<open>ioctl\<close> is not part of the
  repository; it is taken to end the halt of every other processor, which is all it is asked
  for, and interrupts may end a halt at any time.

  The two halting barriers wait in a block that destroys \<open>rax\<close> without declaring it, so it matters where the compiler keeps
  the awaited sense.  \<open>lsense_step\<close> is the code compiled with the sense in a place the block leaves alone,
  \<open>lsense_rax_step\<close> the code with the sense in \<open>eax\<close>.
\<close>

section \<open>The barrier and its threads\<close>

record spin_barrier =
  b_lock :: u32
  release_flag :: u32
  current_count :: u32
  nthreads :: u32

definition spin_barrier_init :: "spin_barrier \<Rightarrow> u32 \<Rightarrow> spin_barrier" where
  "spin_barrier_init sb n =
     sb\<lparr>b_lock := spin_lock_init (b_lock sb), release_flag := 1, current_count := 0, nthreads := n\<rparr>"

definition spin_barrier_init_lsense :: "u32 \<Rightarrow> u32" where
  "spin_barrier_init_lsense lsense = 1"

datatype variant = Pausing | Halting | Halting_IPI

datatype bpc =
    Idle      \<comment> \<open>outside a call\<close>
  | Incl      \<comment> \<open>before \<open>lock; incl current_count\<close>\<close>
  | Test      \<comment> \<open>before \<open>current_count == nthreads\<close>\<close>
  | ResetC    \<comment> \<open>before \<open>current_count = 0\<close>\<close>
  | SetF      \<comment> \<open>before \<open>release_flag = *lsense\<close>\<close>
  | Ioctl     \<comment> \<open>before the \<open>ioctl\<close> that wakes the others\<close>
  | Wait      \<comment> \<open>before a test of \<open>release_flag\<close> in the waiting loop\<close>
  | Halted    \<comment> \<open>in \<open>hlt\<close>\<close>

text \<open>\<open>calls\<close> and \<open>returns\<close> are history: calls begun and calls completed.\<close>

record bthread =
  bpc :: bpc
  lsense :: u32
  calls :: nat
  returns :: nat

record lsys =
  sb :: spin_barrier
  bthr :: "tid \<Rightarrow> bthread"

datatype blabel = Th tid | Irq tid

text \<open>C's \<open>!\<close> on an unsigned int.\<close>

definition c_not :: "u32 \<Rightarrow> u32" where
  "c_not x = (if x = 0 then 1 else 0)"

definition return_call :: "bthread \<Rightarrow> bthread" where
  "return_call t = t\<lparr>bpc := Idle, returns := Suc (returns t)\<rparr>"

definition wake_others :: "tid \<Rightarrow> (tid \<Rightarrow> bthread) \<Rightarrow> tid \<Rightarrow> bthread" where
  "wake_others i th = (\<lambda>j. if j \<noteq> i \<and> bpc (th j) = Halted then (th j)\<lparr>bpc := Wait\<rparr> else th j)"

definition lsense_thread :: "variant \<Rightarrow> lsys \<Rightarrow> tid \<Rightarrow> lsys option" where
  "lsense_thread v s i =
     (let t = bthr s i; b = sb s in
      case bpc t of
        Idle \<Rightarrow> Some (s\<lparr>bthr := (bthr s)(i := t\<lparr>lsense := c_not (lsense t), calls := Suc (calls t),
                  bpc := Incl\<rparr>)\<rparr>)
      | Incl \<Rightarrow> Some (s\<lparr>sb := b\<lparr>current_count := atomic_inc (current_count b)\<rparr>,
                  bthr := (bthr s)(i := t\<lparr>bpc := Test\<rparr>)\<rparr>)
      | Test \<Rightarrow> Some (s\<lparr>bthr := (bthr s)(i :=
                  t\<lparr>bpc := if current_count b = nthreads b then ResetC else Wait\<rparr>)\<rparr>)
      | ResetC \<Rightarrow> Some (s\<lparr>sb := b\<lparr>current_count := 0\<rparr>,
                  bthr := (bthr s)(i := t\<lparr>bpc := SetF\<rparr>)\<rparr>)
      | SetF \<Rightarrow> Some (s\<lparr>sb := b\<lparr>release_flag := lsense t\<rparr>,
                  bthr := (bthr s)(i := if v = Halting_IPI then t\<lparr>bpc := Ioctl\<rparr> else return_call t)\<rparr>)
      | Ioctl \<Rightarrow> Some (s\<lparr>bthr := (wake_others i (bthr s))(i := return_call t)\<rparr>)
      | Wait \<Rightarrow> Some (s\<lparr>bthr := (bthr s)(i :=
                  if release_flag b = lsense t then return_call t
                  else if v = Pausing then t else t\<lparr>bpc := Halted\<rparr>)\<rparr>)
      | Halted \<Rightarrow> None)"

definition lsense_step :: "variant \<Rightarrow> nat \<Rightarrow> lsys \<Rightarrow> blabel \<Rightarrow> lsys option" where
  "lsense_step v n s l =
     (case l of
        Th i \<Rightarrow> (if i < n then lsense_thread v s i else None)
      | Irq i \<Rightarrow> (if i < n \<and> bpc (bthr s i) = Halted
                  then Some (s\<lparr>bthr := (bthr s)(i := (bthr s i)\<lparr>bpc := Wait\<rparr>)\<rparr>) else None))"

definition spin_barrier_lsense :: "nat \<Rightarrow> lsys \<Rightarrow> blabel \<Rightarrow> lsys option" where
  "spin_barrier_lsense = lsense_step Pausing"

definition spin_barrier_lsense_cpuhalt :: "nat \<Rightarrow> lsys \<Rightarrow> blabel \<Rightarrow> lsys option" where
  "spin_barrier_lsense_cpuhalt = lsense_step Halting"

definition spin_barrier_lsense_cpuhalt_sendIPI :: "nat \<Rightarrow> lsys \<Rightarrow> blabel \<Rightarrow> lsys option" where
  "spin_barrier_lsense_cpuhalt_sendIPI = lsense_step Halting_IPI"

text \<open>
  With the sense in \<open>eax\<close>: a thread that has been halted (one of \<open>C\<close>) compares \<open>release_flag\<close> with \<open>r\<close>, what the
  system call has left there, whatever its sense is (\<open>cpuhalt_operand_lost\<close> of \<open>Spin_Loops\<close>).
\<close>

definition lsense_rax_step :: "u32 \<Rightarrow> variant \<Rightarrow> nat \<Rightarrow> lsys \<times> tid set \<Rightarrow> blabel \<Rightarrow> (lsys \<times> tid set) option" where
  "lsense_rax_step r v n = (\<lambda>(s, C) l. case l of
     Th i \<Rightarrow>
       (if i < n \<and> i \<in> C \<and> bpc (bthr s i) = Wait
        then if release_flag (sb s) = r
             then Some (s\<lparr>bthr := (bthr s)(i := return_call (bthr s i))\<rparr>, C - {i})
             else Some (s\<lparr>bthr := (bthr s)(i := (bthr s i)\<lparr>bpc := Halted\<rparr>)\<rparr>, C)
        else map_option (\<lambda>s'. (s', if bpc (bthr s' i) = Halted then insert i C else C)) (lsense_step v n s l))
   | Irq i \<Rightarrow> map_option (\<lambda>s'. (s', C)) (lsense_step v n s l))"

text \<open>The start: \<open>spin_barrier_init\<close> and \<open>spin_barrier_init_lsense\<close> have run, nobody has called.\<close>

definition lsense_start :: "spin_barrier \<Rightarrow> u32 \<Rightarrow> nat \<Rightarrow> lsys" where
  "lsense_start b x n = \<lparr>sb = spin_barrier_init b (word_of_nat n),
     bthr = (\<lambda>_. \<lparr>bpc = Idle, lsense = spin_barrier_init_lsense x, calls = 0, returns = 0\<rparr>)\<rparr>"

section \<open>The invariant\<close>

text \<open>The sense after \<open>k\<close> flips.\<close>

definition sense :: "nat \<Rightarrow> u32" where
  "sense k = (if even k then 1 else 0)"

lemma c_not_sense [simp]: "c_not (sense k) = sense (Suc k)"
  by (simp add: c_not_def sense_def)

lemma sense_Suc [simp]: "sense (Suc k) \<noteq> sense k" "sense k \<noteq> sense (Suc k)"
  by (simp_all add: sense_def)

text \<open>
  \<open>R\<close> rounds have been completed.  A thread is in round \<open>R + 1\<close>, or still on its way out of
  round \<open>R\<close>; it has arrived when it is past its increment in the current round.
\<close>

definition thread_ok :: "nat \<Rightarrow> bthread \<Rightarrow> bool" where
  "thread_ok R t \<longleftrightarrow> lsense t = sense (calls t) \<and>
     (case bpc t of
        Idle \<Rightarrow> calls t = R \<and> returns t = R
      | Incl \<Rightarrow> calls t = Suc R \<and> returns t = R
      | Ioctl \<Rightarrow> calls t = R \<and> Suc (returns t) = R
      | _ \<Rightarrow> (calls t = R \<or> calls t = Suc R) \<and> Suc (returns t) = calls t)"

definition arrived :: "nat \<Rightarrow> bthread \<Rightarrow> bool" where
  "arrived R t \<longleftrightarrow> calls t = Suc R \<and> bpc t \<noteq> Incl"

definition lsense_inv :: "nat \<Rightarrow> nat \<Rightarrow> lsys \<Rightarrow> bool" where
  "lsense_inv n R s \<longleftrightarrow>
     nthreads (sb s) = word_of_nat n \<and> release_flag (sb s) = sense R
     \<and> (\<forall>i<n. thread_ok R (bthr s i))
     \<and> unat (current_count (sb s)) \<le> count_threads n (\<lambda>i. arrived R (bthr s i))
     \<and> (\<forall>i<n. bpc (bthr s i) \<in> {ResetC, SetF} \<and> calls (bthr s i) = Suc R \<longrightarrow>
          (\<forall>j<n. arrived R (bthr s j)))
     \<and> (\<forall>i<n. bpc (bthr s i) = SetF \<and> calls (bthr s i) = Suc R \<longrightarrow> current_count (sb s) = 0)"

lemma lsense_inv_start: "lsense_inv n 0 (lsense_start b x n)"
  by (simp add: lsense_inv_def lsense_start_def spin_barrier_init_def spin_barrier_init_lsense_def
      thread_ok_def sense_def)

text \<open>A move of thread \<open>i\<close> that stays in the round.\<close>

lemma lsense_inv_update:
  assumes "lsense_inv n R s" and i: "i < n"
    and "nthreads b = nthreads (sb s)" and "release_flag b = release_flag (sb s)"
    and ok: "thread_ok R t" and keep: "arrived R (bthr s i) \<Longrightarrow> arrived R t"
    and cnt: "unat (current_count b) \<le> unat (current_count (sb s)) + of_bool (arrived R t \<and> \<not> arrived R (bthr s i))"
    and last: "bpc t \<in> {ResetC, SetF} \<Longrightarrow> calls t = Suc R \<Longrightarrow> \<forall>j<n. arrived R (bthr s j)"
    and zero: "current_count b \<noteq> 0 \<Longrightarrow> \<not> (bpc t = SetF \<and> calls t = Suc R)"
    and zeros: "current_count b = 0 \<or> current_count b = current_count (sb s) \<or> \<not> arrived R (bthr s i)"
  shows "lsense_inv n R (s\<lparr>sb := b, bthr := (bthr s)(i := t)\<rparr>)" (is "lsense_inv n R ?s'")
proof -
  let ?arr = "\<lambda>s i. arrived R (bthr s i)"
  have "count_threads n (?arr ?s') + of_bool (?arr s i) = count_threads n (?arr s) + of_bool (?arr ?s' i)"
    by (rule count_threads_update [OF i]) simp
  then have "count_threads n (?arr s) + of_bool (arrived R t \<and> \<not> arrived R (bthr s i)) \<le> count_threads n (?arr ?s')"
    using keep by (cases "?arr s i"; cases "arrived R t") simp_all
  moreover have "unat (current_count (sb s)) \<le> count_threads n (?arr s)"
    using assms(1) by (simp add: lsense_inv_def)
  ultimately have c: "unat (current_count b) \<le> count_threads n (?arr ?s')" using cnt by linarith
  have all: "\<forall>j<n. arrived R (bthr ?s' j)" if "\<forall>j<n. arrived R (bthr s j)"
    using that keep i by auto
  have l: "\<forall>k<n. bpc (bthr ?s' k) \<in> {ResetC, SetF} \<and> calls (bthr ?s' k) = Suc R \<longrightarrow>
      (\<forall>j<n. arrived R (bthr s j))"
    using assms(1) last unfolding lsense_inv_def by (auto split: if_splits)
  have z: "\<forall>k<n. bpc (bthr ?s' k) = SetF \<and> calls (bthr ?s' k) = Suc R \<longrightarrow> current_count b = 0"
  proof (intro allI impI)
    fix k assume k: "k < n" and w: "bpc (bthr ?s' k) = SetF \<and> calls (bthr ?s' k) = Suc R"
    show "current_count b = 0"
    proof (cases "k = i")
      case True
      then show ?thesis using w zero by auto
    next
      case False
      then have "current_count (sb s) = 0" and "\<forall>j<n. arrived R (bthr s j)"
        using assms(1) k w by (auto simp: lsense_inv_def)
      then show ?thesis using zeros i by auto
    qed
  qed
  show ?thesis
    using assms(1-4) ok c all l z unfolding lsense_inv_def by auto
qed

lemma thread_ok_other_pc:
  "thread_ok R t \<Longrightarrow> bpc t \<in> {Test, ResetC, SetF, Wait, Halted} \<Longrightarrow>
   x \<in> {Test, ResetC, SetF, Wait, Halted} \<Longrightarrow> thread_ok R (t\<lparr>bpc := x\<rparr>)"
  by (auto simp: thread_ok_def split: bpc.splits)

lemma arrived_other_pc: "x \<noteq> Incl \<Longrightarrow> bpc t \<noteq> Incl \<Longrightarrow> arrived R (t\<lparr>bpc := x\<rparr>) = arrived R t"
  by (simp add: arrived_def)

text \<open>Only when everybody has arrived does a thread see the full count.\<close>

lemma full_count:
  assumes "lsense_inv n R s" and "n < 2 ^ 32" and "current_count (sb s) = nthreads (sb s)"
  shows "\<forall>j<n. arrived R (bthr s j)"
proof -
  have "unat (current_count (sb s)) = n"
    using assms by (simp add: lsense_inv_def unat_of_nat_u32)
  then have "count_threads n (\<lambda>i. arrived R (bthr s i)) = n"
    using assms(1) count_threads_le [of n "\<lambda>i. arrived R (bthr s i)"] by (simp add: lsense_inv_def)
  then show ?thesis by (simp add: count_threads_full)
qed

text \<open>A change of program counter inside a call, with the barrier untouched.\<close>

lemma lsense_inv_pc:
  assumes "lsense_inv n R s" and "i < n"
    and "bpc (bthr s i) \<in> {Test, Wait, Halted}" and "x \<in> {Wait, Halted} \<or> x = ResetC \<and> (\<forall>j<n. arrived R (bthr s j))"
  shows "lsense_inv n R (s\<lparr>bthr := (bthr s)(i := (bthr s i)\<lparr>bpc := x\<rparr>)\<rparr>)"
proof -
  have ok: "thread_ok R (bthr s i)" using assms(1,2) by (simp add: lsense_inv_def)
  have x: "x \<in> {Test, ResetC, SetF, Wait, Halted}" "x \<noteq> Incl" "x \<noteq> SetF" "bpc (bthr s i) \<noteq> Incl"
    and last: "x = ResetC \<Longrightarrow> \<forall>j<n. arrived R (bthr s j)"
    using assms(3,4) by auto
  have t: "thread_ok R ((bthr s i)\<lparr>bpc := x\<rparr>)"
    by (rule thread_ok_other_pc [OF ok]) (use assms(3) x in auto)
  have a: "arrived R ((bthr s i)\<lparr>bpc := x\<rparr>) = arrived R (bthr s i)"
    by (rule arrived_other_pc) (use x in auto)
  have "lsense_inv n R (s\<lparr>sb := sb s, bthr := (bthr s)(i := (bthr s i)\<lparr>bpc := x\<rparr>)\<rparr>)"
    by (rule lsense_inv_update [OF assms(1,2)]) (simp_all add: t a last x)
  then show ?thesis by simp
qed

lemma lsense_inv_wake:
  assumes "lsense_inv n R s"
  shows "lsense_inv n R (s\<lparr>bthr := wake_others i (bthr s)\<rparr>)"
proof -
  have a: "arrived R (wake_others i (bthr s) j) = arrived R (bthr s j)"
    and o: "thread_ok R (bthr s j) \<Longrightarrow> thread_ok R (wake_others i (bthr s) j)"
    and c: "calls (wake_others i (bthr s) j) = calls (bthr s j)"
    and q: "bpc (wake_others i (bthr s) j) = ResetC \<longleftrightarrow> bpc (bthr s j) = ResetC"
      "bpc (wake_others i (bthr s) j) = SetF \<longleftrightarrow> bpc (bthr s j) = SetF" for j
    by (auto simp: wake_others_def arrived_def thread_ok_def)
  show ?thesis
    using assms o unfolding lsense_inv_def by (simp add: a c q)
qed

text \<open>The last thread stores the new sense: the round is complete.\<close>

lemma lsense_inv_complete:
  assumes inv: "lsense_inv n R s" and i: "i < n"
    and p: "bpc (bthr s i) = SetF" "calls (bthr s i) = Suc R"
    and t: "t = (bthr s i)\<lparr>bpc := Ioctl\<rparr> \<or> t = return_call (bthr s i)"
  shows "lsense_inv n (Suc R)
    (s\<lparr>sb := (sb s)\<lparr>release_flag := lsense (bthr s i)\<rparr>, bthr := (bthr s)(i := t)\<rparr>)"
proof -
  have all: "\<forall>j<n. arrived R (bthr s j)" and z: "current_count (sb s) = 0"
    and ok: "\<forall>j<n. thread_ok R (bthr s j)"
    using inv i p by (auto simp: lsense_inv_def)
  have "thread_ok (Suc R) (bthr s j)" if "j < n" for j
    using all ok that by (auto simp: thread_ok_def arrived_def split: bpc.splits)
  moreover have "thread_ok (Suc R) t" and "calls t = Suc R"
    using ok i p t by (auto simp: thread_ok_def return_call_def)
  moreover have "lsense (bthr s i) = sense (Suc R)"
    using ok i p by (auto simp: thread_ok_def)
  ultimately show ?thesis
    using inv all z unfolding lsense_inv_def by (auto simp: arrived_def)
qed

lemma lsense_thread_inv:
  assumes inv: "lsense_inv n R s" and n: "n < 2 ^ 32" and i: "i < n"
    and st: "lsense_thread v s i = Some s'"
  shows "lsense_inv n R s' \<or> lsense_inv n (Suc R) s'"
proof -
  let ?t = "bthr s i" and ?b = "sb s"
  have ok: "thread_ok R ?t" and f: "release_flag ?b = sense R" using inv i by (auto simp: lsense_inv_def)
  note stay = lsense_inv_update [OF inv i]
  show ?thesis
  proof (cases "bpc ?t")
    case Idle
    then have "lsense_inv n R (s\<lparr>sb := ?b, bthr := (bthr s)(i := ?t\<lparr>lsense := c_not (lsense ?t),
        calls := Suc (calls ?t), bpc := Incl\<rparr>)\<rparr>)"
      by (intro stay) (use ok in \<open>auto simp: thread_ok_def arrived_def\<close>)
    then show ?thesis using st Idle by (auto simp: lsense_thread_def Let_def)
  next
    case Incl
    have "unat (current_count ?b + 1) \<le> unat (current_count ?b) + 1"
      by (simp add: unat_word_ariths le_trans [OF mod_less_eq_dividend])
    then have "lsense_inv n R (s\<lparr>sb := ?b\<lparr>current_count := current_count ?b + 1\<rparr>,
        bthr := (bthr s)(i := ?t\<lparr>bpc := Test\<rparr>)\<rparr>)"
      using Incl by (intro stay) (use ok in \<open>auto simp: thread_ok_def arrived_def\<close>)
    then show ?thesis using st Incl by (auto simp: lsense_thread_def Let_def)
  next
    case Test
    then show ?thesis
      using st lsense_inv_pc [OF inv i] full_count [OF inv n]
      by (auto simp: lsense_thread_def Let_def)
  next
    case ResetC
    then have "lsense_inv n R (s\<lparr>sb := ?b\<lparr>current_count := 0\<rparr>, bthr := (bthr s)(i := ?t\<lparr>bpc := SetF\<rparr>)\<rparr>)"
      by (intro stay) (use ok inv i in \<open>auto simp: thread_ok_def arrived_def lsense_inv_def\<close>)
    then show ?thesis using st ResetC by (auto simp: lsense_thread_def Let_def)
  next
    case SetF
    let ?x = "if v = Halting_IPI then ?t\<lparr>bpc := Ioctl\<rparr> else return_call ?t"
    have s': "s' = s\<lparr>sb := ?b\<lparr>release_flag := lsense ?t\<rparr>, bthr := (bthr s)(i := ?x)\<rparr>"
      using st SetF by (auto simp: lsense_thread_def Let_def)
    show ?thesis
    proof (cases "calls ?t = Suc R")
      case True
      then show ?thesis unfolding s' using lsense_inv_complete [OF inv i SetF] by simp
    next
      case False
      then have "calls ?t = R" using ok SetF by (auto simp: thread_ok_def)
      then have "lsense_inv n R s'"
        unfolding s' using SetF
        by (intro stay) (use ok f in \<open>auto simp: thread_ok_def arrived_def return_call_def split: if_splits\<close>)
      then show ?thesis ..
    qed
  next
    case Ioctl
    let ?s = "s\<lparr>bthr := wake_others i (bthr s)\<rparr>"
    have "lsense_inv n R (?s\<lparr>sb := sb ?s, bthr := (bthr ?s)(i := return_call ?t)\<rparr>)"
      using Ioctl
      by (intro lsense_inv_update [OF lsense_inv_wake [OF inv] i])
        (use ok in \<open>auto simp: thread_ok_def arrived_def return_call_def wake_others_def\<close>)
    then show ?thesis using st Ioctl by (auto simp: lsense_thread_def Let_def)
  next
    case Wait
    show ?thesis
    proof (cases "release_flag ?b = lsense ?t")
      case True
      then have "calls ?t = R" using ok f Wait by (auto simp: thread_ok_def)
      then have "lsense_inv n R (s\<lparr>sb := ?b, bthr := (bthr s)(i := return_call ?t)\<rparr>)"
        using Wait
        by (intro stay) (use ok in \<open>auto simp: thread_ok_def arrived_def return_call_def\<close>)
      then show ?thesis using st Wait True by (auto simp: lsense_thread_def Let_def)
    next
      case False
      then show ?thesis
        using st Wait inv lsense_inv_pc [OF inv i, of Halted]
        by (auto simp: lsense_thread_def Let_def split: if_splits)
    qed
  next
    case Halted
    then show ?thesis using st by (simp add: lsense_thread_def Let_def)
  qed
qed

lemma lsense_step_inv:
  assumes "lsense_inv n R s" and "n < 2 ^ 32" and "lsense_step v n s l = Some s'"
  shows "\<exists>R'. lsense_inv n R' s'"
proof (cases l)
  case (Th i)
  then show ?thesis
    using assms(3) lsense_thread_inv [OF assms(1,2), of i v s']
    by (auto simp: lsense_step_def split: if_splits)
next
  case (Irq i)
  then show ?thesis
    using assms lsense_inv_pc [OF assms(1), of i Wait]
    by (auto simp: lsense_step_def split: if_splits)
qed

lemma lsense_reachable_inv:
  assumes "reachable (lsense_step v n) (lsense_start b x n) s" and "n < 2 ^ 32"
  shows "\<exists>R. lsense_inv n R s"
  using assms(1)
  by (rule reachable_invariant)
    (use lsense_inv_start lsense_step_inv [OF _ assms(2)] in blast)+

lemma lsense_inv_calls:
  assumes "lsense_inv n R s" and "i < n"
  shows "returns (bthr s i) \<le> R" and "R \<le> calls (bthr s i)"
    and "calls (bthr s i) \<le> Suc (returns (bthr s i))"
proof -
  have "thread_ok R (bthr s i)" using assms by (simp add: lsense_inv_def)
  then show "returns (bthr s i) \<le> R" and "R \<le> calls (bthr s i)"
    and "calls (bthr s i) \<le> Suc (returns (bthr s i))"
    by (auto simp: thread_ok_def split: bpc.splits)
qed

section \<open>The barriers keep the contract\<close>

interpretation lb: round_barrier spin_barrier_lsense "lsense_start b x" "\<lambda>n. n < 2 ^ 32"
    "\<lambda>s i. calls (bthr s i)" "\<lambda>s i. returns (bthr s i)" for b x
  unfolding spin_barrier_lsense_def
  by unfold_locales (meson lsense_reachable_inv lsense_inv_calls order_trans)+

interpretation lbh: round_barrier spin_barrier_lsense_cpuhalt "lsense_start b x" "\<lambda>n. n < 2 ^ 32"
    "\<lambda>s i. calls (bthr s i)" "\<lambda>s i. returns (bthr s i)" for b x
  unfolding spin_barrier_lsense_cpuhalt_def
  by unfold_locales (meson lsense_reachable_inv lsense_inv_calls order_trans)+

interpretation lbi: round_barrier spin_barrier_lsense_cpuhalt_sendIPI "lsense_start b x" "\<lambda>n. n < 2 ^ 32"
    "\<lambda>s i. calls (bthr s i)" "\<lambda>s i. returns (bthr s i)" for b x
  unfolding spin_barrier_lsense_cpuhalt_sendIPI_def
  by unfold_locales (meson lsense_reachable_inv lsense_inv_calls order_trans)+

section \<open>Waiting for ever\<close>

text \<open>
  The test of \<open>current_count\<close> is a second access after the locked increment.  Two threads may
  both see the full count; the second then resets the count after the first has arrived in the
  next round, and that arrival is lost.
\<close>

definition stuck :: "lsys \<Rightarrow> bool" where
  "stuck s \<longleftrightarrow> (\<forall>i<2. bpc (bthr s i) \<in> {Wait, Halted} \<and> release_flag (sb s) \<noteq> lsense (bthr s i))"

lemma stuck_thread:
  assumes "stuck s" and "i < 2" and "lsense_thread v s i = Some t"
  shows "t = s \<or> t = s\<lparr>bthr := (bthr s)(i := (bthr s i)\<lparr>bpc := Halted\<rparr>)\<rparr>"
proof -
  have "bpc (bthr s i) = Wait \<or> bpc (bthr s i) = Halted" and f: "release_flag (sb s) \<noteq> lsense (bthr s i)"
    using assms(1,2) by (auto simp: stuck_def)
  then have w: "bpc (bthr s i) = Wait" using assms(3) by (auto simp: lsense_thread_def Let_def)
  then show ?thesis using assms(3) w f by (auto simp: lsense_thread_def Let_def)
qed

lemma stuck_step:
  assumes "stuck s" and "lsense_step v 2 s l = Some t"
  shows "stuck t \<and> (\<forall>i<2. returns (bthr t i) = returns (bthr s i))"
proof (cases l)
  case (Th i)
  then have "i < 2" "lsense_thread v s i = Some t"
    using assms(2) by (auto simp: lsense_step_def split: if_splits)
  from stuck_thread [OF assms(1) this] show ?thesis
    using assms(1) by (elim disjE) (simp_all add: stuck_def)
next
  case (Irq i)
  then show ?thesis using assms by (auto simp: stuck_def lsense_step_def split: if_splits)
qed

lemma stuck_forever:
  assumes "reachable (lsense_step v 2) s u" and "stuck s"
  shows "stuck u \<and> (\<forall>i<2. returns (bthr u i) = returns (bthr s i))"
  using assms(1)
  by (rule reachable_invariant [where I = "\<lambda>u. stuck u \<and> (\<forall>i<2. returns (bthr u i) = returns (bthr s i))"])
    (use assms(2) stuck_step in force)+

text \<open>Both threads arrive, both find the count full; thread 0 completes the round and arrives
  again before thread 1 resets the count.\<close>

definition lost_arrival :: "variant \<Rightarrow> blabel list" where
  "lost_arrival v =
     [Th 0, Th 0, Th 1, Th 1, Th 0, Th 1, Th 0, Th 0] @ (if v = Halting_IPI then [Th 0] else []) @
     [Th 0, Th 0, Th 0] @ [Th 1, Th 1] @ (if v = Halting_IPI then [Th 1] else []) @ [Th 1, Th 1, Th 1]"

lemma lost_arrival_stuck:
  "\<exists>s. run (lsense_step v 2) (lsense_start b x 2) (lost_arrival v) = Some s \<and> stuck s
     \<and> returns (bthr s 0) = 1 \<and> returns (bthr s 1) = 1"
  by (cases v)
    (simp_all add: lost_arrival_def lsense_start_def spin_barrier_init_def spin_barrier_init_lsense_def
      lsense_step_def lsense_thread_def Let_def return_call_def c_not_def stuck_def less_2_cases_iff
      wake_others_def)

section \<open>The sense in a destroyed register\<close>

text \<open>
  The system call returns 0.  In the first round the awaited sense is 0 as well; in the second it is 1, and thread 0 goes
  through after its first halt because the flag is still 0.
\<close>

definition early_return :: "variant \<Rightarrow> blabel list" where
  "early_return v = [Th 0, Th 0, Th 0] @ [Th 1, Th 1, Th 1, Th 1, Th 1] @ (if v = Halting_IPI then [Th 1] else []) @
     [Th 0] @ [Th 0, Th 0, Th 0, Th 0] @ [Irq 0] @ [Th 0]"

lemma early_return_run:
  assumes "v \<noteq> Pausing"
  shows "\<exists>s C. run (lsense_rax_step 0 v 2) (lsense_start b x 2, {}) (early_return v) = Some (s, C)
    \<and> returns (bthr s 0) = 2 \<and> calls (bthr s 1) = 1"
  using assms
  by (cases v)
    (simp_all add: early_return_def lsense_start_def spin_barrier_init_def spin_barrier_init_lsense_def
      lsense_rax_step_def lsense_step_def lsense_thread_def Let_def return_call_def c_not_def wake_others_def)

lemma lsense_rax_early:
  "v \<noteq> Pausing \<Longrightarrow> \<exists>s C. reachable (lsense_rax_step 0 v 2) (lsense_start b x 2, {}) (s, C)
    \<and> returns (bthr s 0) = 2 \<and> calls (bthr s 1) = 1"
  using early_return_run [of v b x] run_reachable [of "lsense_rax_step 0 v 2"] by metis

lemma lsense_rounds:
  assumes "barrier \<in> {spin_barrier_lsense, spin_barrier_lsense_cpuhalt, spin_barrier_lsense_cpuhalt_sendIPI}"
    and "n < 2 ^ 32" and "reachable (barrier n) (lsense_start b x n) s" and "i < n" and "j < n"
  shows "returns (bthr s i) \<le> calls (bthr s j) \<and> calls (bthr s i) \<le> Suc (calls (bthr s j))"
proof -
  consider "barrier = spin_barrier_lsense" | "barrier = spin_barrier_lsense_cpuhalt"
    | "barrier = spin_barrier_lsense_cpuhalt_sendIPI"
    using assms(1) by auto
  then show ?thesis
  proof cases
    case 1
    then show ?thesis using assms lb.all_or_none lb.drift by blast
  next
    case 2
    then show ?thesis using assms lbh.all_or_none lbh.drift by blast
  next
    case 3
    then show ?thesis using assms lbi.all_or_none lbi.drift by blast
  qed
qed

text \<open>
  C7.  Round separation of the three barriers with a local sense, for fewer than 2^32 threads and any interleaving, the
  halting ones compiled so that the awaited sense is not in \<open>rax\<close>: a call returns only after every thread has begun its
  call of the same round, so two threads are never more than one round apart.  For the halting barriers this rests
  on the compiler: with the sense in \<open>eax\<close>, which the constraints of the waiting block allow, one of two threads can return
  from its second call although the other has begun only its first.
\<close>

theorem spin_barrier_lsense_rounds:
  assumes "barrier \<in> {spin_barrier_lsense, spin_barrier_lsense_cpuhalt, spin_barrier_lsense_cpuhalt_sendIPI}"
    and "n < 2 ^ 32" and "reachable (barrier n) (lsense_start b x n) s" and "i < n" and "j < n"
  shows "returns (bthr s i) \<le> calls (bthr s j) \<and> calls (bthr s i) \<le> Suc (calls (bthr s j))
    \<and> (v \<in> {Halting, Halting_IPI} \<longrightarrow>
        (\<exists>s C. reachable (lsense_rax_step 0 v 2) (lsense_start b x 2, {}) (s, C)
          \<and> returns (bthr s 0) = 2 \<and> calls (bthr s 1) = 1))"
  using lsense_rounds [OF assms] lsense_rax_early [of v b x] by auto

text \<open>A round in which thread 1 arrives last and returns while thread 0 is still in its loop.\<close>

definition sb0 :: spin_barrier where
  "sb0 = \<lparr>b_lock = 7, release_flag = 7, current_count = 7, nthreads = 7\<rparr>"

lemmas lsense_eval = lsense_start_def spin_barrier_init_def spin_barrier_init_lsense_def lsense_step_def
  lsense_thread_def Let_def return_call_def c_not_def wake_others_def sb0_def

lemma spin_barrier_lsense_rounds_witness:
  "\<exists>s. run (spin_barrier_lsense_cpuhalt 2) (lsense_start sb0 0 2)
        [Th 0, Th 0, Th 0, Th 0, Th 1, Th 1, Th 1, Th 1, Th 1] = Some s
     \<and> bpc (bthr s 0) = Halted \<and> returns (bthr s 1) = 1 \<and> returns (bthr s 1) \<le> calls (bthr s 0)
     \<and> calls (bthr s 0) \<le> Suc (calls (bthr s 1))
     \<and> (\<exists>t C. reachable (lsense_rax_step 0 Halting 2) (lsense_start sb0 0 2, {}) (t, C) \<and> returns (bthr t 0) = 2)"
proof -
  obtain s where s: "run (spin_barrier_lsense_cpuhalt 2) (lsense_start sb0 0 2)
        [Th 0, Th 0, Th 0, Th 0, Th 1, Th 1, Th 1, Th 1, Th 1] = Some s"
    and h: "bpc (bthr s 0) = Halted" "returns (bthr s 1) = 1"
    by (simp add: spin_barrier_lsense_cpuhalt_def lsense_eval)
  have "returns (bthr s 1) \<le> calls (bthr s 0)" "calls (bthr s 0) \<le> Suc (calls (bthr s 1))"
    and "\<exists>t C. reachable (lsense_rax_step 0 Halting 2) (lsense_start sb0 0 2, {}) (t, C) \<and> returns (bthr t 0) = 2"
    using spin_barrier_lsense_rounds [of spin_barrier_lsense_cpuhalt 2 sb0 0 s 1 0 Halting]
      spin_barrier_lsense_rounds [of spin_barrier_lsense_cpuhalt 2 sb0 0 s 0 1 Halting] run_reachable [OF s]
    by auto
  with s h show ?thesis by blast
qed

text \<open>
  C8.  Two threads can block each other for ever: the increment is a locked instruction but
  \<open>current_count == nthreads\<close> reads the count again, so both threads of a pair may see it full;
  the second reset then erases the arrival of the first in the next round.  A state is reachable
  in which both threads are inside their second call, and whatever happens from there on,
  interrupts included, neither of them returns.
\<close>

theorem lsense_deadlock:
  "\<exists>s. reachable (lsense_step v 2) (lsense_start b x 2) s \<and>
     (\<forall>u. reachable (lsense_step v 2) s u \<longrightarrow>
        (\<forall>i<2. calls (bthr s i) = 2 \<and> returns (bthr u i) = 1 \<and> bpc (bthr u i) \<in> {Wait, Halted}))"
proof -
  obtain s where s: "run (lsense_step v 2) (lsense_start b x 2) (lost_arrival v) = Some s" "stuck s"
      "returns (bthr s 0) = 1" "returns (bthr s 1) = 1"
    using lost_arrival_stuck [of v b x] by blast
  have r: "reachable (lsense_step v 2) (lsense_start b x 2) s" by (rule run_reachable [OF s(1)])
  obtain R where R: "lsense_inv 2 R s" using lsense_reachable_inv [OF r] by auto
  have "calls (bthr s i) = 2 \<and> returns (bthr u i) = 1 \<and> bpc (bthr u i) \<in> {Wait, Halted}"
    if "reachable (lsense_step v 2) s u" "i < 2" for u i
  proof -
    have "thread_ok R (bthr s i)" using R that(2) by (simp add: lsense_inv_def)
    moreover have "returns (bthr s i) = 1" "bpc (bthr s i) \<in> {Wait, Halted}"
      using s that(2) by (auto simp: stuck_def less_2_cases_iff)
    ultimately have "calls (bthr s i) = 2" by (auto simp: thread_ok_def)
    then show ?thesis
      using stuck_forever [OF that(1) s(2)] that(2) s by (auto simp: stuck_def less_2_cases_iff)
  qed
  with r show ?thesis by blast
qed

lemma lsense_deadlock_witness:
  "\<exists>s. reachable (spin_barrier_lsense 2) (lsense_start sb0 0 2) s \<and>
     calls (bthr s 0) = 2 \<and> returns (bthr s 0) = 1 \<and> calls (bthr s 1) = 2 \<and> returns (bthr s 1) = 1"
proof -
  obtain s where s: "reachable (lsense_step Pausing 2) (lsense_start sb0 0 2) s"
      "\<And>u i. reachable (lsense_step Pausing 2) s u \<Longrightarrow> i < 2 \<Longrightarrow>
        calls (bthr s i) = 2 \<and> returns (bthr u i) = 1 \<and> bpc (bthr u i) \<in> {Wait, Halted}"
    using lsense_deadlock [of Pausing sb0 0] by blast
  have "i < 2 \<Longrightarrow> calls (bthr s i) = 2 \<and> returns (bthr s i) = 1" for i
    using s(2) [OF reach_start] by blast
  from this [of 0] this [of 1] show ?thesis
    using s(1) by (auto simp: spin_barrier_lsense_def)
qed

end
