(* ===== verification/Barrier_Locked.thy ===== *)
theory Barrier_Locked
  imports Barrier_Spec Mutex
begin

text \<open>
  The barrier with a per-thread sense of \<open>spin.c\<close> (\<open>spin_barrier_lsense\<close>) and its macros in
  \<open>spin.h\<close>: \<open>SPIN_BARRIER_LSENSE\<close>, which waits with \<open>pause\<close>, and \<open>SPIN_BARRIER_LSENSE_HLT\<close> and
  \<open>SPIN_BARRIER_LSENSE_HLTCNT\<close>, which halt the processor through \<open>ioctl\<close> between two readings of
  the flag, the last one counting the halts.  Count, test and release happen under a lock; the
  lock is the abstract lock of the theory \<open>Mutex\<close>, which the routines of \<open>spin.c\<close> and \<open>spin.h\<close>
  refine (\<open>Spin_Locks\<close>).  A step is one access to the shared barrier.
\<close>

unbundle bit_operations_syntax

section \<open>The barrier and its threads\<close>

record kmon_spin_barrier =
  kb_lock :: abs_lock
  kb_release_flag :: u64
  kb_current_count :: u32
  kb_total :: u32

definition kmon_spin_barrier_init :: "kmon_spin_barrier \<Rightarrow> u32 \<Rightarrow> kmon_spin_barrier" where
  "kmon_spin_barrier_init b tot =
     b\<lparr>kb_lock := None, kb_release_flag := 0, kb_current_count := 0, kb_total := tot\<rparr>"

definition kmon_spin_barrier_init_lsense :: "u32 \<Rightarrow> u32" where
  "kmon_spin_barrier_init_lsense lsense = 0"

datatype waiting = Spin | Hlt | Hlt_Count

datatype kpc =
    KIdle     \<comment> \<open>outside a call\<close>
  | KLock     \<comment> \<open>in the lock routine\<close>
  | KRead     \<comment> \<open>before the load of \<open>current_count++\<close>\<close>
  | KWrite    \<comment> \<open>before the store of \<open>current_count++\<close>\<close>
  | KTest     \<comment> \<open>before \<open>current_count == total\<close>\<close>
  | KReset    \<comment> \<open>before \<open>current_count = 0\<close>\<close>
  | KFlag     \<comment> \<open>before \<open>release_flag = lsense\<close>\<close>
  | KUnlock   \<comment> \<open>before the release of the lock\<close>
  | KWait     \<comment> \<open>before a test of \<open>release_flag\<close> in the waiting loop\<close>
  | KHalted   \<comment> \<open>in the \<open>ioctl\<close> that halts\<close>

record kthread =
  kpc :: kpc
  klsense :: u32
  ktmp :: u32
  khalts :: u64
  kcalls :: nat
  kreturns :: nat

record ksys =
  kb :: kmon_spin_barrier
  kthr :: "tid \<Rightarrow> kthread"

datatype klabel = KTh tid | KIrq tid

text \<open>
  \<open>release_flag\<close> is a \<open>long\<close> and \<open>lsense\<close> an \<open>int\<close>: the store extends the sign, the comparison
  \<open>cmpl\<close> of the waiting loop reads the low half.
\<close>

definition flag_seen :: "kmon_spin_barrier \<Rightarrow> u32" where
  "flag_seen b = ucast (kb_release_flag b)"

definition klsense_thread :: "waiting \<Rightarrow> ksys \<Rightarrow> tid \<Rightarrow> ksys option" where
  "klsense_thread w s i =
     (let t = kthr s i; b = kb s;
          go = (\<lambda>b' t'. Some (s\<lparr>kb := b', kthr := (kthr s)(i := t')\<rparr>)) in
      case kpc t of
        KIdle \<Rightarrow> go b (t\<lparr>klsense := NOT (klsense t), kcalls := Suc (kcalls t), kpc := KLock\<rparr>)
      | KLock \<Rightarrow> (if kb_lock b = None then go (b\<lparr>kb_lock := Some i\<rparr>) (t\<lparr>kpc := KRead\<rparr>) else None)
      | KRead \<Rightarrow> go b (t\<lparr>ktmp := kb_current_count b, kpc := KWrite\<rparr>)
      | KWrite \<Rightarrow> go (b\<lparr>kb_current_count := ktmp t + 1\<rparr>) (t\<lparr>kpc := KTest\<rparr>)
      | KTest \<Rightarrow> go b (t\<lparr>kpc := if kb_current_count b = kb_total b then KReset else KUnlock\<rparr>)
      | KReset \<Rightarrow> go (b\<lparr>kb_current_count := 0\<rparr>) (t\<lparr>kpc := KFlag\<rparr>)
      | KFlag \<Rightarrow> go (b\<lparr>kb_release_flag := scast (klsense t)\<rparr>) (t\<lparr>kpc := KUnlock\<rparr>)
      | KUnlock \<Rightarrow> go (b\<lparr>kb_lock := None\<rparr>) (t\<lparr>kpc := KWait\<rparr>)
      | KWait \<Rightarrow> (if flag_seen b = klsense t then go b (t\<lparr>kpc := KIdle, kreturns := Suc (kreturns t)\<rparr>)
                  else if w = Spin then go b t else go b (t\<lparr>kpc := KHalted\<rparr>))
      | KHalted \<Rightarrow> None)"

text \<open>The \<open>ioctl\<close> that halts returns after an interrupt; the counting macro then counts it.\<close>

definition halt_returns :: "waiting \<Rightarrow> kthread \<Rightarrow> kthread" where
  "halt_returns w t = t\<lparr>kpc := KWait, khalts := if w = Hlt_Count then khalts t + 1 else khalts t\<rparr>"

definition klsense_step :: "waiting \<Rightarrow> nat \<Rightarrow> ksys \<Rightarrow> klabel \<Rightarrow> ksys option" where
  "klsense_step w n s l =
     (case l of
        KTh i \<Rightarrow> (if i < n then klsense_thread w s i else None)
      | KIrq i \<Rightarrow>
          (if i < n \<and> kpc (kthr s i) = KHalted
           then Some (s\<lparr>kthr := (kthr s)(i := halt_returns w (kthr s i))\<rparr>) else None))"

definition kmon_spin_barrier_lsense :: "nat \<Rightarrow> ksys \<Rightarrow> klabel \<Rightarrow> ksys option" where
  "kmon_spin_barrier_lsense = klsense_step Spin"

definition SPIN_BARRIER_LSENSE :: "nat \<Rightarrow> ksys \<Rightarrow> klabel \<Rightarrow> ksys option" where
  "SPIN_BARRIER_LSENSE = klsense_step Spin"

definition SPIN_BARRIER_LSENSE_HLT :: "nat \<Rightarrow> ksys \<Rightarrow> klabel \<Rightarrow> ksys option" where
  "SPIN_BARRIER_LSENSE_HLT = klsense_step Hlt"

definition SPIN_BARRIER_LSENSE_HLTCNT :: "nat \<Rightarrow> ksys \<Rightarrow> klabel \<Rightarrow> ksys option" where
  "SPIN_BARRIER_LSENSE_HLTCNT = klsense_step Hlt_Count"

definition klsense_start :: "kmon_spin_barrier \<Rightarrow> u32 \<Rightarrow> u64 \<Rightarrow> nat \<Rightarrow> ksys" where
  "klsense_start b x c n = \<lparr>kb = kmon_spin_barrier_init b (word_of_nat n),
     kthr = (\<lambda>_. \<lparr>kpc = KIdle, klsense = kmon_spin_barrier_init_lsense x, ktmp = 0, khalts = c,
                  kcalls = 0, kreturns = 0\<rparr>)\<rparr>"

section \<open>The invariant\<close>

definition ksense :: "nat \<Rightarrow> u32" where
  "ksense k = (if even k then 0 else - 1)"

lemma not_ksense [simp]: "NOT (ksense k) = ksense (Suc k)"
  by (simp add: ksense_def)

lemma ksense_Suc [simp]: "ksense (Suc k) \<noteq> ksense k" "ksense k \<noteq> ksense (Suc k)"
  by (simp_all add: ksense_def)

lemma flag_seen_store [simp]: "ucast (scast (x :: u32) :: u64) = x"
  by (rule bit_word_eqI) (auto simp: bit_simps)

text \<open>The program points inside the lock, and those behind the increment.\<close>

definition in_lock :: "kpc \<Rightarrow> bool" where
  "in_lock p \<longleftrightarrow> p \<in> {KRead, KWrite, KTest, KReset, KFlag, KUnlock}"

definition karrived :: "nat \<Rightarrow> kthread \<Rightarrow> bool" where
  "karrived R t \<longleftrightarrow> kcalls t = Suc R \<and> kpc t \<notin> {KLock, KRead, KWrite}"

definition kthread_ok :: "nat \<Rightarrow> kthread \<Rightarrow> bool" where
  "kthread_ok R t \<longleftrightarrow> klsense t = ksense (kcalls t) \<and>
     (case kpc t of
        KIdle \<Rightarrow> kcalls t = R \<and> kreturns t = R
      | KUnlock \<Rightarrow> (kcalls t = R \<or> kcalls t = Suc R) \<and> Suc (kreturns t) = kcalls t
      | KWait \<Rightarrow> (kcalls t = R \<or> kcalls t = Suc R) \<and> Suc (kreturns t) = kcalls t
      | KHalted \<Rightarrow> (kcalls t = R \<or> kcalls t = Suc R) \<and> Suc (kreturns t) = kcalls t
      | _ \<Rightarrow> kcalls t = Suc R \<and> kreturns t = R)"

text \<open>What the owner of the lock knows at each of its program points.\<close>

definition owner_ok :: "nat \<Rightarrow> nat \<Rightarrow> kmon_spin_barrier \<Rightarrow> (tid \<Rightarrow> kthread) \<Rightarrow> kthread \<Rightarrow> bool" where
  "owner_ok n R b th t \<longleftrightarrow>
     (let c = unat (kb_current_count b); a = count_threads n (\<lambda>j. karrived R (th j)) in
      case kpc t of
        KRead \<Rightarrow> c = a
      | KWrite \<Rightarrow> c = a \<and> ktmp t = kb_current_count b
      | KTest \<Rightarrow> c = a
      | KReset \<Rightarrow> c = a \<and> a = n
      | KFlag \<Rightarrow> c = 0 \<and> a = n
      | _ \<Rightarrow> c = a \<and> a < n)"

definition klsense_inv :: "nat \<Rightarrow> nat \<Rightarrow> ksys \<Rightarrow> bool" where
  "klsense_inv n R s \<longleftrightarrow>
     kb_total (kb s) = word_of_nat n \<and> flag_seen (kb s) = ksense R
     \<and> (\<forall>i<n. kthread_ok R (kthr s i))
     \<and> (\<forall>i<n. in_lock (kpc (kthr s i)) \<longleftrightarrow> kb_lock (kb s) = Some i)
     \<and> (case kb_lock (kb s) of
          None \<Rightarrow> unat (kb_current_count (kb s)) = count_threads n (\<lambda>j. karrived R (kthr s j))
            \<and> (0 < n \<longrightarrow> unat (kb_current_count (kb s)) < n)
        | Some i \<Rightarrow> i < n \<and> owner_ok n R (kb s) (kthr s) (kthr s i))"

lemma klsense_inv_start: "klsense_inv n 0 (klsense_start b x c n)"
proof -
  have "count_threads n (\<lambda>j. karrived 0 (kthr (klsense_start b x c n) j)) = 0"
    by (simp add: count_threads_zero klsense_start_def karrived_def)
  then show ?thesis
    by (simp add: klsense_inv_def klsense_start_def kmon_spin_barrier_init_def flag_seen_def
      kmon_spin_barrier_init_lsense_def kthread_ok_def ksense_def in_lock_def)
qed

text \<open>A move of thread \<open>i\<close> outside the lock.\<close>

lemma karrived_update:
  assumes "i < n"
  shows "count_threads n (\<lambda>j. karrived R ((th(i := t)) j)) + of_bool (karrived R (th i))
    = count_threads n (\<lambda>j. karrived R (th j)) + of_bool (karrived R t)"
  using count_threads_update [OF assms, of "\<lambda>j. karrived R (th j)" "\<lambda>j. karrived R ((th(i := t)) j)"]
  by simp

lemma klsense_inv_outside:
  assumes inv: "klsense_inv n R s" and i: "i < n"
    and "kthread_ok R t" and a: "karrived R t = karrived R (kthr s i)"
    and l: "\<not> in_lock (kpc (kthr s i))" "\<not> in_lock (kpc t)"
  shows "klsense_inv n R (s\<lparr>kthr := (kthr s)(i := t)\<rparr>)"
proof -
  have c: "count_threads n (\<lambda>j. karrived R (((kthr s)(i := t)) j)) = count_threads n (\<lambda>j. karrived R (kthr s j))"
    using karrived_update [OF i, of R "kthr s" t] a by simp
  have o: "kb_lock (kb s) \<noteq> Some i" using inv i l by (auto simp: klsense_inv_def)
  have k: "owner_ok n R (kb s) ((kthr s)(i := t)) u = owner_ok n R (kb s) (kthr s) u" for u
    unfolding owner_ok_def using c by simp
  show ?thesis
    using inv o l assms(3) i unfolding klsense_inv_def
    by (cases "kb_lock (kb s)") (auto simp: c [simplified] k [simplified])
qed

text \<open>A move of the owner of the lock.\<close>

lemma klsense_inv_owner:
  assumes inv: "klsense_inv n R s" and i: "i < n" and o: "kb_lock (kb s) = Some i" "kb_lock b = Some i"
    and "kb_total b = kb_total (kb s)" "flag_seen b = ksense R'" "in_lock (kpc t)"
    and ok: "\<forall>j<n. kthread_ok R' (((kthr s)(i := t)) j)" "owner_ok n R' b ((kthr s)(i := t)) t"
  shows "klsense_inv n R' (s\<lparr>kb := b, kthr := (kthr s)(i := t)\<rparr>)"
  using assms unfolding klsense_inv_def by auto

lemma klsense_thread_inv:
  assumes inv: "klsense_inv n R s" and n: "n < 2 ^ 32" and i: "i < n"
    and st: "klsense_thread w s i = Some s'"
  shows "klsense_inv n R s' \<or> klsense_inv n (Suc R) s'"
proof -
  let ?t = "kthr s i" and ?b = "kb s"
  let ?a = "\<lambda>th. count_threads n (\<lambda>j. karrived R (th j))"
  have ok: "kthread_ok R ?t" and oks: "\<forall>j<n. kthread_ok R (kthr s j)"
    and f: "flag_seen ?b = ksense R" and tot: "unat (kb_total ?b) = n"
    using inv i n by (auto simp: klsense_inv_def unat_of_nat_u32)
  have own: "kb_lock ?b = Some i \<and> owner_ok n R ?b (kthr s) ?t" if "in_lock (kpc ?t)"
    using inv i that by (auto simp: klsense_inv_def split: option.splits)
  have a: "?a ((kthr s)(i := t)) + of_bool (karrived R ?t) = ?a (kthr s) + of_bool (karrived R t)" for t
    by (rule karrived_update [OF i])
  have le: "?a th \<le> n" for th by (rule count_threads_le)
  note out = klsense_inv_outside [OF inv i]
  show ?thesis
  proof (cases "kpc ?t")
    case KIdle
    then show ?thesis
      using st ok out [of "?t\<lparr>klsense := NOT (klsense ?t), kcalls := Suc (kcalls ?t), kpc := KLock\<rparr>"]
      by (auto simp: klsense_thread_def Let_def kthread_ok_def karrived_def in_lock_def)
  next
    case KLock
    then have l: "kb_lock ?b = None" and s': "s' = s\<lparr>kb := ?b\<lparr>kb_lock := Some i\<rparr>, kthr := (kthr s)(i := ?t\<lparr>kpc := KRead\<rparr>)\<rparr>"
      using st by (auto simp: klsense_thread_def Let_def split: if_splits)
    have "?a ((kthr s)(i := ?t\<lparr>kpc := KRead\<rparr>)) = ?a (kthr s)"
      using a [of "?t\<lparr>kpc := KRead\<rparr>"] KLock by (simp add: karrived_def)
    then have "klsense_inv n R s'"
      using inv l i KLock unfolding s' klsense_inv_def
      by (auto simp: owner_ok_def in_lock_def kthread_ok_def flag_seen_def)
    then show ?thesis ..
  next
    case KRead
    then have "klsense_inv n R (s\<lparr>kb := ?b, kthr := (kthr s)(i := ?t\<lparr>ktmp := kb_current_count ?b, kpc := KWrite\<rparr>)\<rparr>)"
      using own a [of "?t\<lparr>ktmp := kb_current_count ?b, kpc := KWrite\<rparr>"] oks f
      by (intro klsense_inv_owner [OF inv i])
        (auto simp: in_lock_def kthread_ok_def owner_ok_def Let_def karrived_def)
    then show ?thesis using st KRead by (simp add: klsense_thread_def Let_def)
  next
    case KWrite
    let ?t' = "?t\<lparr>kpc := KTest\<rparr>"
    have c: "unat (kb_current_count ?b) = ?a (kthr s)" "ktmp ?t = kb_current_count ?b"
      and l: "kb_lock ?b = Some i"
      using own KWrite by (auto simp: in_lock_def owner_ok_def Let_def)
    have a': "?a ((kthr s)(i := ?t')) = ?a (kthr s) + 1"
      using a [of ?t'] KWrite ok by (simp add: karrived_def kthread_ok_def)
    then have "unat (ktmp ?t + 1) = ?a ((kthr s)(i := ?t'))"
      using c le [of "(kthr s)(i := ?t')"] n by (simp add: unat_inc_word)
    then have "klsense_inv n R (s\<lparr>kb := ?b\<lparr>kb_current_count := ktmp ?t + 1\<rparr>, kthr := (kthr s)(i := ?t')\<rparr>)"
      using l oks f KWrite
      by (intro klsense_inv_owner [OF inv i])
        (auto simp: in_lock_def kthread_ok_def owner_ok_def Let_def flag_seen_def)
    then show ?thesis using st KWrite by (simp add: klsense_thread_def Let_def)
  next
    case KTest
    let ?t' = "?t\<lparr>kpc := if kb_current_count ?b = kb_total ?b then KReset else KUnlock\<rparr>"
    have c: "unat (kb_current_count ?b) = ?a (kthr s)" and l: "kb_lock ?b = Some i"
      using own KTest by (auto simp: in_lock_def owner_ok_def Let_def)
    have "karrived R ?t' = karrived R ?t" using KTest by (simp add: karrived_def)
    then have a': "?a ((kthr s)(i := ?t')) = ?a (kthr s)" using a [of ?t'] by simp
    have "kb_current_count ?b = kb_total ?b \<longleftrightarrow> ?a (kthr s) = n"
      using c tot by (metis word_unat_eq_iff)
    then have "owner_ok n R ?b ((kthr s)(i := ?t')) ?t'"
      using c a' le [of "kthr s"] by (simp add: owner_ok_def Let_def)
    then have "klsense_inv n R (s\<lparr>kb := ?b, kthr := (kthr s)(i := ?t')\<rparr>)"
      using l oks f KTest
      by (intro klsense_inv_owner [OF inv i]) (auto simp: in_lock_def kthread_ok_def)
    then show ?thesis using st KTest by (simp add: klsense_thread_def Let_def)
  next
    case KReset
    let ?t' = "?t\<lparr>kpc := KFlag\<rparr>"
    have "?a ((kthr s)(i := ?t')) = n" and l: "kb_lock ?b = Some i"
      using own KReset a [of ?t'] by (auto simp: in_lock_def owner_ok_def Let_def karrived_def)
    then have "klsense_inv n R (s\<lparr>kb := ?b\<lparr>kb_current_count := 0\<rparr>, kthr := (kthr s)(i := ?t')\<rparr>)"
      using oks f KReset
      by (intro klsense_inv_owner [OF inv i])
        (auto simp: in_lock_def kthread_ok_def owner_ok_def Let_def flag_seen_def)
    then show ?thesis using st KReset by (simp add: klsense_thread_def Let_def)
  next
    case KFlag
    let ?t' = "?t\<lparr>kpc := KUnlock\<rparr>"
    have c: "kb_current_count ?b = 0" and all: "\<forall>j<n. karrived R (kthr s j)" and l: "kb_lock ?b = Some i"
      using own KFlag by (auto simp: in_lock_def owner_ok_def Let_def count_threads_full unat_eq_0)
    have oks': "\<forall>j<n. kthread_ok (Suc R) (((kthr s)(i := ?t')) j)"
    proof (intro allI impI)
      fix j assume "j < n"
      then have "kthread_ok R (kthr s j)" "karrived R (kthr s j)" "j \<noteq> i \<Longrightarrow> \<not> in_lock (kpc (kthr s j))"
        using oks all inv l by (auto simp: klsense_inv_def)
      then show "kthread_ok (Suc R) (((kthr s)(i := ?t')) j)"
        using KFlag by (auto simp: kthread_ok_def karrived_def in_lock_def split: kpc.splits)
    qed
    have "count_threads n (\<lambda>j. karrived (Suc R) (((kthr s)(i := ?t')) j)) = 0"
      using all i by (auto simp: count_threads_zero karrived_def)
    then have "owner_ok n (Suc R) (?b\<lparr>kb_release_flag := scast (klsense ?t)\<rparr>) ((kthr s)(i := ?t')) ?t'"
      using c i by (simp add: owner_ok_def Let_def)
    moreover have "klsense ?t = ksense (Suc R)" using ok KFlag by (simp add: kthread_ok_def)
    ultimately have "klsense_inv n (Suc R) (s\<lparr>kb := ?b\<lparr>kb_release_flag := scast (klsense ?t)\<rparr>, kthr := (kthr s)(i := ?t')\<rparr>)"
      using l oks' by (intro klsense_inv_owner [OF inv i]) (auto simp: in_lock_def flag_seen_def)
    then show ?thesis using st KFlag by (simp add: klsense_thread_def Let_def)
  next
    case KUnlock
    let ?t' = "?t\<lparr>kpc := KWait\<rparr>"
    have "unat (kb_current_count ?b) = ?a (kthr s)" "?a (kthr s) < n" and l: "kb_lock ?b = Some i"
      using own KUnlock by (auto simp: in_lock_def owner_ok_def Let_def)
    moreover have "?a ((kthr s)(i := ?t')) = ?a (kthr s)"
      using a [of ?t'] KUnlock by (simp add: karrived_def)
    ultimately have "klsense_inv n R (s\<lparr>kb := ?b\<lparr>kb_lock := None\<rparr>, kthr := (kthr s)(i := ?t')\<rparr>)"
      using inv i KUnlock unfolding klsense_inv_def
      by (auto simp: in_lock_def kthread_ok_def flag_seen_def)
    then show ?thesis using st KUnlock by (simp add: klsense_thread_def Let_def)
  next
    case KWait
    show ?thesis
    proof (cases "flag_seen ?b = klsense ?t")
      case True
      then have "kcalls ?t = R" using ok f KWait by (auto simp: kthread_ok_def)
      then show ?thesis
        using st True KWait ok out [of "?t\<lparr>kpc := KIdle, kreturns := Suc (kreturns ?t)\<rparr>"]
        by (auto simp: klsense_thread_def Let_def kthread_ok_def karrived_def in_lock_def)
    next
      case False
      then show ?thesis
        using st KWait ok inv out [of "?t\<lparr>kpc := KHalted\<rparr>"]
        by (auto simp: klsense_thread_def Let_def kthread_ok_def karrived_def in_lock_def split: if_splits)
    qed
  next
    case KHalted
    then show ?thesis using st by (simp add: klsense_thread_def Let_def)
  qed
qed

lemma klsense_irq_inv:
  assumes "klsense_inv n R s" and "i < n" and "kpc (kthr s i) = KHalted"
  shows "klsense_inv n R (s\<lparr>kthr := (kthr s)(i := halt_returns w (kthr s i))\<rparr>)"
proof -
  have "kthread_ok R (kthr s i)" using assms by (simp add: klsense_inv_def)
  then show ?thesis
    using assms(3) by (intro klsense_inv_outside [OF assms(1,2)])
      (auto simp: kthread_ok_def karrived_def in_lock_def halt_returns_def)
qed

lemma klsense_step_inv:
  assumes "klsense_inv n R s" and "n < 2 ^ 32" and "klsense_step w n s l = Some s'"
  shows "klsense_inv n R s' \<or> klsense_inv n (Suc R) s'"
proof (cases l)
  case (KTh i)
  then show ?thesis
    using assms(3) klsense_thread_inv [OF assms(1,2), of i w s']
    by (auto simp: klsense_step_def split: if_splits)
next
  case (KIrq i)
  then show ?thesis
    using assms(3) klsense_irq_inv [OF assms(1), of i]
    by (auto simp: klsense_step_def split: if_splits)
qed

lemma klsense_reachable_inv:
  assumes "reachable (klsense_step w n) (klsense_start b x c n) s" and "n < 2 ^ 32"
  shows "\<exists>R. klsense_inv n R s"
  using assms(1)
  by (rule reachable_invariant)
    (use klsense_inv_start klsense_step_inv [OF _ assms(2)] in blast)+

lemma klsense_inv_calls:
  assumes "klsense_inv n R s" and "i < n"
  shows "kreturns (kthr s i) \<le> R" and "R \<le> kcalls (kthr s i)" and "R \<le> Suc (kreturns (kthr s i))"
    and "kcalls (kthr s i) \<le> Suc (kreturns (kthr s i))"
proof -
  have "kthread_ok R (kthr s i)" using assms by (simp add: klsense_inv_def)
  then show "kreturns (kthr s i) \<le> R" and "R \<le> kcalls (kthr s i)" and "R \<le> Suc (kreturns (kthr s i))"
    and "kcalls (kthr s i) \<le> Suc (kreturns (kthr s i))"
    by (auto simp: kthread_ok_def split: kpc.splits)
qed

section \<open>The barriers keep the contract\<close>

interpretation kb: round_barrier kmon_spin_barrier_lsense "klsense_start b x c" "\<lambda>n. n < 2 ^ 32"
    "\<lambda>s i. kcalls (kthr s i)" "\<lambda>s i. kreturns (kthr s i)" for b x c
  unfolding kmon_spin_barrier_lsense_def
  by unfold_locales (meson klsense_reachable_inv klsense_inv_calls order_trans)+

interpretation kbm: round_barrier SPIN_BARRIER_LSENSE "klsense_start b x c" "\<lambda>n. n < 2 ^ 32"
    "\<lambda>s i. kcalls (kthr s i)" "\<lambda>s i. kreturns (kthr s i)" for b x c
  unfolding SPIN_BARRIER_LSENSE_def
  by unfold_locales (meson klsense_reachable_inv klsense_inv_calls order_trans)+

interpretation kbh: round_barrier SPIN_BARRIER_LSENSE_HLT "klsense_start b x c" "\<lambda>n. n < 2 ^ 32"
    "\<lambda>s i. kcalls (kthr s i)" "\<lambda>s i. kreturns (kthr s i)" for b x c
  unfolding SPIN_BARRIER_LSENSE_HLT_def
  by unfold_locales (meson klsense_reachable_inv klsense_inv_calls order_trans)+

interpretation kbc: round_barrier SPIN_BARRIER_LSENSE_HLTCNT "klsense_start b x c" "\<lambda>n. n < 2 ^ 32"
    "\<lambda>s i. kcalls (kthr s i)" "\<lambda>s i. kreturns (kthr s i)" for b x c
  unfolding SPIN_BARRIER_LSENSE_HLTCNT_def
  by unfold_locales (meson klsense_reachable_inv klsense_inv_calls order_trans)+

section \<open>Progress\<close>

text \<open>
  How far a thread is from having arrived in round \<open>R + 1\<close>: first the way out of round \<open>R\<close>, then
  the way to its increment, then the way to the waiting loop, where it can do no more.
\<close>

definition krank :: "nat \<Rightarrow> kthread \<Rightarrow> nat" where
  "krank R t = (case kpc t of
     KIdle \<Rightarrow> 10 | KLock \<Rightarrow> 9 | KRead \<Rightarrow> 8 | KWrite \<Rightarrow> 7 | KTest \<Rightarrow> 6 | KReset \<Rightarrow> 5 | KFlag \<Rightarrow> 4
   | KUnlock \<Rightarrow> (if kcalls t = R then 13 else 3)
   | KWait \<Rightarrow> (if kcalls t = R then 11 else 0)
   | KHalted \<Rightarrow> (if kcalls t = R then 12 else 0))"

definition ktotal_rank :: "nat \<Rightarrow> nat \<Rightarrow> ksys \<Rightarrow> nat" where
  "ktotal_rank n R s = (\<Sum>i<n. krank R (kthr s i))"

lemma ktotal_rank_less:
  assumes "i < n" and "\<forall>j. j \<noteq> i \<longrightarrow> kthr s' j = kthr s j" and "krank R (kthr s' i) < krank R (kthr s i)"
  shows "ktotal_rank n R s' < ktotal_rank n R s"
  unfolding ktotal_rank_def
proof (rule sum_strict_mono_ex1)
  show "\<forall>j\<in>{..<n}. krank R (kthr s' j) \<le> krank R (kthr s j)"
    using assms(2,3) by (metis less_imp_le order_refl)
  show "\<exists>j\<in>{..<n}. krank R (kthr s' j) < krank R (kthr s j)" using assms(1,3) by blast
qed simp

text \<open>A thread that is not spinning for the end of its round can make a move, which brings it nearer.\<close>

lemma kthread_advances:
  assumes inv: "klsense_inv n R s" and i: "i < n"
    and free: "kb_lock (kb s) = None \<or> kb_lock (kb s) = Some i"
    and busy: "kpc (kthr s i) \<in> {KWait, KHalted} \<Longrightarrow> kcalls (kthr s i) = R"
  shows "\<exists>l s'. klsense_step w n s l = Some s' \<and> (\<forall>j. j \<noteq> i \<longrightarrow> kthr s' j = kthr s j)
    \<and> krank R (kthr s' i) < krank R (kthr s i)"
proof (cases "kpc (kthr s i) = KHalted")
  case True
  have "kcalls (kthr s i) = R" using True busy by simp
  then show ?thesis
    using True i
    by (intro exI [of _ "KIrq i"]
          exI [of _ "s\<lparr>kthr := (kthr s)(i := halt_returns w (kthr s i))\<rparr>"])
      (simp add: klsense_step_def krank_def halt_returns_def)
next
  case False
  have ok: "kthread_ok R (kthr s i)" and f: "flag_seen (kb s) = ksense R"
    and o: "in_lock (kpc (kthr s i)) \<longleftrightarrow> kb_lock (kb s) = Some i"
    using inv i by (auto simp: klsense_inv_def)
  have "\<exists>s'. klsense_thread w s i = Some s' \<and> (\<forall>j. j \<noteq> i \<longrightarrow> kthr s' j = kthr s j)
      \<and> krank R (kthr s' i) < krank R (kthr s i)"
  proof (cases "kpc (kthr s i)")
    case KLock
    then have "kb_lock (kb s) = None" using free o by (auto simp: in_lock_def)
    then show ?thesis using KLock by (auto simp: klsense_thread_def Let_def krank_def)
  next
    case KWait
    then show ?thesis
      using busy f ok by (auto simp: klsense_thread_def Let_def krank_def kthread_ok_def)
  next
    case KIdle
    then show ?thesis using ok by (simp add: klsense_thread_def Let_def krank_def kthread_ok_def)
  next
    case KRead
    then show ?thesis using ok by (simp add: klsense_thread_def Let_def krank_def kthread_ok_def)
  next
    case KWrite
    then show ?thesis using ok by (simp add: klsense_thread_def Let_def krank_def kthread_ok_def)
  next
    case KTest
    then show ?thesis using ok by (simp add: klsense_thread_def Let_def krank_def kthread_ok_def)
  next
    case KReset
    then show ?thesis using ok by (simp add: klsense_thread_def Let_def krank_def kthread_ok_def)
  next
    case KFlag
    then show ?thesis using ok by (simp add: klsense_thread_def Let_def krank_def kthread_ok_def)
  next
    case KUnlock
    then show ?thesis using ok by (simp add: klsense_thread_def Let_def krank_def kthread_ok_def)
  next
    case KHalted
    then show ?thesis using False by simp
  qed
  then show ?thesis using i by (intro exI [of _ "KTh i"]) (simp add: klsense_step_def)
qed

lemma kprogress_step:
  assumes inv: "klsense_inv n R s" and n: "n < 2 ^ 32" "0 < n"
  shows "\<exists>l s'. klsense_step w n s l = Some s' \<and>
    (klsense_inv n (Suc R) s' \<or> klsense_inv n R s' \<and> ktotal_rank n R s' < ktotal_rank n R s)"
proof -
  have "\<exists>i<n. (kb_lock (kb s) = None \<or> kb_lock (kb s) = Some i) \<and>
      (kpc (kthr s i) \<in> {KWait, KHalted} \<longrightarrow> kcalls (kthr s i) = R)"
  proof (cases "kb_lock (kb s)")
    case None
    then have "\<not> (\<forall>j<n. karrived R (kthr s j))"
      using inv n by (auto simp: klsense_inv_def simp flip: count_threads_full)
    then obtain i where i: "i < n" "\<not> karrived R (kthr s i)" by blast
    moreover have "kthread_ok R (kthr s i)" using inv i by (simp add: klsense_inv_def)
    ultimately show ?thesis
      using None by (auto simp: karrived_def kthread_ok_def intro!: exI [of _ i])
  next
    case (Some i)
    then have "i < n" "in_lock (kpc (kthr s i))" using inv by (auto simp: klsense_inv_def)
    then show ?thesis using Some by (auto simp: in_lock_def intro!: exI [of _ i])
  qed
  then obtain i where i: "i < n" "kb_lock (kb s) = None \<or> kb_lock (kb s) = Some i"
    "kpc (kthr s i) \<in> {KWait, KHalted} \<Longrightarrow> kcalls (kthr s i) = R" by blast
  obtain l s' where s': "klsense_step w n s l = Some s'" "\<forall>j. j \<noteq> i \<longrightarrow> kthr s' j = kthr s j"
      "krank R (kthr s' i) < krank R (kthr s i)"
    using kthread_advances [OF inv i] by blast
  show ?thesis
    using klsense_step_inv [OF inv n(1) s'(1)] ktotal_rank_less [OF i(1) s'(2,3)] s'(1) by blast
qed

lemma krounds_complete:
  assumes "klsense_inv n R s" and "n < 2 ^ 32" "0 < n"
  shows "\<exists>u. reachable (klsense_step w n) s u \<and> klsense_inv n (R + k) u"
  by (rule rounds_complete [where rank = "ktotal_rank n", OF kprogress_step [OF _ assms(2,3)] assms(1)])

section \<open>Properties\<close>

text \<open>
  Round separation of the barrier of \<open>spin.c\<close> and of the three macros of \<open>spin.h\<close>, for
  any number of threads below 2^32 and any interleaving: a call returns only after every thread
  has begun its call of the same round, and no thread is more than one round ahead of another.
\<close>

theorem kmon_barrier_rounds:
  assumes "barrier \<in> {kmon_spin_barrier_lsense, SPIN_BARRIER_LSENSE, SPIN_BARRIER_LSENSE_HLT,
      SPIN_BARRIER_LSENSE_HLTCNT}"
    and "n < 2 ^ 32" and "reachable (barrier n) (klsense_start b x c n) s" and "i < n" and "j < n"
  shows "kreturns (kthr s i) \<le> kcalls (kthr s j) \<and> kcalls (kthr s i) \<le> Suc (kcalls (kthr s j))"
proof -
  consider "barrier = kmon_spin_barrier_lsense" | "barrier = SPIN_BARRIER_LSENSE"
    | "barrier = SPIN_BARRIER_LSENSE_HLT" | "barrier = SPIN_BARRIER_LSENSE_HLTCNT"
    using assms(1) by auto
  then show ?thesis
  proof cases
    case 1
    then show ?thesis using assms kb.all_or_none kb.drift by blast
  next
    case 2
    then show ?thesis using assms kbm.all_or_none kbm.drift by blast
  next
    case 3
    then show ?thesis using assms kbh.all_or_none kbh.drift by blast
  next
    case 4
    then show ?thesis using assms kbc.all_or_none kbc.drift by blast
  qed
qed

definition kb0 :: kmon_spin_barrier where
  "kb0 = \<lparr>kb_lock = Some 5, kb_release_flag = 7, kb_current_count = 7, kb_total = 7\<rparr>"

lemma low_half_minus_one: "(ucast (- 1 :: u64) :: u32) = - 1"
  by (rule bit_word_eqI) (auto simp: bit_simps)

lemmas klsense_eval = low_half_minus_one klsense_start_def kmon_spin_barrier_init_def kmon_spin_barrier_init_lsense_def
  klsense_step_def klsense_thread_def Let_def halt_returns_def flag_seen_def kb0_def

text \<open>Thread 0 arrives and halts, thread 1 completes the round and returns, thread 0 is woken.\<close>

definition kround :: "klabel list" where
  "kround = replicate 7 (KTh 0) @ replicate 9 (KTh 1) @ [KIrq 0, KTh 0]"

lemma kmon_barrier_rounds_witness:
  "\<exists>s. run (SPIN_BARRIER_LSENSE_HLTCNT 2) (klsense_start kb0 3 0 2) kround = Some s
     \<and> kreturns (kthr s 1) = 1 \<and> khalts (kthr s 0) = 1
     \<and> kreturns (kthr s 1) \<le> kcalls (kthr s 0) \<and> kcalls (kthr s 0) \<le> Suc (kcalls (kthr s 1))"
proof -
  obtain s where s: "run (SPIN_BARRIER_LSENSE_HLTCNT 2) (klsense_start kb0 3 0 2) kround = Some s"
    and h: "kreturns (kthr s 1) = 1" "khalts (kthr s 0) = 1"
    by (simp add: SPIN_BARRIER_LSENSE_HLTCNT_def kround_def klsense_eval numeral_eq_Suc)
  have r: "reachable (SPIN_BARRIER_LSENSE_HLTCNT 2) (klsense_start kb0 3 0 2) s"
    by (rule run_reachable [OF s])
  show ?thesis
    using kmon_barrier_rounds [of SPIN_BARRIER_LSENSE_HLTCNT 2 kb0 3 0 s 1 0]
      kmon_barrier_rounds [of SPIN_BARRIER_LSENSE_HLTCNT 2 kb0 3 0 s 0 1] r s h by simp
qed

text \<open>
  The barrier of \<open>spin.c\<close> and the macros of \<open>spin.h\<close> never get stuck: from every
  state that any interleaving can reach there is a continuation in which every thread completes
  \<open>k\<close> further calls, for every \<open>k\<close>.
\<close>

theorem kmon_barrier_never_deadlocks:
  assumes "0 < n" and "n < 2 ^ 32" and "reachable (klsense_step w n) (klsense_start b x c n) s"
  shows "\<exists>u. reachable (klsense_step w n) s u \<and> (\<forall>i<n. kreturns (kthr s i) + k \<le> kreturns (kthr u i))"
proof -
  obtain R where R: "klsense_inv n R s" using klsense_reachable_inv [OF assms(3,2)] by blast
  obtain u where u: "reachable (klsense_step w n) s u" "klsense_inv n (R + Suc k) u"
    using krounds_complete [OF R assms(2,1)] by blast
  have "kreturns (kthr s i) + k \<le> kreturns (kthr u i)" if "i < n" for i
    using klsense_inv_calls(1) [OF R that] klsense_inv_calls(3) [OF u(2) that] by simp
  with u(1) show ?thesis by blast
qed

lemma kmon_barrier_never_deadlocks_witness:
  "\<exists>s u. run (kmon_spin_barrier_lsense 2) (klsense_start kb0 3 0 2) [KTh 0, KTh 0, KTh 1] = Some s
     \<and> kpc (kthr s 1) = KLock \<and> kb_lock (kb s) = Some 0
     \<and> reachable (kmon_spin_barrier_lsense 2) s u \<and> 5 \<le> kreturns (kthr u 1)"
proof -
  obtain s where s: "run (kmon_spin_barrier_lsense 2) (klsense_start kb0 3 0 2) [KTh 0, KTh 0, KTh 1] = Some s"
    and h: "kpc (kthr s 1) = KLock" "kb_lock (kb s) = Some 0"
    by (simp add: kmon_spin_barrier_lsense_def klsense_eval)
  obtain u where "reachable (klsense_step Spin 2) s u" "\<forall>i<2. kreturns (kthr s i) + 5 \<le> kreturns (kthr u i)"
    using kmon_barrier_never_deadlocks [of 2 Spin kb0 3 0 s 5] run_reachable [OF s]
    by (auto simp: kmon_spin_barrier_lsense_def)
  then have "reachable (kmon_spin_barrier_lsense 2) s u" "kreturns (kthr s 1) + 5 \<le> kreturns (kthr u 1)"
    unfolding kmon_spin_barrier_lsense_def by (blast, metis one_less_numeral_iff semiring_norm(76))
  then show ?thesis using s h add_leE by blast
qed

end
