(* ===== verification/Barrier_Central.thy ===== *)
theory Barrier_Central
  imports Barrier_Lsense Barrier_Locked
begin

text \<open>
  The barriers without a local sense: \<open>spin_barrier\<close> of \<open>mwait_barrier/synch.h\<close> and of \<open>spin.c\<close>.
  The two have the same statements over structures of different widths and start from a
  different \<open>release_flag\<close>.  A step is one access to the shared barrier; the lock is the abstract
  lock of \<open>Mutex\<close>.
\<close>

section \<open>The barrier and its threads\<close>

record central =
  c_lock :: abs_lock
  c_flag :: u32
  c_count :: u32
  c_total :: u32

datatype cpc =
    C_Idle     \<comment> \<open>outside a call\<close>
  | C_Lock     \<comment> \<open>in the lock routine\<close>
  | C_First    \<comment> \<open>before \<open>current_count == 0\<close>\<close>
  | C_Clear    \<comment> \<open>before \<open>release_flag = 0\<close>\<close>
  | C_Load     \<comment> \<open>before the load of \<open>current_count++\<close>\<close>
  | C_Store    \<comment> \<open>before the store of \<open>current_count++\<close>\<close>
  | C_Unlock   \<comment> \<open>before the release of the lock\<close>
  | C_Test     \<comment> \<open>before \<open>current_count == nthreads\<close>\<close>
  | C_Reset    \<comment> \<open>before \<open>current_count = 0\<close>\<close>
  | C_Set      \<comment> \<open>before \<open>release_flag = 1\<close>\<close>
  | C_Wait     \<comment> \<open>in \<open>spin_on_condition(&release_flag, 1)\<close>\<close>

record cthread =
  cpc :: cpc
  ctmp :: u32
  ccalls :: nat
  creturns :: nat

record csys =
  cb :: central
  cthr :: "tid \<Rightarrow> cthread"

definition creturn :: "cthread \<Rightarrow> cthread" where
  "creturn t = t\<lparr>cpc := C_Idle, creturns := Suc (creturns t)\<rparr>"

definition central_thread :: "csys \<Rightarrow> tid \<Rightarrow> csys option" where
  "central_thread s i =
     (let t = cthr s i; b = cb s;
          go = (\<lambda>b' t'. Some (s\<lparr>cb := b', cthr := (cthr s)(i := t')\<rparr>)) in
      case cpc t of
        C_Idle \<Rightarrow> go b (t\<lparr>ccalls := Suc (ccalls t), cpc := C_Lock\<rparr>)
      | C_Lock \<Rightarrow> (if c_lock b = None then go (b\<lparr>c_lock := Some i\<rparr>) (t\<lparr>cpc := C_First\<rparr>) else None)
      | C_First \<Rightarrow> go b (t\<lparr>cpc := if c_count b = 0 then C_Clear else C_Load\<rparr>)
      | C_Clear \<Rightarrow> go (b\<lparr>c_flag := 0\<rparr>) (t\<lparr>cpc := C_Load\<rparr>)
      | C_Load \<Rightarrow> go b (t\<lparr>ctmp := c_count b, cpc := C_Store\<rparr>)
      | C_Store \<Rightarrow> go (b\<lparr>c_count := ctmp t + 1\<rparr>) (t\<lparr>cpc := C_Unlock\<rparr>)
      | C_Unlock \<Rightarrow> go (b\<lparr>c_lock := None\<rparr>) (t\<lparr>cpc := C_Test\<rparr>)
      | C_Test \<Rightarrow> go b (t\<lparr>cpc := if c_count b = c_total b then C_Reset else C_Wait\<rparr>)
      | C_Reset \<Rightarrow> go (b\<lparr>c_count := 0\<rparr>) (t\<lparr>cpc := C_Set\<rparr>)
      | C_Set \<Rightarrow> go (b\<lparr>c_flag := 1\<rparr>) (creturn t)
      | C_Wait \<Rightarrow> go b (if c_flag b = 1 then creturn t else t))"

definition central_step :: "nat \<Rightarrow> csys \<Rightarrow> tid \<Rightarrow> csys option" where
  "central_step n s i = (if i < n then central_thread s i else None)"

text \<open>
  The two barriers, from the state their initialisers leave: \<open>release_flag\<close> is 1 in \<open>synch.h\<close> and
  0 in \<open>spin.c\<close>.
\<close>

definition spin_barrier_nosense :: "nat \<Rightarrow> csys \<Rightarrow> tid \<Rightarrow> csys option" where
  "spin_barrier_nosense = central_step"

definition kmon_spin_barrier_nosense :: "nat \<Rightarrow> csys \<Rightarrow> tid \<Rightarrow> csys option" where
  "kmon_spin_barrier_nosense = central_step"

definition central_start :: "u32 \<Rightarrow> nat \<Rightarrow> csys" where
  "central_start f n = \<lparr>cb = \<lparr>c_lock = None, c_flag = f, c_count = 0, c_total = word_of_nat n\<rparr>,
     cthr = (\<lambda>_. \<lparr>cpc = C_Idle, ctmp = 0, ccalls = 0, creturns = 0\<rparr>)\<rparr>"

text \<open>What the two structures hold, seen by this model.\<close>

definition view_spin_barrier :: "spin_barrier \<Rightarrow> central" where
  "view_spin_barrier b = \<lparr>c_lock = (if b_lock b = SPIN_LOCK_UNLOCKED then None else Some 0),
     c_flag = release_flag b, c_count = current_count b, c_total = nthreads b\<rparr>"

definition view_kmon_spin_barrier :: "kmon_spin_barrier \<Rightarrow> central" where
  "view_kmon_spin_barrier b = \<lparr>c_lock = kb_lock b, c_flag = flag_seen b,
     c_count = kb_current_count b, c_total = kb_total b\<rparr>"

lemma central_start_views:
  "cb (central_start 1 n) = view_spin_barrier (spin_barrier_init b (word_of_nat n))"
  "cb (central_start 0 n) = view_kmon_spin_barrier (kmon_spin_barrier_init b' (word_of_nat n))"
  by (simp_all add: central_start_def view_spin_barrier_def spin_barrier_init_def spin_lock_init_def
      view_kmon_spin_barrier_def kmon_spin_barrier_init_def flag_seen_def)

section \<open>One round\<close>

text \<open>A thread has arrived when it is past its increment.\<close>

definition carrived :: "cthread \<Rightarrow> bool" where
  "carrived t \<longleftrightarrow> ccalls t = 1 \<and> cpc t \<notin> {C_Lock, C_First, C_Clear, C_Load, C_Store}"

definition c_in_lock :: "cpc \<Rightarrow> bool" where
  "c_in_lock p \<longleftrightarrow> p \<in> {C_First, C_Clear, C_Load, C_Store, C_Unlock}"

definition c_base :: "nat \<Rightarrow> csys \<Rightarrow> bool" where
  "c_base n s \<longleftrightarrow> c_total (cb s) = word_of_nat n
     \<and> (\<forall>i<n. c_in_lock (cpc (cthr s i)) \<longleftrightarrow> c_lock (cb s) = Some i)
     \<and> (\<forall>i<n. ccalls (cthr s i) = 0 \<and> cpc (cthr s i) = C_Idle \<and> creturns (cthr s i) = 0
          \<or> ccalls (cthr s i) = 1 \<and> creturns (cthr s i) = of_bool (cpc (cthr s i) = C_Idle))"

text \<open>While somebody is missing the count is exact, the flag is down and nobody has passed.\<close>

definition c_exact :: "nat \<Rightarrow> csys \<Rightarrow> bool" where
  "c_exact n s \<longleftrightarrow> unat (c_count (cb s)) = count_threads n (\<lambda>i. carrived (cthr s i))
     \<and> (\<forall>i<n. cpc (cthr s i) = C_Store \<longrightarrow> ctmp (cthr s i) = c_count (cb s))
     \<and> (\<forall>i<n. cpc (cthr s i) \<in> {C_Load, C_Store} \<or> carrived (cthr s i) \<longrightarrow> c_flag (cb s) = 0)
     \<and> (\<forall>i<n. cpc (cthr s i) \<notin> {C_Reset, C_Set} \<and> creturns (cthr s i) = 0)"

definition c_missing :: "nat \<Rightarrow> csys \<Rightarrow> bool" where
  "c_missing n s \<longleftrightarrow> (\<exists>i<n. \<not> carrived (cthr s i))"

definition one_round :: "nat \<Rightarrow> csys \<Rightarrow> bool" where
  "one_round n s \<longleftrightarrow> c_base n s \<and> (c_missing n s \<longrightarrow> c_exact n s)"

lemma one_round_start: "one_round n (central_start f n)"
proof -
  have "count_threads n (\<lambda>i. carrived (cthr (central_start f n) i)) = 0"
    by (simp add: count_threads_zero carrived_def central_start_def)
  then show ?thesis
    by (simp add: one_round_def c_base_def c_exact_def central_start_def c_in_lock_def carrived_def)
qed

text \<open>A move of thread \<open>i\<close> that does not touch count and flag.\<close>

lemma c_exact_quiet:
  assumes "c_exact n s" and i: "i < n"
    and b: "c_count b = c_count (cb s)" "c_flag b = c_flag (cb s)"
    and a: "carrived t = carrived (cthr s i)" and "creturns t = 0" "cpc t \<notin> {C_Reset, C_Set}"
    and "cpc t = C_Store \<Longrightarrow> ctmp t = c_count (cb s)"
    and "cpc t \<in> {C_Load, C_Store} \<Longrightarrow> c_flag (cb s) = 0"
  shows "c_exact n (s\<lparr>cb := b, cthr := (cthr s)(i := t)\<rparr>)"
proof -
  have "carrived (((cthr s)(i := t)) j) = carrived (cthr s j)" for j using a by simp
  then show ?thesis using assms unfolding c_exact_def by (auto simp del: fun_upd_apply) (auto split: if_splits)
qed

lemma c_base_update:
  assumes "c_base n s" and "i < n" and "c_total b = c_total (cb s)"
    and "c_lock b = (if c_in_lock (cpc t) then Some i else if c_in_lock (cpc (cthr s i)) then None else c_lock (cb s))"
    and "c_in_lock (cpc t) \<Longrightarrow> c_lock (cb s) = None \<or> c_lock (cb s) = Some i"
    and "ccalls t = 1 \<and> creturns t = of_bool (cpc t = C_Idle)"
  shows "c_base n (s\<lparr>cb := b, cthr := (cthr s)(i := t)\<rparr>)"
  using assms unfolding c_base_def by auto

lemma c_base_thread:
  assumes base: "c_base n s" and i: "i < n" and st: "central_thread s i = Some s'"
    and one: "ccalls (cthr s' i) \<le> 1"
  shows "c_base n s'"
proof -
  have l: "c_in_lock (cpc (cthr s i)) \<longleftrightarrow> c_lock (cb s) = Some i"
    and c: "ccalls (cthr s i) = 0 \<and> cpc (cthr s i) = C_Idle \<and> creturns (cthr s i) = 0
      \<or> ccalls (cthr s i) = 1 \<and> creturns (cthr s i) = of_bool (cpc (cthr s i) = C_Idle)"
    using base i by (auto simp: c_base_def)
  have "\<exists>b t. s' = s\<lparr>cb := b, cthr := (cthr s)(i := t)\<rparr> \<and> c_total b = c_total (cb s)
      \<and> c_lock b = (if c_in_lock (cpc t) then Some i else if c_in_lock (cpc (cthr s i)) then None else c_lock (cb s))
      \<and> (c_in_lock (cpc t) \<longrightarrow> c_lock (cb s) = None \<or> c_lock (cb s) = Some i)
      \<and> ccalls t = 1 \<and> creturns t = of_bool (cpc t = C_Idle)"
    using st one l c
    by (cases "cpc (cthr s i)")
      (auto simp: central_thread_def Let_def c_in_lock_def creturn_def split: if_splits intro!: exI)
  then show ?thesis using c_base_update [OF base i] by blast
qed

text \<open>Threads that have arrived stay so; an exact state stays exact while somebody is missing.\<close>

lemma c_exact_thread:
  assumes base: "c_base n s" and ex: "c_exact n s" and i: "i < n" and n: "n < 2 ^ 32"
    and miss: "c_missing n s" and one: "ccalls (cthr s' i) \<le> 1"
    and st: "central_thread s i = Some s'"
  shows "c_exact n s'"
proof -
  let ?t = "cthr s i" and ?b = "cb s"
  have c: "ccalls ?t = 0 \<and> cpc ?t = C_Idle \<or> ccalls ?t = 1" and r: "creturns ?t = 0"
    and p: "cpc ?t \<notin> {C_Reset, C_Set}"
    using base ex i by (auto simp: c_base_def c_exact_def)
  have cnt: "unat (c_count ?b) = count_threads n (\<lambda>i. carrived (cthr s i))"
    and fl: "cpc ?t \<in> {C_Load, C_Store} \<or> carrived ?t \<Longrightarrow> c_flag ?b = 0"
    using ex i by (auto simp: c_exact_def)
  have less: "count_threads n (\<lambda>i. carrived (cthr s i)) < n"
    using miss count_threads_le [of n] count_threads_full [of n "\<lambda>i. carrived (cthr s i)"]
    by (auto simp: c_missing_def le_neq_implies_less)
  note quiet = c_exact_quiet [OF ex i]
  show ?thesis
  proof (cases "cpc ?t")
    case C_Idle
    then have "ccalls ?t = 0" using c one st by (auto simp: central_thread_def Let_def)
    then show ?thesis
      using st C_Idle r quiet [of ?b "?t\<lparr>ccalls := Suc (ccalls ?t), cpc := C_Lock\<rparr>"]
      by (auto simp: central_thread_def Let_def carrived_def)
  next
    case C_Lock
    then show ?thesis
      using st r quiet [of "?b\<lparr>c_lock := Some i\<rparr>" "?t\<lparr>cpc := C_First\<rparr>"]
      by (auto simp: central_thread_def Let_def carrived_def split: if_splits)
  next
    case C_First
    have "c_flag ?b = 0" if "c_count ?b \<noteq> 0"
    proof -
      have "count_threads n (\<lambda>i. carrived (cthr s i)) \<noteq> 0" using that cnt by (metis unat_eq_zero)
      then show ?thesis using ex by (auto simp: count_threads_zero c_exact_def)
    qed
    then show ?thesis
      using st C_First r quiet [of ?b "?t\<lparr>cpc := C_Clear\<rparr>"] quiet [of ?b "?t\<lparr>cpc := C_Load\<rparr>"]
      by (auto simp: central_thread_def Let_def carrived_def split: if_splits)
  next
    case C_Clear
    have "c_exact n (s\<lparr>cb := ?b\<lparr>c_flag := 0\<rparr>\<rparr>)" using ex by (simp add: c_exact_def)
    then show ?thesis
      using st C_Clear r c_exact_quiet [of n "s\<lparr>cb := ?b\<lparr>c_flag := 0\<rparr>\<rparr>" i "?b\<lparr>c_flag := 0\<rparr>" "?t\<lparr>cpc := C_Load\<rparr>"] i
      by (auto simp: central_thread_def Let_def carrived_def)
  next
    case C_Load
    then show ?thesis
      using st r fl quiet [of ?b "?t\<lparr>ctmp := c_count ?b, cpc := C_Store\<rparr>"]
      by (auto simp: central_thread_def Let_def carrived_def)
  next
    case C_Store
    let ?t' = "?t\<lparr>cpc := C_Unlock\<rparr>"
    have s': "s' = s\<lparr>cb := ?b\<lparr>c_count := ctmp ?t + 1\<rparr>, cthr := (cthr s)(i := ?t')\<rparr>"
      using st C_Store by (simp add: central_thread_def Let_def)
    have tmp: "ctmp ?t = c_count ?b" using ex i C_Store by (auto simp: c_exact_def)
    have "carrived ?t' \<and> \<not> carrived ?t" using c C_Store by (auto simp: carrived_def)
    then have "count_threads n (\<lambda>j. carrived (((cthr s)(i := ?t')) j)) = count_threads n (\<lambda>j. carrived (cthr s j)) + 1"
      using count_threads_update [OF i, of "\<lambda>j. carrived (cthr s j)" "\<lambda>j. carrived (((cthr s)(i := ?t')) j)"] by simp
    moreover have "unat (ctmp ?t + 1) = count_threads n (\<lambda>j. carrived (cthr s j)) + 1"
      using tmp cnt less n by (simp add: unat_inc_word)
    ultimately have "unat (c_count (cb s')) = count_threads n (\<lambda>j. carrived (cthr s' j))"
      by (simp add: s')
    moreover have "cpc (cthr s j) \<noteq> C_Store" if "j < n" "j \<noteq> i" for j
    proof
      assume "cpc (cthr s j) = C_Store"
      then have "c_in_lock (cpc (cthr s j))" "c_in_lock (cpc ?t)" using C_Store by (simp_all add: c_in_lock_def)
      then have "c_lock ?b = Some j" "c_lock ?b = Some i" using base that(1) i by (simp_all add: c_base_def)
      then show False using that(2) by simp
    qed
    ultimately show ?thesis
      using ex fl r C_Store unfolding c_exact_def s' by auto
  next
    case C_Unlock
    then show ?thesis
      using st r quiet [of "?b\<lparr>c_lock := None\<rparr>" "?t\<lparr>cpc := C_Test\<rparr>"]
      by (auto simp: central_thread_def Let_def carrived_def)
  next
    case C_Test
    have "unat (c_total ?b) = n" using base n by (simp add: c_base_def unat_of_nat_u32)
    then have "c_count ?b \<noteq> c_total ?b" using cnt less by auto
    then show ?thesis
      using st C_Test r quiet [of ?b "?t\<lparr>cpc := C_Wait\<rparr>"]
      by (auto simp: central_thread_def Let_def carrived_def)
  next
    case C_Wait
    then have "c_flag ?b = 0" using fl c by (simp add: carrived_def)
    then show ?thesis using st C_Wait ex by (auto simp: central_thread_def Let_def)
  qed (use p in auto)
qed

lemma central_step_mono:
  assumes "central_step n s l = Some s'"
  shows "ccalls (cthr s i) \<le> ccalls (cthr s' i) \<and> (carrived (cthr s i) \<and> ccalls (cthr s' i) \<le> 1 \<longrightarrow> carrived (cthr s' i))"
  using assms
  by (cases "cpc (cthr s l)")
    (auto simp: central_step_def central_thread_def Let_def carrived_def creturn_def split: if_splits)

lemma one_round_step:
  assumes inv: "one_round n s" and n: "n < 2 ^ 32" and st: "central_step n s l = Some s'"
    and one: "\<forall>i<n. ccalls (cthr s' i) \<le> 1"
  shows "one_round n s'"
proof -
  have l: "l < n" "central_thread s l = Some s'" using st by (auto simp: central_step_def split: if_splits)
  have base: "c_base n s" using inv by (simp add: one_round_def)
  have "c_missing n s" if "c_missing n s'"
    using that central_step_mono [OF st] one by (auto simp: c_missing_def)
  then have "c_exact n s'" if "c_missing n s'"
    using that inv c_exact_thread [OF base _ l(1) n _ _ l(2)] one l(1) by (simp add: one_round_def)
  then show ?thesis using c_base_thread [OF base l] one l(1) by (simp add: one_round_def)
qed

lemma one_round_reachable:
  assumes "reachable (central_step n) (central_start f n) s" and "n < 2 ^ 32"
    and "\<forall>i<n. ccalls (cthr s i) \<le> 1"
  shows "one_round n s"
proof -
  have "(\<forall>i<n. ccalls (cthr s i) \<le> 1) \<longrightarrow> one_round n s"
    using assms(1)
  proof (rule reachable_invariant)
    show "(\<forall>i<n. ccalls (cthr (central_start f n) i) \<le> 1) \<longrightarrow> one_round n (central_start f n)"
      using one_round_start by blast
    show "(\<forall>i<n. ccalls (cthr t i) \<le> 1) \<longrightarrow> one_round n t"
      if "(\<forall>i<n. ccalls (cthr s i) \<le> 1) \<longrightarrow> one_round n s" "central_step n s l = Some t" for s l t
      using that central_step_mono [OF that(2)] one_round_step [OF _ assms(2) that(2)] le_trans by blast
  qed
  then show ?thesis using assms(3) by blast
qed

section \<open>The round can be finished\<close>

text \<open>
  Once all have arrived the flag is up, or somebody is about to put it up, or the count is still full and somebody will
  look at it.
\<close>

definition c_full :: "nat \<Rightarrow> csys \<Rightarrow> bool" where
  "c_full n s \<longleftrightarrow> c_flag (cb s) = 1 \<or> (\<exists>i<n. cpc (cthr s i) \<in> {C_Reset, C_Set})
     \<or> c_count (cb s) = c_total (cb s) \<and> (\<exists>i<n. cpc (cthr s i) \<in> {C_Unlock, C_Test})"

definition live_round :: "nat \<Rightarrow> csys \<Rightarrow> bool" where
  "live_round n s \<longleftrightarrow> one_round n s \<and> (\<forall>i<n. ccalls (cthr s i) \<le> 1)
     \<and> (\<forall>i. c_lock (cb s) = Some i \<longrightarrow> i < n) \<and> (c_missing n s \<or> n = 0 \<or> c_full n s)"

text \<open>The last to arrive leaves the count full.\<close>

lemma c_full_arrival:
  assumes ex: "c_exact n s'" and base: "c_base n s'" and full: "\<not> c_missing n s'" and n: "n < 2 ^ 32"
    and i: "i < n" "\<not> carrived (cthr s i)" "central_thread s i = Some s'" "ccalls (cthr s' i) \<le> 1"
  shows "c_full n s'"
proof -
  have "unat (c_count (cb s')) = n"
    using ex full count_threads_full [of n "\<lambda>i. carrived (cthr s' i)"] by (simp add: c_exact_def c_missing_def)
  moreover have "unat (c_total (cb s')) = n" using base n by (simp add: c_base_def unat_of_nat_u32)
  ultimately have "c_count (cb s') = c_total (cb s')" by (simp add: word_unat_eq_iff)
  moreover have "carrived (cthr s' i)" using full i(1) by (auto simp: c_missing_def)
  then have "cpc (cthr s' i) = C_Unlock"
    using i by (cases "cpc (cthr s i)") (auto simp: central_thread_def Let_def carrived_def creturn_def split: if_splits)
  ultimately show ?thesis using i(1) by (auto simp: c_full_def)
qed

lemma c_full_step:
  assumes full: "c_full n s" and st: "central_thread s i = Some s'" and i: "i < n" and a: "carrived (cthr s i)"
    and one: "ccalls (cthr s' i) \<le> 1"
  shows "c_full n s'"
proof -
  have "cpc (cthr s i) \<in> {C_Unlock, C_Test, C_Reset, C_Set, C_Wait}"
    using a st one by (cases "cpc (cthr s i)") (auto simp: carrived_def central_thread_def Let_def)
  then consider "cpc (cthr s i) = C_Unlock" | "cpc (cthr s i) = C_Test" | "cpc (cthr s i) = C_Reset"
    | "cpc (cthr s i) = C_Set" | "cpc (cthr s i) = C_Wait" by auto
  moreover have keep: "\<exists>j<n. cpc (cthr s' j) \<in> {C_Reset, C_Set}"
    if e: "\<exists>j<n. cpc (cthr s j) \<in> {C_Reset, C_Set}" "cpc (cthr s i) \<notin> {C_Reset, C_Set}"
  proof -
    obtain j where j: "j < n" "cpc (cthr s j) \<in> {C_Reset, C_Set}" using e(1) by blast
    then have "j \<noteq> i" using e(2) by auto
    then have "cthr s' j = cthr s j"
      using st by (cases "cpc (cthr s i)") (auto simp: central_thread_def Let_def split: if_splits)
    then show ?thesis using j by (intro exI [of _ j]) simp
  qed
  ultimately show ?thesis
  proof cases
    case 1
    then have "cb s' = (cb s)\<lparr>c_lock := None\<rparr>" "cpc (cthr s' i) = C_Test"
      using st by (auto simp: central_thread_def Let_def)
    then show ?thesis using full i keep 1 unfolding c_full_def by auto
  next
    case 2
    then have "cb s' = cb s" "cpc (cthr s' i) = (if c_count (cb s) = c_total (cb s) then C_Reset else C_Wait)"
      using st by (auto simp: central_thread_def Let_def)
    then show ?thesis using full i keep 2 unfolding c_full_def by (auto split: if_splits)
  next
    case 3
    then have "cpc (cthr s' i) = C_Set" using st by (auto simp: central_thread_def Let_def)
    then show ?thesis using i by (auto simp: c_full_def)
  next
    case 4
    then have "c_flag (cb s') = 1" using st by (auto simp: central_thread_def Let_def)
    then show ?thesis by (simp add: c_full_def)
  next
    case 5
    have look: "\<exists>j<n. cpc (cthr s' j) \<in> {C_Unlock, C_Test}" if e: "\<exists>j<n. cpc (cthr s j) \<in> {C_Unlock, C_Test}"
    proof -
      obtain j where j: "j < n" "cpc (cthr s j) \<in> {C_Unlock, C_Test}" using e by blast
      then have "j \<noteq> i" using 5 by auto
      then have "cthr s' j = cthr s j" using st 5 by (auto simp: central_thread_def Let_def)
      then show ?thesis using j by (intro exI [of _ j]) simp
    qed
    have "cb s' = cb s" using st 5 by (auto simp: central_thread_def Let_def)
    then show ?thesis using full keep look 5 unfolding c_full_def by auto
  qed
qed

lemma live_round_step:
  assumes live: "live_round n s" and n: "n < 2 ^ 32" and st: "central_step n s l = Some s'"
    and one: "\<forall>i<n. ccalls (cthr s' i) \<le> 1"
  shows "live_round n s'"
proof -
  have l: "l < n" "central_thread s l = Some s'" using st by (auto simp: central_step_def split: if_splits)
  have inv: "one_round n s" using live by (simp add: live_round_def)
  have inv': "one_round n s'" by (rule one_round_step [OF inv n st one])
  have "c_full n s'" if "\<not> c_missing n s'"
  proof (cases "c_missing n s")
    case True
    have base: "c_base n s" and ex: "c_exact n s" using inv True by (simp_all add: one_round_def)
    have ex': "c_exact n s'" using c_exact_thread [OF base ex l(1) n True _ l(2)] one l(1) by simp
    have "cthr s' j = cthr s j" if "j \<noteq> l" for j
      using l(2) that by (cases "cpc (cthr s l)") (auto simp: central_thread_def Let_def split: if_splits)
    then have "\<not> carrived (cthr s l)" using True \<open>\<not> c_missing n s'\<close> by (auto simp: c_missing_def) metis
    then show ?thesis
      using c_full_arrival [OF ex' _ that n l(1) _ l(2)] inv' one l(1) by (simp add: one_round_def)
  next
    case False
    then have "c_full n s" "carrived (cthr s l)" using live l(1) by (auto simp: live_round_def c_missing_def)
    then show ?thesis using c_full_step [OF _ l(2,1)] one l(1) by simp
  qed
  moreover have "i < n" if "c_lock (cb s') = Some i" for i
    using live l that by (cases "cpc (cthr s l)")
      (auto simp: live_round_def central_thread_def Let_def split: if_splits)
  ultimately show ?thesis using inv' one by (auto simp: live_round_def)
qed

lemma live_round_reachable:
  assumes "reachable (central_step n) (central_start f n) s" and "n < 2 ^ 32"
    and "\<forall>i<n. ccalls (cthr s i) \<le> 1"
  shows "live_round n s"
proof -
  have "(\<forall>i<n. ccalls (cthr s i) \<le> 1) \<longrightarrow> live_round n s"
    using assms(1)
  proof (rule reachable_invariant)
    have "c_missing n (central_start f n) \<or> n = 0" by (auto simp: c_missing_def central_start_def carrived_def)
    then show "(\<forall>i<n. ccalls (cthr (central_start f n) i) \<le> 1) \<longrightarrow> live_round n (central_start f n)"
      using one_round_start by (auto simp: live_round_def) (simp_all add: central_start_def)
    show "(\<forall>i<n. ccalls (cthr t i) \<le> 1) \<longrightarrow> live_round n t"
      if "(\<forall>i<n. ccalls (cthr s i) \<le> 1) \<longrightarrow> live_round n s" "central_step n s l = Some t" for s l t
      using that central_step_mono [OF that(2)] live_round_step [OF _ assms(2) that(2)] le_trans by blast
  qed
  then show ?thesis using assms(3) by blast
qed

text \<open>Statements a thread still executes in its first call.\<close>

fun c_rank :: "cpc \<Rightarrow> nat" where
  "c_rank C_Idle = 0"
| "c_rank C_Lock = 10"
| "c_rank C_First = 9"
| "c_rank C_Clear = 8"
| "c_rank C_Load = 7"
| "c_rank C_Store = 6"
| "c_rank C_Unlock = 5"
| "c_rank C_Test = 4"
| "c_rank C_Reset = 3"
| "c_rank C_Set = 2"
| "c_rank C_Wait = 1"

definition c_left :: "cthread \<Rightarrow> nat" where
  "c_left t = (if ccalls t = 0 then 11 else c_rank (cpc t))"

definition c_measure :: "nat \<Rightarrow> csys \<Rightarrow> nat" where
  "c_measure n s = (\<Sum>i<n. c_left (cthr s i))"

text \<open>A thread that has not returned and is not held up by the lock or the flag gets nearer to its return.\<close>

lemma c_moves:
  assumes base: "c_base n s" and i: "i < n" and "creturns (cthr s i) = 0"
    and "cpc (cthr s i) = C_Lock \<Longrightarrow> c_lock (cb s) = None" and "cpc (cthr s i) = C_Wait \<Longrightarrow> c_flag (cb s) = 1"
  shows "\<exists>s'. central_step n s i = Some s' \<and> c_measure n s' < c_measure n s \<and> ccalls (cthr s' i) \<le> 1
    \<and> (\<forall>j. j \<noteq> i \<longrightarrow> cthr s' j = cthr s j)"
proof -
  have c: "ccalls (cthr s i) = 0 \<and> cpc (cthr s i) = C_Idle \<or> ccalls (cthr s i) = 1 \<and> cpc (cthr s i) \<noteq> C_Idle"
    using base i assms(3) by (fastforce simp: c_base_def)
  have "\<exists>s'. central_step n s i = Some s' \<and> c_left (cthr s' i) < c_left (cthr s i) \<and> ccalls (cthr s' i) \<le> 1
    \<and> (\<forall>j. j \<noteq> i \<longrightarrow> cthr s' j = cthr s j)"
    using c assms(4,5) i
    by (cases "cpc (cthr s i)") (auto simp: central_step_def central_thread_def Let_def c_left_def creturn_def)
  then obtain s' where s': "central_step n s i = Some s'" "c_left (cthr s' i) < c_left (cthr s i)"
      "ccalls (cthr s' i) \<le> 1" "\<forall>j. j \<noteq> i \<longrightarrow> cthr s' j = cthr s j" by blast
  have "c_measure n s' < c_measure n s"
    unfolding c_measure_def
    by (rule sum_strict_mono_ex1) (use s'(2,4) i in \<open>auto intro!: bexI [of _ i] simp: order_le_less\<close>)
  with s' show ?thesis by blast
qed

text \<open>As long as somebody has not returned, some thread moves.\<close>

lemma live_round_moves:
  assumes live: "live_round n s" and k: "k < n" "creturns (cthr s k) = 0"
  shows "\<exists>i s'. central_step n s i = Some s' \<and> c_measure n s' < c_measure n s \<and> (\<forall>j<n. ccalls (cthr s' j) \<le> 1)"
proof (rule ccontr)
  assume stuck: "\<not> ?thesis"
  have base: "c_base n s" and one: "\<forall>i<n. ccalls (cthr s i) \<le> 1" using live by (simp_all add: live_round_def one_round_def)
  have held: "cpc (cthr s i) = C_Lock \<and> c_lock (cb s) \<noteq> None \<or> cpc (cthr s i) = C_Wait \<and> c_flag (cb s) \<noteq> 1"
    if "i < n" "creturns (cthr s i) = 0" for i
    using c_moves [OF base that] stuck one that(1) by metis
  have ret: "creturns (cthr s i) = 0 \<or> carrived (cthr s i) \<and> cpc (cthr s i) = C_Idle" if "i < n" for i
    using base that by (fastforce simp: c_base_def carrived_def)
  have "\<not> c_in_lock (cpc (cthr s i))" if "i < n" for i
    using held [OF that] ret [OF that] by (auto simp: c_in_lock_def)
  then have free: "c_lock (cb s) \<noteq> Some i" if "i < n" for i using base that by (auto simp: c_base_def)
  show False
  proof (cases "c_missing n s")
    case True
    then obtain i where i: "i < n" "\<not> carrived (cthr s i)" by (auto simp: c_missing_def)
    then have "cpc (cthr s i) = C_Lock \<and> c_lock (cb s) \<noteq> None"
      using held [OF i(1)] ret [OF i(1)] base by (fastforce simp: c_base_def carrived_def)
    then show False using free live by (auto simp: live_round_def)
  next
    case False
    then have "c_full n s" using live k(1) by (auto simp: live_round_def)
    moreover have "cpc (cthr s i) \<notin> {C_Reset, C_Set, C_Unlock, C_Test}" if "i < n" for i
      using held [OF that] ret [OF that] by auto
    ultimately have "c_flag (cb s) = 1" by (auto simp: c_full_def)
    then have "cpc (cthr s k) = C_Lock" using held [OF k] by simp
    then have "\<not> carrived (cthr s k)" by (simp add: carrived_def)
    then show False using False k(1) by (auto simp: c_missing_def)
  qed
qed

lemma live_round_finishes:
  assumes "live_round n s" and n: "n < 2 ^ 32"
  shows "\<exists>ls s'. run (central_step n) s ls = Some s' \<and> (\<forall>i<n. ccalls (cthr s' i) = 1 \<and> creturns (cthr s' i) = 1)"
  using assms(1)
proof (induction "c_measure n s" arbitrary: s rule: less_induct)
  case less
  show ?case
  proof (cases "\<exists>k<n. creturns (cthr s k) = 0")
    case True
    then obtain i u where u: "central_step n s i = Some u" "c_measure n u < c_measure n s" "\<forall>j<n. ccalls (cthr u j) \<le> 1"
      using live_round_moves [OF less.prems] by blast
    obtain ls s' where "run (central_step n) u ls = Some s'" "\<forall>i<n. ccalls (cthr s' i) = 1 \<and> creturns (cthr s' i) = 1"
      using less.hyps [OF u(2) live_round_step [OF less.prems n u(1,3)]] by blast
    then show ?thesis using u(1) by (intro exI [of _ "i # ls"] exI [of _ s']) simp
  next
    case False
    then have "\<forall>i<n. ccalls (cthr s i) = 1 \<and> creturns (cthr s i) = 1"
      using less.prems by (fastforce simp: live_round_def one_round_def c_base_def)
    then show ?thesis by (intro exI [of _ "[]"] exI [of _ s]) simp
  qed
qed

section \<open>Properties\<close>

text \<open>
  C28.  Used once, the barriers without a local sense are right: as long as no thread makes a
  second call, a call returns only after all threads have made theirs, and from every such state there is a way on in which
  every thread makes its call and returns from it; for fewer than 2^32 threads, any interleaving and any initial
  value of \<open>release_flag\<close>, so for \<open>synch.h\<close> and \<open>spin.c\<close> alike.
\<close>

theorem nosense_barrier_one_round:
  assumes "barrier \<in> {spin_barrier_nosense, kmon_spin_barrier_nosense}"
    and "n < 2 ^ 32" and "reachable (barrier n) (central_start f n) s"
    and "\<forall>i<n. ccalls (cthr s i) \<le> 1"
  shows "(\<forall>i<n. creturns (cthr s i) = 1 \<longrightarrow> (\<forall>j<n. ccalls (cthr s j) = 1))
    \<and> (\<exists>ls s'. run (barrier n) s ls = Some s' \<and> (\<forall>i<n. ccalls (cthr s' i) = 1 \<and> creturns (cthr s' i) = 1))"
proof -
  have b: "barrier n = central_step n"
    using assms(1) by (auto simp: spin_barrier_nosense_def kmon_spin_barrier_nosense_def)
  then have live: "live_round n s" using live_round_reachable assms(2-4) by metis
  have "ccalls (cthr s j) = 1" if "i < n" "creturns (cthr s i) = 1" "j < n" for i j
    using live that by (auto simp: live_round_def one_round_def c_exact_def c_missing_def carrived_def)
  then show ?thesis using live_round_finishes [OF live assms(2)] b by auto
qed

lemmas central_eval = central_start_def central_step_def central_thread_def Let_def creturn_def
  spin_barrier_nosense_def kmon_spin_barrier_nosense_def

text \<open>\<open>arrive i k\<close>: thread \<open>i\<close> makes \<open>k\<close> steps.\<close>

definition arrive :: "tid \<Rightarrow> nat \<Rightarrow> tid list" where
  "arrive i k = map (\<lambda>_. i) [0..<k]"

lemmas schedule_eval = arrive_def upt_rec [where j = "numeral k" for k]

lemma nosense_barrier_one_round_witness:
  "\<exists>s. run (spin_barrier_nosense 2) (central_start 1 2) (arrive 0 8 @ arrive 1 9) = Some s
     \<and> creturns (cthr s 1) = 1 \<and> cpc (cthr s 0) = C_Wait \<and> ccalls (cthr s 0) = 1
     \<and> (\<exists>ls s'. run (spin_barrier_nosense 2) s ls = Some s' \<and> creturns (cthr s' 0) = 1)"
proof -
  obtain s where s: "run (spin_barrier_nosense 2) (central_start 1 2) (arrive 0 8 @ arrive 1 9) = Some s"
    and h: "creturns (cthr s 1) = 1" "cpc (cthr s 0) = C_Wait" "\<forall>i<2. ccalls (cthr s i) \<le> 1"
    by (simp add: schedule_eval central_eval less_2_cases_iff)
  have "\<forall>i<2. creturns (cthr s i) = 1 \<longrightarrow> (\<forall>j<2. ccalls (cthr s j) = 1)"
    and "\<exists>ls s'. run (spin_barrier_nosense 2) s ls = Some s' \<and> (\<forall>i<2. ccalls (cthr s' i) = 1 \<and> creturns (cthr s' i) = 1)"
    using nosense_barrier_one_round [of spin_barrier_nosense 2 1 s] run_reachable [OF s] h(3) by simp_all
  then have "ccalls (cthr s 0) = 1" "\<exists>ls s'. run (spin_barrier_nosense 2) s ls = Some s' \<and> creturns (cthr s' 0) = 1"
    using h(1) by (metis one_less_numeral_iff semiring_norm(76) zero_less_numeral, metis zero_less_numeral)
  with s h show ?thesis by blast
qed

text \<open>Both threads inside the waiting loop with the flag down, for ever.\<close>

definition c_stuck :: "csys \<Rightarrow> bool" where
  "c_stuck s \<longleftrightarrow> (\<forall>i<2. cpc (cthr s i) = C_Wait) \<and> c_flag (cb s) = 0"

lemma c_stuck_forever:
  assumes "reachable (central_step 2) s u" and "c_stuck s"
  shows "u = s"
  using assms(1)
proof (rule reachable_invariant)
  show "t = s" if "v = s" "central_step 2 v l = Some t" for v t l
    using that assms(2) by (auto simp: central_step_def central_thread_def Let_def c_stuck_def split: if_splits)
qed simp

text \<open>
  C29.  Used again, they fail as their comments say, and in a second way.  With two threads a
  state is reachable in which thread 0 still waits in its first call and thread 1 in its second,
  and neither ever moves on; and a state is reachable in which thread 0 has returned from its
  second call although thread 1 has only made its first.
\<close>

theorem nosense_barrier_deadlock:
  assumes "barrier \<in> {spin_barrier_nosense, kmon_spin_barrier_nosense}" and "f = 0 \<or> f = 1"
  shows "(\<exists>s. reachable (barrier 2) (central_start f 2) s \<and> ccalls (cthr s 0) = 1 \<and> ccalls (cthr s 1) = 2
        \<and> (\<forall>u. reachable (barrier 2) s u \<longrightarrow> creturns (cthr u 0) = 0 \<and> creturns (cthr u 1) = 1))
    \<and> (\<exists>s. reachable (barrier 2) (central_start f 2) s \<and> creturns (cthr s 0) = 2 \<and> ccalls (cthr s 1) = 1)"
proof
  have b: "barrier 2 = central_step 2"
    using assms(1) by (auto simp: spin_barrier_nosense_def kmon_spin_barrier_nosense_def)
  have "\<exists>s. run (central_step 2) (central_start f 2) (arrive 0 8 @ arrive 1 17) = Some s \<and> c_stuck s
      \<and> ccalls (cthr s 0) = 1 \<and> ccalls (cthr s 1) = 2 \<and> creturns (cthr s 0) = 0 \<and> creturns (cthr s 1) = 1"
    using assms(2) by (elim disjE) (simp_all add: schedule_eval central_eval c_stuck_def less_2_cases_iff)
  then obtain s where s: "run (central_step 2) (central_start f 2) (arrive 0 8 @ arrive 1 17) = Some s" "c_stuck s"
      "ccalls (cthr s 0) = 1" "ccalls (cthr s 1) = 2" "creturns (cthr s 0) = 0" "creturns (cthr s 1) = 1"
    by blast
  have "u = s" if "reachable (barrier 2) s u" for u
    using c_stuck_forever [OF _ s(2)] that unfolding b by blast
  then show "\<exists>s. reachable (barrier 2) (central_start f 2) s \<and> ccalls (cthr s 0) = 1 \<and> ccalls (cthr s 1) = 2
        \<and> (\<forall>u. reachable (barrier 2) s u \<longrightarrow> creturns (cthr u 0) = 0 \<and> creturns (cthr u 1) = 1)"
    using run_reachable [OF s(1)] s(3-6) b by metis
  let ?ls = "arrive 0 7 @ arrive 1 6 @ arrive 0 1 @ arrive 1 1 @ arrive 0 10 @ arrive 1 2 @ arrive 0 1"
  have "\<exists>s. run (central_step 2) (central_start f 2) ?ls = Some s
      \<and> creturns (cthr s 0) = 2 \<and> ccalls (cthr s 1) = 1"
    using assms(2) by (elim disjE) (simp_all add: schedule_eval central_eval)
  then show "\<exists>s. reachable (barrier 2) (central_start f 2) s \<and> creturns (cthr s 0) = 2 \<and> ccalls (cthr s 1) = 1"
    using run_reachable b by metis
qed

lemma nosense_barrier_deadlock_witness:
  "(\<exists>s. reachable (spin_barrier_nosense 2) (central_start 1 2) s \<and> creturns (cthr s 0) = 2 \<and> ccalls (cthr s 1) = 1)
   \<and> (\<exists>s. reachable (kmon_spin_barrier_nosense 2) (central_start 0 2) s \<and> ccalls (cthr s 0) = 1 \<and> ccalls (cthr s 1) = 2)"
  using nosense_barrier_deadlock [of spin_barrier_nosense 1] nosense_barrier_deadlock [of kmon_spin_barrier_nosense 0]
  by blast

end
