(* ===== verification/Mwait_Memory.thy ===== *)
theory Mwait_Memory
  imports Ht_Prelude
begin

text \<open>
  The memory that processors monitor: bytes at 64-bit addresses, the cache lines the \<open>monitor\<close>
  instruction watches, the allocation of aligned blocks (\<open>my_kmalloc_align\<close> of the kernel
  patches, \<open>malloc_aligned\<close> of \<open>thread_test_umon_unot.c\<close>), and the constants of
  \<open>linux/cpu_controls.h\<close> and \<open>cpu_control_syscalls.h\<close>.  The allocators \<open>kmalloc\<close> and \<open>malloc\<close>
  are parameters: functions from a size to an address, 0 when they fail.
\<close>

unbundle bit_operations_syntax

section \<open>Constants and memory\<close>

type_synonym addr = u64
type_synonym memory = "addr \<Rightarrow> u8"

definition MWMON_MONITORED_MEM_BYTES :: nat where "MWMON_MONITORED_MEM_BYTES = 64"
definition MWMON_ALIGN_BOUNDARY :: nat where "MWMON_ALIGN_BOUNDARY = 64"
definition MWMON_ORIGINAL_VAL :: u8 where "MWMON_ORIGINAL_VAL = 97"      \<comment> \<open>\<open>'a'\<close>\<close>
definition MWMON_NOTIFIED_VAL :: u8 where "MWMON_NOTIFIED_VAL = 98"      \<comment> \<open>\<open>'b'\<close>\<close>
definition MWMON_LINT_VAR_OFFSET :: u64 where "MWMON_LINT_VAR_OFFSET = 128"

lemma original_not_notified [simp]: "MWMON_ORIGINAL_VAL \<noteq> MWMON_NOTIFIED_VAL"
  "MWMON_NOTIFIED_VAL \<noteq> MWMON_ORIGINAL_VAL"
  by (simp_all add: MWMON_ORIGINAL_VAL_def MWMON_NOTIFIED_VAL_def)

text \<open>The line of an address: what one \<open>monitor\<close> watches.\<close>

definition same_line :: "addr \<Rightarrow> addr \<Rightarrow> bool" where
  "same_line a b \<longleftrightarrow> unat a div MWMON_MONITORED_MEM_BYTES = unat b div MWMON_MONITORED_MEM_BYTES"

lemma same_line_refl [simp]: "same_line a a"
  by (simp add: same_line_def)

text \<open>\<open>memset(p, v, n)\<close>\<close>

definition fill :: "memory \<Rightarrow> addr \<Rightarrow> u8 \<Rightarrow> nat \<Rightarrow> memory" where
  "fill m p v n = (\<lambda>a. if unat (a - p) < n then v else m a)"

section \<open>Rounding up to a boundary\<close>

text \<open>\<open>((unsigned long) p + alignment - 1) & ~(alignment - 1)\<close>\<close>

definition align_up :: "u64 \<Rightarrow> u64 \<Rightarrow> u64" where
  "align_up alignment p = (p + alignment - 1) AND NOT (alignment - 1)"

lemma unat_and_not_mask: "unat (x AND NOT (mask k) :: 'w::len word) = unat x - unat x mod 2 ^ k"
proof -
  have "x AND NOT (mask k) = push_bit k (drop_bit k x)"
    by (rule bit_word_eqI) (auto simp: bit_simps)
  then have "x AND NOT (mask k) = x - take_bit k x"
    using bits_ident [of k x] by (simp add: algebra_simps)
  moreover have "unat (take_bit k x) = unat x mod 2 ^ k"
    by (simp only: unsigned_take_bit_eq) (simp only: take_bit_eq_mod)
  moreover have "unat (take_bit k x) \<le> unat x"
    using \<open>unat (take_bit k x) = unat x mod 2 ^ k\<close> by simp
  ultimately show ?thesis by (simp add: unat_sub word_le_nat_alt)
qed

lemma unat_align_up:
  assumes "k < 64" and "unat p + 2 ^ k \<le> 2 ^ 64"
  shows "unat (align_up (2 ^ k) p) = (unat p + 2 ^ k - 1) - (unat p + 2 ^ k - 1) mod 2 ^ k"
proof -
  have "(2 :: nat) ^ k < 2 ^ 64" using assms(1) by (intro power_strict_increasing) simp_all
  then have "unat (word_of_nat (2 ^ k) :: u64) = 2 ^ k"
    by (simp only: unsigned_of_nat) (simp add: take_bit_eq_mod)
  then have k: "unat (2 ^ k :: u64) = 2 ^ k" by simp
  have "unat p + (2 ^ k - 1) < 2 ^ 64" using assms(2) by simp
  moreover have "unat (2 ^ k - 1 :: u64) = 2 ^ k - 1" using k by (simp add: unat_sub word_le_nat_alt)
  ultimately have "unat (p + (2 ^ k - 1)) = unat p + (2 ^ k - 1)"
    by (simp add: unat_word_ariths)
  then have "unat (p + 2 ^ k - 1) = unat p + 2 ^ k - 1" by (simp add: algebra_simps)
  moreover have "align_up (2 ^ k) p = (p + 2 ^ k - 1) AND NOT (mask k)"
    by (simp add: align_up_def mask_eq_exp_minus_1)
  ultimately show ?thesis by (simp add: unat_and_not_mask)
qed

text \<open>The rounded address is on the boundary and at most \<open>2 ^ k - 1\<close> bytes behind the block's start.\<close>

lemma align_up_bounds:
  assumes "k < 64" and "unat p + 2 ^ k \<le> 2 ^ 64"
  shows "2 ^ k dvd unat (align_up (2 ^ k) p)" and "unat p \<le> unat (align_up (2 ^ k) p)"
    and "unat (align_up (2 ^ k) p) \<le> unat p + 2 ^ k - 1"
proof -
  let ?x = "unat p + 2 ^ k - 1"
  have u: "unat (align_up (2 ^ k) p) = ?x - ?x mod 2 ^ k" by (rule unat_align_up [OF assms])
  show "2 ^ k dvd unat (align_up (2 ^ k) p)" unfolding u by (rule dvd_minus_mod)
  have "?x mod 2 ^ k < 2 ^ k" by simp
  then show "unat p \<le> unat (align_up (2 ^ k) p)" unfolding u by linarith
  show "unat (align_up (2 ^ k) p) \<le> ?x" unfolding u by simp
qed

section \<open>Aligned allocation\<close>

text \<open>
  \<open>my_kmalloc_align\<close> of the kernel patches.  Its alignment and size are \<open>int\<close>s: both are
  sign-extended where they meet an \<open>unsigned long\<close>.
\<close>

definition my_kmalloc_align :: "(u64 \<Rightarrow> u64) \<Rightarrow> u32 \<Rightarrow> u32 \<Rightarrow> u64" where
  "my_kmalloc_align kmalloc alignment sz =
     (let p = kmalloc (scast (sz + alignment - 1)) in
      if p = 0 then 0
      else (p + scast alignment - 1) AND scast (NOT (alignment - 1)))"

text \<open>\<open>malloc_aligned\<close>; \<open>None\<close> is \<open>exit(EXIT_FAILURE)\<close>.\<close>

definition malloc_aligned :: "(u64 \<Rightarrow> u64) \<Rightarrow> u64 \<Rightarrow> u64 \<Rightarrow> u64 option" where
  "malloc_aligned malloc sz alignment =
     (let p = malloc (sz + alignment - 1) in
      if p = 0 then None else Some ((p + alignment - 1) AND NOT (alignment - 1)))"

lemma my_kmalloc_align_64:
  "my_kmalloc_align kmalloc 64 64 = (let p = kmalloc 127 in if p = 0 then 0 else align_up 64 p)"
  by (simp add: my_kmalloc_align_def align_up_def Let_def)

lemma malloc_aligned_64:
  "malloc_aligned malloc 64 64 = (let p = malloc 127 in if p = 0 then None else Some (align_up 64 p))"
  by (simp add: malloc_aligned_def align_up_def Let_def)

text \<open>An allocator returns 0 or a block that does not reach the end of the address space.\<close>

definition allocator :: "(u64 \<Rightarrow> u64) \<Rightarrow> bool" where
  "allocator alloc \<longleftrightarrow> (\<forall>sz. alloc sz \<noteq> 0 \<longrightarrow> unat (alloc sz) + unat sz < 2 ^ 64)"

text \<open>An aligned block of 64 bytes is one line: no other line meets it.\<close>

lemma line_of_aligned:
  assumes "64 dvd unat p" and "unat p + 64 \<le> 2 ^ 64"
  shows "same_line a p \<longleftrightarrow> unat p \<le> unat a \<and> unat a < unat p + 64"
  using assms by (auto simp: same_line_def MWMON_MONITORED_MEM_BYTES_def elim!: dvdE)

end
