(* ===== verification/Mwait_Kernel.thy ===== *)
theory Mwait_Kernel
  imports Mwait_Memory
begin

text \<open>
  The system calls the kernel patches add: the sleeping calls \<open>sys_mwmon_mmap_sleep\<close>,
  \<open>sys_mwmon_mmap_sleep2\<close>, \<open>sys_mwmon_user_sleep\<close> and \<open>sys_mwmon_kernel_sleep\<close>, which share one
  loop over different addresses, the calls around the kernel's own block
  (\<open>sys_mwmon_kernel_init\<close>, \<open>_notify\<close>, \<open>_finalize\<close>), \<open>sys_mwmon_mmap_spin_while_greater\<close>, and
  \<open>sys_cpu_halt\<close>.

  The sleeping processor executes one statement at a time; in between interrupts may arrive
  while they are enabled, and other processors may store any byte.  \<open>monitor\<close> arms a watch on the
  line of its address; a store to that line by another processor disarms it; \<open>mwait\<close> sleeps only
  while the watch is armed, until a store to the line or an interrupt.  Whether an interrupt
  that does not end an \<open>mwait\<close> disarms the watch is left open: both are allowed.
\<close>

section \<open>The sleeping loop\<close>

datatype spc =
    Irq_Off    \<comment> \<open>before \<open>local_irq_disable()\<close>\<close>
  | Arm        \<comment> \<open>before \<open>monitor(p, 0, 0)\<close>\<close>
  | Irq_On     \<comment> \<open>before \<open>local_irq_enable()\<close>\<close>
  | Check      \<comment> \<open>before \<open>if (*p == MWMON_NOTIFIED_VAL) break\<close>\<close>
  | Do_Mwait   \<comment> \<open>before \<open>mwait(0, 0)\<close>\<close>
  | Asleep     \<comment> \<open>in \<open>mwait\<close>\<close>
  | Recheck    \<comment> \<open>before the test of the loop\<close>
  | Restore    \<comment> \<open>before \<open>*p = MWMON_ORIGINAL_VAL\<close>\<close>
  | Done       \<comment> \<open>the call has returned 0\<close>

record sleeper =
  spc :: spc
  armed :: "addr option"
  irqs :: bool

definition sleep_cpu :: "addr \<Rightarrow> memory \<Rightarrow> sleeper \<Rightarrow> (memory \<times> sleeper) option" where
  "sleep_cpu p m t = (case spc t of
     Irq_Off \<Rightarrow> Some (m, t\<lparr>irqs := False, spc := Arm\<rparr>)
   | Arm \<Rightarrow> Some (m, t\<lparr>armed := Some p, spc := Irq_On\<rparr>)
   | Irq_On \<Rightarrow> Some (m, t\<lparr>irqs := True, spc := Check\<rparr>)
   | Check \<Rightarrow> Some (m, t\<lparr>spc := if m p = MWMON_NOTIFIED_VAL then Restore else Do_Mwait\<rparr>)
   | Do_Mwait \<Rightarrow> Some (m, t\<lparr>spc := if armed t = None then Recheck else Asleep\<rparr>)
   | Asleep \<Rightarrow> None
   | Recheck \<Rightarrow> Some (m, t\<lparr>spc := if m p \<noteq> MWMON_NOTIFIED_VAL then Irq_Off else Restore\<rparr>)
   | Restore \<Rightarrow> Some (m(p := MWMON_ORIGINAL_VAL), t\<lparr>spc := Done\<rparr>)
   | Done \<Rightarrow> Some (m, t))"

text \<open>What another processor's store at \<open>a\<close>, and an interrupt, do to the sleeper.\<close>

definition wake :: "sleeper \<Rightarrow> sleeper" where
  "wake t = t\<lparr>spc := if spc t = Asleep then Recheck else spc t\<rparr>"

definition saw_store :: "addr \<Rightarrow> sleeper \<Rightarrow> sleeper" where
  "saw_store a t = (case armed t of
     None \<Rightarrow> t
   | Some q \<Rightarrow> if same_line a q then wake (t\<lparr>armed := None\<rparr>) else t)"

definition took_irq :: "bool \<Rightarrow> sleeper \<Rightarrow> sleeper" where
  "took_irq disarms t = wake (t\<lparr>armed := if disarms \<or> spc t = Asleep then None else armed t\<rparr>)"

record sleep_sys =
  smem :: memory
  slp :: sleeper

datatype slabel = SCpu | SIrq bool | SStore addr u8

definition sleep_step :: "addr \<Rightarrow> sleep_sys \<Rightarrow> slabel \<Rightarrow> sleep_sys option" where
  "sleep_step p s l = (case l of
     SCpu \<Rightarrow> (case sleep_cpu p (smem s) (slp s) of None \<Rightarrow> None | Some (m, t) \<Rightarrow> Some \<lparr>smem = m, slp = t\<rparr>)
   | SIrq disarms \<Rightarrow> (if irqs (slp s) then Some (s\<lparr>slp := took_irq disarms (slp s)\<rparr>) else None)
   | SStore a v \<Rightarrow> Some \<lparr>smem = (smem s)(a := v), slp = saw_store a (slp s)\<rparr>)"

text \<open>A system call starts with interrupts enabled; an older watch may be left over.\<close>

definition sleep_start :: "memory \<Rightarrow> addr option \<Rightarrow> sleep_sys" where
  "sleep_start m w = \<lparr>smem = m, slp = \<lparr>spc = Irq_Off, armed = w, irqs = True\<rparr>\<rparr>"

section \<open>The system calls\<close>

record kglobals =
  mwmon_mmap_area :: addr
  mwmon_mmap_area2 :: addr
  mwmon_kernel_memory :: addr

definition sys_mwmon_mmap_sleep :: "kglobals \<Rightarrow> sleep_sys \<Rightarrow> slabel \<Rightarrow> sleep_sys option" where
  "sys_mwmon_mmap_sleep g = sleep_step (mwmon_mmap_area g)"

definition sys_mwmon_mmap_sleep2 :: "kglobals \<Rightarrow> sleep_sys \<Rightarrow> slabel \<Rightarrow> sleep_sys option" where
  "sys_mwmon_mmap_sleep2 g = sleep_step (mwmon_mmap_area2 g)"

definition sys_mwmon_user_sleep :: "addr \<Rightarrow> sleep_sys \<Rightarrow> slabel \<Rightarrow> sleep_sys option" where
  "sys_mwmon_user_sleep mwmon_user_memory = sleep_step mwmon_user_memory"

definition sys_mwmon_kernel_sleep :: "kglobals \<Rightarrow> sleep_sys \<Rightarrow> slabel \<Rightarrow> sleep_sys option" where
  "sys_mwmon_kernel_sleep g = sleep_step (mwmon_kernel_memory g)"

definition ENOMEM :: int where "ENOMEM = 12"

definition sys_mwmon_kernel_init :: "(u64 \<Rightarrow> u64) \<Rightarrow> kglobals \<Rightarrow> memory \<Rightarrow> int \<times> kglobals \<times> memory" where
  "sys_mwmon_kernel_init kmalloc g m =
     (let p = my_kmalloc_align kmalloc (word_of_nat MWMON_ALIGN_BOUNDARY) (word_of_nat MWMON_MONITORED_MEM_BYTES);
          g' = g\<lparr>mwmon_kernel_memory := p\<rparr> in
      if p = 0 then (- ENOMEM, g', m)
      else (0, g', fill m p MWMON_ORIGINAL_VAL MWMON_MONITORED_MEM_BYTES))"

text \<open>\<open>sys_mwmon_kernel_notify\<close> is one store, made by the processor of the caller.\<close>

definition sys_mwmon_kernel_notify :: "kglobals \<Rightarrow> slabel" where
  "sys_mwmon_kernel_notify g = SStore (mwmon_kernel_memory g) MWMON_NOTIFIED_VAL"

text \<open>\<open>sys_mwmon_kernel_finalize\<close>: the return value and the address given to \<open>kfree\<close>.\<close>

definition sys_mwmon_kernel_finalize :: "kglobals \<Rightarrow> int \<times> addr" where
  "sys_mwmon_kernel_finalize g = (0, mwmon_kernel_memory g)"

section \<open>No wake-up is lost\<close>

text \<open>The watch was armed before the byte was read, so an armed sleeper has not been notified.\<close>

definition sleep_inv :: "addr \<Rightarrow> sleep_sys \<Rightarrow> bool" where
  "sleep_inv p s \<longleftrightarrow>
     (let w = armed (slp s) in
      case spc (slp s) of
        Irq_On \<Rightarrow> w = None \<or> w = Some p
      | Check \<Rightarrow> w = None \<or> w = Some p
      | Do_Mwait \<Rightarrow> w = None \<or> w = Some p \<and> smem s p \<noteq> MWMON_NOTIFIED_VAL
      | Asleep \<Rightarrow> w = Some p \<and> smem s p \<noteq> MWMON_NOTIFIED_VAL
      | _ \<Rightarrow> True)"

lemma sleep_inv_start: "sleep_inv p (sleep_start m w)"
  by (simp add: sleep_inv_def sleep_start_def)

lemma sleep_inv_step:
  assumes "sleep_inv p s" and "sleep_step p s l = Some t"
  shows "sleep_inv p t"
proof (cases l)
  case SCpu
  then show ?thesis
    using assms
    by (cases "spc (slp s)") (auto simp: sleep_step_def sleep_cpu_def sleep_inv_def Let_def)
next
  case (SIrq d)
  then show ?thesis
    using assms
    by (cases "spc (slp s)")
      (auto simp: sleep_step_def took_irq_def wake_def sleep_inv_def Let_def split: if_splits)
next
  case (SStore a v)
  show ?thesis
  proof (cases "armed (slp s)")
    case None
    then show ?thesis
      using assms SStore
      by (cases "spc (slp s)") (auto simp: sleep_step_def saw_store_def sleep_inv_def Let_def)
  next
    case (Some q)
    then show ?thesis
      using assms SStore
      by (cases "spc (slp s)")
        (auto simp: sleep_step_def saw_store_def wake_def sleep_inv_def Let_def split: if_splits)
  qed
qed

lemma sleep_reachable_inv:
  assumes "reachable (sleep_step p) (sleep_start m w) s"
  shows "sleep_inv p s"
  using assms sleep_inv_start sleep_inv_step by (rule reachable_invariant)

text \<open>Statements a notified sleeper still executes.\<close>

fun sleep_rank :: "spc \<Rightarrow> nat" where
  "sleep_rank Irq_Off = 5"
| "sleep_rank Arm = 4"
| "sleep_rank Irq_On = 3"
| "sleep_rank Check = 2"
| "sleep_rank Do_Mwait = 3"
| "sleep_rank Asleep = 0"
| "sleep_rank Recheck = 2"
| "sleep_rank Restore = 1"
| "sleep_rank Done = 0"

definition returning :: "addr \<Rightarrow> nat \<Rightarrow> sleep_sys \<Rightarrow> bool" where
  "returning p k s \<longleftrightarrow>
     spc (slp s) = Done \<and> smem s p = MWMON_ORIGINAL_VAL
     \<or> spc (slp s) \<notin> {Done, Asleep} \<and> smem s p = MWMON_NOTIFIED_VAL \<and> sleep_inv p s \<and> sleep_rank (spc (slp s)) \<le> k"

lemma returning_cpu:
  assumes "returning p k s"
  shows "\<exists>t. sleep_step p s SCpu = Some t \<and> returning p (k - 1) t"
proof -
  have "\<exists>t. sleep_step p s SCpu = Some t"
    using assms by (cases "spc (slp s)") (auto simp: returning_def sleep_step_def sleep_cpu_def)
  then obtain t where t: "sleep_step p s SCpu = Some t" ..
  have i: "sleep_inv p s \<Longrightarrow> sleep_inv p t" by (rule sleep_inv_step [OF _ t])
  have "returning p (k - 1) t"
  proof (cases "spc (slp s) = Done")
    case True
    then show ?thesis using assms t by (auto simp: returning_def sleep_step_def sleep_cpu_def)
  next
    case False
    then have b: "smem s p = MWMON_NOTIFIED_VAL" "sleep_inv p s" "sleep_rank (spc (slp s)) \<le> k" "spc (slp s) \<noteq> Asleep"
      using assms by (auto simp: returning_def)
    have "spc (slp s) = Do_Mwait \<Longrightarrow> armed (slp s) = None" using b by (auto simp: sleep_inv_def)
    then have "spc (slp t) = Done \<and> smem t p = MWMON_ORIGINAL_VAL
        \<or> spc (slp t) \<notin> {Done, Asleep} \<and> smem t p = MWMON_NOTIFIED_VAL \<and> sleep_rank (spc (slp t)) \<le> k - 1"
      using False b(1,3,4) t by (cases "spc (slp s)") (auto simp: sleep_step_def sleep_cpu_def)
    then show ?thesis using i [OF b(2)] by (auto simp: returning_def)
  qed
  with t show ?thesis by blast
qed

lemma returning_other:
  assumes "returning p k s" and "sleep_step p s l = Some t" and "l \<noteq> SCpu" and "\<forall>v. l \<noteq> SStore p v"
  shows "returning p k t"
proof -
  have i: "sleep_inv p s \<Longrightarrow> sleep_inv p t" using sleep_inv_step assms(2) by blast
  have "smem t p = smem s p"
    using assms(2-4) by (cases l) (auto simp: sleep_step_def split: if_splits)
  moreover have "spc (slp t) = spc (slp s)" if "spc (slp s) \<noteq> Asleep"
    using assms(2,3) that
    by (cases l) (auto simp: sleep_step_def took_irq_def saw_store_def wake_def split: option.splits if_splits)
  ultimately show ?thesis
    using assms(1) i unfolding returning_def by (cases "spc (slp s) = Asleep") auto
qed

lemma returning_run:
  assumes "returning p k s" and "run (sleep_step p) s ls = Some t" and "\<forall>v. SStore p v \<notin> set ls"
  shows "returning p (k - count_list ls SCpu) t"
  using assms
proof (induction ls arbitrary: s k)
  case (Cons l ls)
  then obtain u where u: "sleep_step p s l = Some u" "run (sleep_step p) u ls = Some t"
    by (auto split: option.splits)
  show ?case
  proof (cases "l = SCpu")
    case True
    then have "returning p (k - 1) u" using returning_cpu [OF Cons.prems(1)] u(1) by auto
    from Cons.IH [OF this u(2)] Cons.prems(3) True show ?thesis by simp
  next
    case False
    have "\<forall>v. l \<noteq> SStore p v" using Cons.prems(3) by auto
    from Cons.IH [OF returning_other [OF Cons.prems(1) u(1) False this] u(2)] Cons.prems(3) False
    show ?thesis by simp
  qed
qed simp

text \<open>Notifying a sleeper again changes nothing of that but the byte after the return.\<close>

lemma returning_notified_again:
  assumes "spc (slp s) = Done \<or> returning p k s" and "run (sleep_step p) s ls = Some t"
    and "\<forall>v. SStore p v \<in> set ls \<longrightarrow> v = MWMON_NOTIFIED_VAL"
  shows "spc (slp t) = Done \<or> returning p (k - count_list ls SCpu) t"
  using assms
proof (induction ls arbitrary: s k)
  case (Cons l ls)
  then obtain u where u: "sleep_step p s l = Some u" "run (sleep_step p) u ls = Some t"
    by (auto split: option.splits)
  have rest: "\<forall>v. SStore p v \<in> set ls \<longrightarrow> v = MWMON_NOTIFIED_VAL" using Cons.prems(3) by auto
  have "spc (slp u) = Done \<or> returning p (if l = SCpu then k - 1 else k) u"
  proof (cases "spc (slp s) = Done")
    case True
    then have "spc (slp u) = Done"
      using u(1) by (cases l) (auto simp: sleep_step_def sleep_cpu_def took_irq_def saw_store_def wake_def
          split: option.splits if_splits)
    then show ?thesis ..
  next
    case False
    then have r: "returning p k s" using Cons.prems(1) by simp
    show ?thesis
    proof (cases "l = SCpu \<or> (\<forall>v. l \<noteq> SStore p v)")
      case True
      then show ?thesis using returning_cpu [OF r] returning_other [OF r u(1)] u(1) by (cases "l = SCpu") auto
    next
      case again: False
      then have l: "l = SStore p MWMON_NOTIFIED_VAL" using Cons.prems(3) by auto
      have "spc (slp s) \<noteq> Asleep" "smem s p = MWMON_NOTIFIED_VAL" "sleep_inv p s" "sleep_rank (spc (slp s)) \<le> k"
        using r False by (auto simp: returning_def)
      moreover from this have "sleep_inv p u" using sleep_inv_step u(1) by blast
      moreover have "spc (slp u) = spc (slp s)" "smem u p = MWMON_NOTIFIED_VAL"
        using u(1) l \<open>spc (slp s) \<noteq> Asleep\<close> by (auto simp: sleep_step_def saw_store_def wake_def split: option.splits)
      ultimately show ?thesis using False l by (simp add: returning_def)
    qed
  qed
  from Cons.IH [OF this u(2) rest] show ?case by (cases "l = SCpu") simp_all
qed simp

lemma returning_zero: "returning p 0 s \<Longrightarrow> spc (slp s) = Done \<and> smem s p = MWMON_ORIGINAL_VAL"
  by (cases "spc (slp s)") (auto simp: returning_def)

lemma returning_solo: "returning p k s \<Longrightarrow> \<exists>t. run (sleep_step p) s (replicate k SCpu) = Some t"
proof (induction k arbitrary: s)
  case (Suc k)
  obtain t where "sleep_step p s SCpu = Some t" "returning p k t"
    using returning_cpu [OF Suc.prems] by auto
  then show ?case using Suc.IH by simp
qed simp

section \<open>No return without a notification\<close>

lemma not_notified_step:
  assumes "sleep_step p s l = Some t" and "smem s p \<noteq> MWMON_NOTIFIED_VAL" and "spc (slp s) \<notin> {Restore, Done}"
    and "l \<noteq> SStore p MWMON_NOTIFIED_VAL"
  shows "smem t p \<noteq> MWMON_NOTIFIED_VAL \<and> spc (slp t) \<notin> {Restore, Done}"
proof (cases l)
  case SCpu
  then show ?thesis using assms by (cases "spc (slp s)") (auto simp: sleep_step_def sleep_cpu_def split: if_splits)
qed (use assms in \<open>auto simp: sleep_step_def took_irq_def saw_store_def wake_def split: option.splits if_splits\<close>)

lemma not_notified_stays:
  assumes "run (sleep_step p) s ls = Some t" and "smem s p \<noteq> MWMON_NOTIFIED_VAL" and "spc (slp s) \<notin> {Restore, Done}"
    and "SStore p MWMON_NOTIFIED_VAL \<notin> set ls"
  shows "spc (slp t) \<notin> {Restore, Done}"
  using assms
proof (induction ls arbitrary: s)
  case (Cons l ls)
  then obtain u where u: "sleep_step p s l = Some u" "run (sleep_step p) u ls = Some t"
    by (auto split: option.splits)
  have "l \<noteq> SStore p MWMON_NOTIFIED_VAL" using Cons.prems(4) by auto
  then have "smem u p \<noteq> MWMON_NOTIFIED_VAL \<and> spc (slp u) \<notin> {Restore, Done}"
    using not_notified_step [OF u(1) Cons.prems(2,3)] by blast
  then show ?case using Cons.IH [OF u(2)] Cons.prems(4) by simp
qed simp

text \<open>Only the last statement of a call leads to its return.\<close>

lemma done_by_restore:
  assumes "run (sleep_step p) s ls = Some t" and "spc (slp s) \<noteq> Done" and "spc (slp t) = Done"
  shows "\<exists>xs ys v t'. ls = xs @ SCpu # ys \<and> run (sleep_step p) s xs = Some v \<and> spc (slp v) = Restore
    \<and> sleep_step p v SCpu = Some t' \<and> spc (slp t') = Done \<and> smem t' = (smem v)(p := MWMON_ORIGINAL_VAL)"
  using assms
proof (induction ls arbitrary: s)
  case (Cons l ls)
  then obtain u where u: "sleep_step p s l = Some u" "run (sleep_step p) u ls = Some t"
    by (auto split: option.splits)
  show ?case
  proof (cases "spc (slp u) = Done")
    case True
    then have "l = SCpu \<and> spc (slp s) = Restore"
      using u(1) Cons.prems(2) by (cases l; cases "spc (slp s)")
        (auto simp: sleep_step_def sleep_cpu_def took_irq_def saw_store_def wake_def split: option.splits if_splits)
    then show ?thesis using u(1) True
      by (intro exI [of _ "[]"] exI [of _ ls] exI [of _ s] exI [of _ u]) (auto simp: sleep_step_def sleep_cpu_def)
  next
    case False
    from Cons.IH [OF u(2) False Cons.prems(3)] obtain xs ys v t'
      where "ls = xs @ SCpu # ys" "run (sleep_step p) u xs = Some v" "spc (slp v) = Restore"
        "sleep_step p v SCpu = Some t'" "spc (slp t') = Done" "smem t' = (smem v)(p := MWMON_ORIGINAL_VAL)"
      by blast
    then show ?thesis using u(1) by (intro exI [of _ "l # xs"] exI [of _ ys] exI [of _ v] exI [of _ t']) simp
  qed
qed simp

section \<open>Sleeping while a shared variable is small\<close>

text \<open>
  \<open>sys_mwmon_mmap_spin_while_greater\<close>: \<open>early\<close> says whether the test of the notified byte in the
  loop is compiled, as in the one-package patch; the two-package patches have it in a comment.
  The shared \<open>long\<close> is apart from the bytes of the watched line.
\<close>

datatype wpc =
    W_Test | W_Irq_Off | W_Arm | W_Irq_On | W_Check | W_Mwait | W_Asleep | W_Restore | W_Done

record wait_sys =
  wmem :: memory
  lint :: u64
  wpc :: wpc
  warmed :: "addr option"
  wirqs :: bool

datatype wlabel = WCpu | WIrq bool | WStore addr u8 | WLint u64

definition wwake :: "wait_sys \<Rightarrow> wait_sys" where
  "wwake s = s\<lparr>wpc := if wpc s = W_Asleep then W_Test else wpc s\<rparr>"

definition wait_cpu :: "bool \<Rightarrow> addr \<Rightarrow> u64 \<Rightarrow> wait_sys \<Rightarrow> wait_sys option" where
  "wait_cpu early p local_condition s = (case wpc s of
     W_Test \<Rightarrow> Some (s\<lparr>wpc := if sint (lint s) < sint local_condition then W_Irq_Off else W_Restore\<rparr>)
   | W_Irq_Off \<Rightarrow> Some (s\<lparr>wirqs := False, wpc := W_Arm\<rparr>)
   | W_Arm \<Rightarrow> Some (s\<lparr>warmed := Some p, wpc := W_Irq_On\<rparr>)
   | W_Irq_On \<Rightarrow> Some (s\<lparr>wirqs := True, wpc := if early then W_Check else W_Mwait\<rparr>)
   | W_Check \<Rightarrow> Some (s\<lparr>wpc := if wmem s p = MWMON_NOTIFIED_VAL then W_Restore else W_Mwait\<rparr>)
   | W_Mwait \<Rightarrow> Some (s\<lparr>wpc := if warmed s = None then W_Test else W_Asleep\<rparr>)
   | W_Asleep \<Rightarrow> None
   | W_Restore \<Rightarrow> Some (s\<lparr>wmem := (wmem s)(p := MWMON_ORIGINAL_VAL), wpc := W_Done\<rparr>)
   | W_Done \<Rightarrow> Some s)"

definition sys_mwmon_mmap_spin_while_greater ::
  "bool \<Rightarrow> kglobals \<Rightarrow> u64 \<Rightarrow> wait_sys \<Rightarrow> wlabel \<Rightarrow> wait_sys option" where
  "sys_mwmon_mmap_spin_while_greater early g local_condition s l = (case l of
     WCpu \<Rightarrow> wait_cpu early (mwmon_mmap_area g) local_condition s
   | WIrq disarms \<Rightarrow>
       (if wirqs s then Some (wwake (s\<lparr>warmed := if disarms \<or> wpc s = W_Asleep then None else warmed s\<rparr>))
        else None)
   | WStore a v \<Rightarrow>
       Some (case warmed s of
         None \<Rightarrow> s\<lparr>wmem := (wmem s)(a := v)\<rparr>
       | Some q \<Rightarrow> (if same_line a q then wwake (s\<lparr>wmem := (wmem s)(a := v), warmed := None\<rparr>)
                    else s\<lparr>wmem := (wmem s)(a := v)\<rparr>))
   | WLint v \<Rightarrow> Some (s\<lparr>lint := v\<rparr>))"

definition wait_start :: "memory \<Rightarrow> u64 \<Rightarrow> addr option \<Rightarrow> wait_sys" where
  "wait_start m v w = \<lparr>wmem = m, lint = v, wpc = W_Test, warmed = w, wirqs = True\<rparr>"

lemma wait_small_step:
  assumes "sys_mwmon_mmap_spin_while_greater False g c s l = Some t"
    and "sint (lint s) < sint c \<and> wpc s \<notin> {W_Check, W_Restore, W_Done}"
    and "\<forall>v. l = WLint v \<longrightarrow> sint v < sint c"
  shows "sint (lint t) < sint c \<and> wpc t \<notin> {W_Check, W_Restore, W_Done}"
proof (cases l)
  case WCpu
  then show ?thesis
    using assms by (cases "wpc s") (auto simp: sys_mwmon_mmap_spin_while_greater_def wait_cpu_def split: if_splits)
qed (use assms in \<open>auto simp: sys_mwmon_mmap_spin_while_greater_def wwake_def split: if_splits option.splits\<close>)

lemma wait_small_run:
  assumes "run (sys_mwmon_mmap_spin_while_greater False g c) s ls = Some t"
    and "sint (lint s) < sint c \<and> wpc s \<notin> {W_Check, W_Restore, W_Done}"
    and "\<forall>v. WLint v \<in> set ls \<longrightarrow> sint v < sint c"
  shows "sint (lint t) < sint c \<and> wpc t \<notin> {W_Check, W_Restore, W_Done}"
  using assms
proof (induction ls arbitrary: s)
  case (Cons l ls)
  then obtain u where u: "sys_mwmon_mmap_spin_while_greater False g c s l = Some u"
      "run (sys_mwmon_mmap_spin_while_greater False g c) u ls = Some t"
    by (auto split: option.splits)
  show ?case
    by (rule Cons.IH [OF u(2) wait_small_step [OF u(1) Cons.prems(2)]]) (use Cons.prems(3) in auto)
qed simp

section \<open>Halting the processor\<close>

text \<open>
  \<open>sys_cpu_halt\<close> executes \<open>sti; hlt\<close>.  \<open>sti\<close> keeps interrupts away for one more instruction, but only when they were
  disabled before it; a system call is entered with interrupts enabled.
\<close>

datatype hpc = H_Sti | H_Hlt | H_Halted | H_Done

record halt_sys =
  hpc :: hpc
  hirqs :: bool
  shadow :: bool

datatype hlabel = HCpu | HIrq

definition sys_cpu_halt :: "halt_sys \<Rightarrow> hlabel \<Rightarrow> halt_sys option" where
  "sys_cpu_halt s l = (case l of
     HCpu \<Rightarrow> (case hpc s of
         H_Sti \<Rightarrow> Some (s\<lparr>shadow := \<not> hirqs s, hirqs := True, hpc := H_Hlt\<rparr>)
       | H_Hlt \<Rightarrow> Some (s\<lparr>shadow := False, hpc := H_Halted\<rparr>)
       | H_Halted \<Rightarrow> None
       | H_Done \<Rightarrow> Some s)
   | HIrq \<Rightarrow> (if hirqs s \<and> \<not> shadow s then Some (s\<lparr>hpc := if hpc s = H_Halted then H_Done else hpc s\<rparr>)
              else None))"

definition halt_start :: "bool \<Rightarrow> halt_sys" where
  "halt_start enabled = \<lparr>hpc = H_Sti, hirqs = enabled, shadow = False\<rparr>"

lemma snoc_split:
  "(\<exists>xs ys. ls @ [l] = xs @ a # ys \<and> Q xs) \<longleftrightarrow> (\<exists>xs ys. ls = xs @ a # ys \<and> Q xs) \<or> l = a \<and> Q ls"
proof (intro iffI; elim disjE exE conjE)
  fix xs ys assume "ls @ [l] = xs @ a # ys" "Q xs"
  then show "(\<exists>xs ys. ls = xs @ a # ys \<and> Q xs) \<or> l = a \<and> Q ls"
    by (cases ys rule: rev_cases) auto
next
  fix xs ys assume "ls = xs @ a # ys" "Q xs"
  then show "\<exists>xs ys. ls @ [l] = xs @ a # ys \<and> Q xs" by (intro exI [of _ xs] exI [of _ "ys @ [l]"]) simp
next
  assume "l = a" "Q ls"
  then show "\<exists>xs ys. ls @ [l] = xs @ a # ys \<and> Q xs" by blast
qed

text \<open>It returns only by an interrupt that finds it halted, and every such interrupt makes it return.\<close>

lemma cpu_halt_run:
  assumes "run sys_cpu_halt (halt_start enabled) ls = Some s"
  shows "hpc s = H_Done \<longleftrightarrow> (\<exists>xs ys. ls = xs @ HIrq # ys
    \<and> map_option hpc (run sys_cpu_halt (halt_start enabled) xs) = Some H_Halted)"
  using assms
proof (induction ls arbitrary: s rule: rev_induct)
  case Nil
  then show ?case by (auto simp: halt_start_def)
next
  case (snoc l ls)
  obtain v where v: "run sys_cpu_halt (halt_start enabled) ls = Some v" "sys_cpu_halt v l = Some s"
    using snoc.prems by (auto simp: run_append split: option.splits)
  have "hpc s = H_Done \<longleftrightarrow> hpc v = H_Done \<or> l = HIrq \<and> hpc v = H_Halted"
    using v(2) by (auto simp: sys_cpu_halt_def split: hlabel.splits hpc.splits if_splits)
  then show ?case unfolding snoc.IH [OF v(1)] snoc_split using v(1) by auto
qed

text \<open>
  Entered with interrupts enabled, as system calls are, it sleeps through an interrupt that comes
  between its two instructions; only with interrupts disabled before would \<open>sti\<close> prevent that.
\<close>

lemma cpu_halt_loses_interrupt:
  "run sys_cpu_halt (halt_start enabled) [HCpu, HIrq, HCpu] =
     (if enabled then Some \<lparr>hpc = H_Halted, hirqs = True, shadow = False\<rparr> else None)"
  by (simp add: halt_start_def sys_cpu_halt_def)

section \<open>Properties\<close>

text \<open>
  C1.  No wake-up is lost in the four sleeping system calls as long as nobody overwrites it.  Once the
  watched byte has the notified value and the call has not returned, the processor is not asleep, it runs to the end
  of the call, and after at most five of its own statements the call has returned, whatever interrupts come in between
  and whatever is stored elsewhere, the line of the byte included, or notified again.  Without a further notification
  the byte is then back to its original value.  A store of another value to the watched byte is excluded: it takes
  the notification away (\<open>open_erases_notification\<close> of \<open>Kmem_Mapper\<close>).
\<close>

theorem notified_sleeper_returns:
  assumes "(call, p) \<in> {(sys_mwmon_mmap_sleep g, mwmon_mmap_area g),
      (sys_mwmon_mmap_sleep2 g, mwmon_mmap_area2 g), (sys_mwmon_user_sleep u, u),
      (sys_mwmon_kernel_sleep g, mwmon_kernel_memory g)}"
    and "reachable call (sleep_start m w) s"
    and "smem s p = MWMON_NOTIFIED_VAL" and "spc (slp s) \<noteq> Done"
  shows "spc (slp s) \<noteq> Asleep \<and> (\<exists>t. run call s (replicate 5 SCpu) = Some t)
    \<and> (\<forall>ls t. run call s ls = Some t \<and> (\<forall>v. SStore p v \<in> set ls \<longrightarrow> v = MWMON_NOTIFIED_VAL)
          \<and> 5 \<le> count_list ls SCpu \<longrightarrow>
         spc (slp t) = Done \<and> (SStore p MWMON_NOTIFIED_VAL \<notin> set ls \<longrightarrow> smem t p = MWMON_ORIGINAL_VAL))"
proof -
  have c: "call = sleep_step p"
    using assms(1) by (auto simp: sys_mwmon_mmap_sleep_def sys_mwmon_mmap_sleep2_def
        sys_mwmon_user_sleep_def sys_mwmon_kernel_sleep_def)
  have i: "sleep_inv p s" using sleep_reachable_inv assms(2) unfolding c by blast
  then have a: "spc (slp s) \<noteq> Asleep" using assms(3) by (auto simp: sleep_inv_def)
  moreover have "sleep_rank (spc (slp s)) \<le> 5" by (cases "spc (slp s)") simp_all
  ultimately have r: "returning p 5 s" using assms(3,4) i by (auto simp: returning_def)
  have "spc (slp t) = Done"
    if "run call s ls = Some t" "\<forall>v. SStore p v \<in> set ls \<longrightarrow> v = MWMON_NOTIFIED_VAL" "5 \<le> count_list ls SCpu" for ls t
    using returning_notified_again [OF disjI2 [OF r] that(1)[unfolded c] that(2)] that(3) returning_zero by auto
  moreover have "smem t p = MWMON_ORIGINAL_VAL"
    if "run call s ls = Some t" "\<forall>v. SStore p v \<in> set ls \<longrightarrow> v = MWMON_NOTIFIED_VAL" "5 \<le> count_list ls SCpu"
      "SStore p MWMON_NOTIFIED_VAL \<notin> set ls" for ls t
  proof -
    have "\<forall>v. SStore p v \<notin> set ls" using that(2,4) by blast
    then show ?thesis using returning_run [OF r that(1)[unfolded c]] that(3) returning_zero by simp
  qed
  ultimately show ?thesis using a returning_solo [OF r] unfolding c by blast
qed

text \<open>The sleeper is asleep, a store to its line wakes it, the notification follows before it looks.\<close>

definition g0 :: kglobals where
  "g0 = \<lparr>mwmon_mmap_area = 4096, mwmon_mmap_area2 = 4608, mwmon_kernel_memory = 64\<rparr>"

lemmas sleep_eval = sleep_step_def sleep_cpu_def sleep_start_def saw_store_def took_irq_def wake_def
  same_line_def MWMON_MONITORED_MEM_BYTES_def MWMON_NOTIFIED_VAL_def MWMON_ORIGINAL_VAL_def g0_def

lemma notified_sleeper_returns_witness:
  "\<exists>s t. run (sys_mwmon_mmap_sleep g0) (sleep_start (\<lambda>_. MWMON_ORIGINAL_VAL) None)
      [SCpu, SCpu, SCpu, SCpu, SCpu, SStore 4100 0, SStore 4096 MWMON_NOTIFIED_VAL] = Some s
    \<and> spc (slp s) = Recheck \<and> run (sys_mwmon_mmap_sleep g0) s (replicate 5 SCpu) = Some t
    \<and> spc (slp t) = Done \<and> smem t 4096 = MWMON_ORIGINAL_VAL"
proof -
  let ?ls = "[SCpu, SCpu, SCpu, SCpu, SCpu, SStore 4100 0, SStore 4096 MWMON_NOTIFIED_VAL]"
  obtain s where s: "run (sys_mwmon_mmap_sleep g0) (sleep_start (\<lambda>_. MWMON_ORIGINAL_VAL) None) ?ls = Some s"
    and h: "spc (slp s) = Recheck" "smem s 4096 = MWMON_NOTIFIED_VAL"
    by (simp add: sys_mwmon_mmap_sleep_def sleep_eval)
  have r: "reachable (sys_mwmon_mmap_sleep g0) (sleep_start (\<lambda>_. MWMON_ORIGINAL_VAL) None) s"
    by (rule run_reachable [OF s])
  have "(\<exists>t. run (sys_mwmon_mmap_sleep g0) s (replicate 5 SCpu) = Some t)
    \<and> (\<forall>ls t. run (sys_mwmon_mmap_sleep g0) s ls = Some t \<and> (\<forall>v. SStore 4096 v \<in> set ls \<longrightarrow> v = MWMON_NOTIFIED_VAL)
          \<and> 5 \<le> count_list ls SCpu \<longrightarrow>
         spc (slp t) = Done \<and> (SStore 4096 MWMON_NOTIFIED_VAL \<notin> set ls \<longrightarrow> smem t 4096 = MWMON_ORIGINAL_VAL))"
    using notified_sleeper_returns [of "sys_mwmon_mmap_sleep g0" 4096 g0 0, OF _ r] h by (simp add: g0_def)
  moreover have "count_list (replicate 5 SCpu) SCpu = 5" by (simp add: numeral_eq_Suc)
  ultimately show ?thesis using s h by fastforce
qed

text \<open>
  C2.  The sleeping calls do not return unasked.  If the watched byte does not hold the notified value when the call
  starts and nobody stores that value in it, the call never gets to its return, whatever interrupts and other stores, to
  its line or elsewhere, wake it on the way.  And whenever a call has returned, notified before or during it, it did so
  by the one store at its end: there is a statement of its own that took it from the end of its loop to the return,
  after which the byte held the original value and every other byte what it held before.
\<close>

theorem sleeper_waits_for_notification:
  assumes "(call, p) \<in> {(sys_mwmon_mmap_sleep g, mwmon_mmap_area g),
      (sys_mwmon_mmap_sleep2 g, mwmon_mmap_area2 g), (sys_mwmon_user_sleep u, u),
      (sys_mwmon_kernel_sleep g, mwmon_kernel_memory g)}"
    and "run call (sleep_start m w) ls = Some s"
  shows "(m p \<noteq> MWMON_NOTIFIED_VAL \<and> SStore p MWMON_NOTIFIED_VAL \<notin> set ls \<longrightarrow> spc (slp s) \<notin> {Restore, Done})
    \<and> (spc (slp s) = Done \<longrightarrow> (\<exists>xs ys v t. ls = xs @ SCpu # ys \<and> run call (sleep_start m w) xs = Some v
        \<and> spc (slp v) = Restore \<and> call v SCpu = Some t \<and> spc (slp t) = Done
        \<and> smem t = (smem v)(p := MWMON_ORIGINAL_VAL)))"
proof -
  have c: "call = sleep_step p"
    using assms(1) by (auto simp: sys_mwmon_mmap_sleep_def sys_mwmon_mmap_sleep2_def
        sys_mwmon_user_sleep_def sys_mwmon_kernel_sleep_def)
  have "spc (slp (sleep_start m w)) \<noteq> Done" by (simp add: sleep_start_def)
  then show ?thesis
    using not_notified_stays [OF assms(2)[unfolded c]] done_by_restore [OF assms(2)[unfolded c]]
    unfolding c by (simp add: sleep_start_def)
qed

lemma sleeper_waits_for_notification_witness:
  "\<exists>s. run (sys_mwmon_user_sleep 64) (sleep_start (\<lambda>_. MWMON_ORIGINAL_VAL) None)
      [SCpu, SCpu, SCpu, SCpu, SCpu, SIrq True, SCpu, SCpu, SCpu, SCpu, SCpu, SCpu,
       SStore 65 MWMON_NOTIFIED_VAL, SCpu] = Some s
    \<and> spc (slp s) = Irq_Off \<and> spc (slp s) \<notin> {Restore, Done}"
proof -
  let ?ls = "[SCpu, SCpu, SCpu, SCpu, SCpu, SIrq True, SCpu, SCpu, SCpu, SCpu, SCpu, SCpu,
       SStore 65 MWMON_NOTIFIED_VAL, SCpu]"
  obtain s where s: "run (sys_mwmon_user_sleep 64) (sleep_start (\<lambda>_. MWMON_ORIGINAL_VAL) None) ?ls = Some s"
    and h: "spc (slp s) = Irq_Off"
    by (simp add: sys_mwmon_user_sleep_def sleep_eval)
  have "spc (slp s) \<notin> {Restore, Done}"
    using sleeper_waits_for_notification [of "sys_mwmon_user_sleep 64" 64 g0 64, OF _ s] by simp
  with s h show ?thesis by blast
qed

text \<open>
  C18.  As built by the two-package patches, \<open>sys_mwmon_mmap_spin_while_greater\<close> returns only
  after the shared variable has reached the caller's value: while every value it holds is
  smaller, as signed 64-bit numbers, the call stays in its loop.  And nothing but an interrupt or a
  store to the watched line wakes it: making the condition true does not.  The one-package patch compiles a test of
  the notified byte into the loop: its call may return while the variable is still below the bound, and it erases the
  notification in any case.
\<close>

theorem spin_while_greater_waits:
  fixes g :: kglobals and c :: u64
  defines "call \<equiv> sys_mwmon_mmap_spin_while_greater False g c"
  shows "(sint v < sint c \<and> (\<forall>x. WLint x \<in> set ls \<longrightarrow> sint x < sint c) \<and> run call (wait_start m v w) ls = Some s
      \<longrightarrow> wpc s \<notin> {W_Restore, W_Done})
    \<and> (wpc s = W_Asleep \<longrightarrow> call s (WLint x) = Some (s\<lparr>lint := x\<rparr>) \<and> call s WCpu = None)
    \<and> (sint v < sint c \<and> m (mwmon_mmap_area g) = MWMON_NOTIFIED_VAL \<longrightarrow>
        (\<exists>t. run (sys_mwmon_mmap_spin_while_greater True g c) (wait_start m v w) (replicate 6 WCpu) = Some t
          \<and> wpc t = W_Done \<and> sint (lint t) < sint c \<and> wmem t (mwmon_mmap_area g) = MWMON_ORIGINAL_VAL))"
proof (intro conjI impI)
  show "\<exists>t. run (sys_mwmon_mmap_spin_while_greater True g c) (wait_start m v w) (replicate 6 WCpu) = Some t
      \<and> wpc t = W_Done \<and> sint (lint t) < sint c \<and> wmem t (mwmon_mmap_area g) = MWMON_ORIGINAL_VAL"
    if "sint v < sint c \<and> m (mwmon_mmap_area g) = MWMON_NOTIFIED_VAL"
    using that by (simp add: numeral_eq_Suc sys_mwmon_mmap_spin_while_greater_def wait_cpu_def wait_start_def)
next
  assume a: "sint v < sint c \<and> (\<forall>x. WLint x \<in> set ls \<longrightarrow> sint x < sint c) \<and> run call (wait_start m v w) ls = Some s"
  have "sint (lint s) < sint c \<and> wpc s \<notin> {W_Check, W_Restore, W_Done}"
    by (rule wait_small_run [where ls = ls and s = "wait_start m v w" and g = g])
      (use a in \<open>auto simp: call_def wait_start_def\<close>)
  then show "wpc s \<notin> {W_Restore, W_Done}" by simp
qed (simp_all add: call_def sys_mwmon_mmap_spin_while_greater_def wait_cpu_def)

text \<open>The sleeper has gone to sleep below its bound; the variable is then raised to the bound.\<close>

lemmas wait_eval = sys_mwmon_mmap_spin_while_greater_def wait_cpu_def wait_start_def wwake_def g0_def

lemma spin_while_greater_waits_witness:
  "\<exists>s t. run (sys_mwmon_mmap_spin_while_greater False g0 7) (wait_start (\<lambda>_. 0) (- 1) None)
      [WLint 6, WCpu, WCpu, WCpu, WCpu, WCpu] = Some s
    \<and> wpc s = W_Asleep \<and> wpc s \<notin> {W_Restore, W_Done}
    \<and> sys_mwmon_mmap_spin_while_greater False g0 7 s (WLint 7) = Some t \<and> wpc t = W_Asleep
    \<and> (\<exists>t. run (sys_mwmon_mmap_spin_while_greater True g0 7) (wait_start (\<lambda>_. MWMON_NOTIFIED_VAL) (- 1) None)
        (replicate 6 WCpu) = Some t \<and> wpc t = W_Done \<and> sint (lint t) < 7)"
proof -
  let ?ls = "[WLint 6, WCpu, WCpu, WCpu, WCpu, WCpu]"
  obtain s where s: "run (sys_mwmon_mmap_spin_while_greater False g0 7) (wait_start (\<lambda>_. 0) (- 1) None) ?ls = Some s"
    and h: "wpc s = W_Asleep"
    by (simp add: wait_eval)
  show ?thesis
    using spin_while_greater_waits [of "- 1" 7 ?ls g0 "\<lambda>_. 0" None s 7] s h
      spin_while_greater_waits [of "- 1" 7 ?ls g0 "\<lambda>_. MWMON_NOTIFIED_VAL" None s 7] by auto
qed

text \<open>
  \<open>sys_mwmon_kernel_init\<close>: either \<open>kmalloc\<close> failed, the result is \<open>-ENOMEM\<close> and no byte
  changes; or the result is 0 and the kernel's block lies inside the allocation, starts at a line
  boundary, fills that line exactly, and holds the original value in every byte, with every
  other line untouched.
\<close>

lemma kernel_init_block:
  assumes "allocator kmalloc" and "sys_mwmon_kernel_init kmalloc g m = (r, g', m')"
  shows "r = - ENOMEM \<and> kmalloc 127 = 0 \<and> mwmon_kernel_memory g' = 0 \<and> m' = m
    \<or> r = 0 \<and> kmalloc 127 \<noteq> 0 \<and> 64 dvd unat (mwmon_kernel_memory g')
      \<and> unat (kmalloc 127) \<le> unat (mwmon_kernel_memory g')
      \<and> unat (mwmon_kernel_memory g') + 64 \<le> unat (kmalloc 127) + 127
      \<and> (\<forall>a. m' a = (if same_line a (mwmon_kernel_memory g') then MWMON_ORIGINAL_VAL else m a))"
proof (cases "kmalloc 127 = 0")
  case True
  then show ?thesis
    using assms(2) by (auto simp: sys_mwmon_kernel_init_def Let_def MWMON_ALIGN_BOUNDARY_def
        MWMON_MONITORED_MEM_BYTES_def my_kmalloc_align_64)
next
  case False
  let ?p = "kmalloc 127" and ?q = "align_up 64 (kmalloc 127)"
  have b: "unat ?p + 127 < 2 ^ 64" using assms(1) False by (auto simp: allocator_def)
  have q: "64 dvd unat ?q" "unat ?p \<le> unat ?q" "unat ?q \<le> unat ?p + 63"
    using align_up_bounds [of 6 ?p] b by simp_all
  have "?q \<noteq> 0" using q(2) False by (metis le_zero_eq unat_0 unat_eq_zero)
  then have r: "r = 0" "mwmon_kernel_memory g' = ?q" "m' = fill m ?q MWMON_ORIGINAL_VAL 64"
    using assms(2) False by (auto simp: sys_mwmon_kernel_init_def Let_def MWMON_ALIGN_BOUNDARY_def
        MWMON_MONITORED_MEM_BYTES_def my_kmalloc_align_64)
  have "unat (a - ?q) < 64 \<longleftrightarrow> same_line a ?q" for a
    using line_of_aligned [OF q(1), of a] q(3) b
    by (auto simp: unat_sub_if_size word_size)
  then have "m' a = (if same_line a ?q then MWMON_ORIGINAL_VAL else m a)" for a
    by (simp add: r fill_def)
  then show ?thesis using r q False by simp
qed

text \<open>
  After a successful \<open>sys_mwmon_kernel_init\<close>, \<open>sys_mwmon_kernel_finalize\<close> hands \<open>kfree\<close> the
  address that \<open>kmalloc\<close> returned only if that address happened to be on a line boundary;
  otherwise it frees an address that was never allocated.
\<close>

lemma kernel_finalize_frees:
  assumes "allocator kmalloc" and "sys_mwmon_kernel_init kmalloc g m = (0, g', m')"
  shows "snd (sys_mwmon_kernel_finalize g') = kmalloc 127 \<longleftrightarrow> 64 dvd unat (kmalloc 127)"
proof -
  have p: "kmalloc 127 \<noteq> 0"
    using assms(2) by (auto simp: sys_mwmon_kernel_init_def Let_def MWMON_ALIGN_BOUNDARY_def ENOMEM_def
        MWMON_MONITORED_MEM_BYTES_def my_kmalloc_align_64)
  then have b: "unat (kmalloc 127) + 127 < 2 ^ 64" using assms(1) by (auto simp: allocator_def)
  have g: "mwmon_kernel_memory g' = align_up 64 (kmalloc 127)"
    using assms(2) p by (auto simp: sys_mwmon_kernel_init_def Let_def MWMON_ALIGN_BOUNDARY_def ENOMEM_def
        MWMON_MONITORED_MEM_BYTES_def my_kmalloc_align_64 split: if_splits)
  have q: "64 dvd unat (align_up 64 (kmalloc 127))" "unat (align_up 64 (kmalloc 127)) \<le> unat (kmalloc 127) + 63"
      "unat (kmalloc 127) \<le> unat (align_up 64 (kmalloc 127))"
    using align_up_bounds [of 6 "kmalloc 127"] b by simp_all
  have "align_up 64 (kmalloc 127) = kmalloc 127 \<longleftrightarrow> 64 dvd unat (kmalloc 127)"
  proof
    assume "64 dvd unat (kmalloc 127)"
    then have "unat (align_up 64 (kmalloc 127)) = unat (kmalloc 127)"
      using q by (elim dvdE) simp
    then show "align_up 64 (kmalloc 127) = kmalloc 127" by (simp add: word_unat_eq_iff)
  qed (use q(1) in simp)
  then show ?thesis by (simp add: sys_mwmon_kernel_finalize_def g)
qed

text \<open>
  C25.  The kernel's block: either \<open>kmalloc\<close> failed, \<open>sys_mwmon_kernel_init\<close> returns \<open>-ENOMEM\<close> and no byte
  changes; or the result is 0 and the block lies inside the allocation, starts at a line boundary, fills that line
  exactly and holds the original value in every byte, every other line being untouched.  In the second case
  \<open>sys_mwmon_kernel_finalize\<close> hands \<open>kfree\<close> the address that \<open>kmalloc\<close> returned only if that address happened to be on a line
  boundary; otherwise it frees an address that was never allocated.
\<close>

theorem kernel_block:
  assumes "allocator kmalloc" and "sys_mwmon_kernel_init kmalloc g m = (r, g', m')"
  shows "r = - ENOMEM \<and> kmalloc 127 = 0 \<and> mwmon_kernel_memory g' = 0 \<and> m' = m
    \<or> r = 0 \<and> kmalloc 127 \<noteq> 0 \<and> 64 dvd unat (mwmon_kernel_memory g')
      \<and> unat (kmalloc 127) \<le> unat (mwmon_kernel_memory g')
      \<and> unat (mwmon_kernel_memory g') + 64 \<le> unat (kmalloc 127) + 127
      \<and> (\<forall>a. m' a = (if same_line a (mwmon_kernel_memory g') then MWMON_ORIGINAL_VAL else m a))
      \<and> (snd (sys_mwmon_kernel_finalize g') = kmalloc 127 \<longleftrightarrow> 64 dvd unat (kmalloc 127))"
  using kernel_init_block [OF assms] kernel_finalize_frees [of kmalloc g m g' m'] assms by blast

lemma kernel_block_witness:
  "\<exists>g' m'. sys_mwmon_kernel_init (\<lambda>sz. if unat sz < 200 then 1001 else 0) g0 (\<lambda>_. 0) = (0, g', m')
     \<and> mwmon_kernel_memory g' = 1024 \<and> m' 1087 = MWMON_ORIGINAL_VAL \<and> m' 1088 = 0
     \<and> snd (sys_mwmon_kernel_finalize g') \<noteq> 1001"
proof -
  let ?k = "\<lambda>sz :: u64. if unat sz < 200 then 1001 else 0 :: u64"
  obtain r g' m' where i: "sys_mwmon_kernel_init ?k g0 (\<lambda>_. 0) = (r, g', m')"
    by (cases "sys_mwmon_kernel_init ?k g0 (\<lambda>_. 0)") blast
  have "allocator ?k" by (simp add: allocator_def)
  from kernel_block [OF this i] have r: "r = 0" "\<And>a. m' a = (if same_line a (mwmon_kernel_memory g') then MWMON_ORIGINAL_VAL else 0)"
      "snd (sys_mwmon_kernel_finalize g') \<noteq> 1001"
    by (simp_all add: ENOMEM_def)
  have "mwmon_kernel_memory g' = 1024"
    using i by (auto simp: sys_mwmon_kernel_init_def Let_def MWMON_ALIGN_BOUNDARY_def MWMON_MONITORED_MEM_BYTES_def
        my_kmalloc_align_64 align_up_def split: if_splits)
  then show ?thesis
    using i r by (simp add: same_line_def MWMON_MONITORED_MEM_BYTES_def)
qed

text \<open>
  C26.  \<open>sys_cpu_halt\<close> returns exactly when an interrupt finds the processor halted.  Entered with interrupts
  enabled, as system calls are, it sleeps through an interrupt that comes between its two instructions; only
  with interrupts disabled before would \<open>sti\<close> prevent that.
\<close>

theorem cpu_halt_returns:
  assumes "run sys_cpu_halt (halt_start enabled) ls = Some s"
  shows "(hpc s = H_Done \<longleftrightarrow> (\<exists>xs ys. ls = xs @ HIrq # ys
      \<and> map_option hpc (run sys_cpu_halt (halt_start enabled) xs) = Some H_Halted))
    \<and> map_option hpc (run sys_cpu_halt (halt_start enabled) [HCpu, HIrq, HCpu]) = (if enabled then Some H_Halted else None)"
proof
  show "map_option hpc (run sys_cpu_halt (halt_start enabled) [HCpu, HIrq, HCpu]) = (if enabled then Some H_Halted else None)"
    unfolding cpu_halt_loses_interrupt by simp
qed (rule cpu_halt_run [OF assms])

lemma cpu_halt_returns_witness:
  "\<exists>s. run sys_cpu_halt (halt_start True) [HCpu, HIrq, HCpu, HIrq] = Some s \<and> hpc s = H_Done"
proof -
  obtain s where s: "run sys_cpu_halt (halt_start True) [HCpu, HIrq, HCpu, HIrq] = Some s"
    by (simp add: halt_start_def sys_cpu_halt_def)
  have "map_option hpc (run sys_cpu_halt (halt_start True) [HCpu, HIrq, HCpu]) = Some H_Halted"
    using cpu_halt_returns [OF s] by simp
  moreover have "[HCpu, HIrq, HCpu, HIrq] = [HCpu, HIrq, HCpu] @ HIrq # []" by simp
  ultimately have "hpc s = H_Done" using cpu_halt_returns [OF s] by metis
  with s show ?thesis by blast
qed

end
