(* ===== verification/Mwait_Barrier.thy ===== *)
theory Mwait_Barrier
  imports Mwait_Kernel Barrier_Spec Atomics
begin

text \<open>
  The barrier of \<open>mwait_barrier.c\<close>: the last thread to arrive stores the notified value in the
  watched byte, the others sleep in \<open>sys_mwmon_mmap_sleep\<close> (\<open>sys_mwmon_mmap_sleep2\<close> for the second
  package).  The sleeping call is the one of \<open>Mwait_Kernel\<close>, statement by statement, with its
  watch and its interrupts; the byte is the one the kernel and the program share through the
  mapped page.  The lock is taken in one step, as \<open>Barrier_Asm\<close> justifies; here the thread that
  releases it need not be the one that took it, so only its being held matters.
\<close>

section \<open>The barrier and its threads\<close>

record mwait_barrier_s =
  mb_locked :: bool
  left :: u32
  gathered :: u32
  init_count :: u32
  curr_event :: u32

definition mwait_barrier_init :: "mwait_barrier_s \<Rightarrow> u32 \<Rightarrow> mwait_barrier_s" where
  "mwait_barrier_init b nthreads =
     b\<lparr>left := nthreads, gathered := 0, init_count := nthreads, mb_locked := False\<rparr>"

datatype mpc =
    M_Idle      \<comment> \<open>outside a call\<close>
  | M_Lock      \<comment> \<open>in \<open>spin_lock_fast\<close>\<close>
  | M_Load      \<comment> \<open>before the load of \<open>++gathered\<close>\<close>
  | M_Store     \<comment> \<open>before the store of \<open>++gathered\<close>\<close>
  | M_Test      \<comment> \<open>before \<open>gathered == init_count\<close>\<close>
  | M_Notify    \<comment> \<open>before the store of the notified value\<close>
  | M_Unlock    \<comment> \<open>before \<open>spin_unlock_fast\<close>, on the way to sleep\<close>
  | M_Sleep     \<comment> \<open>in the sleeping system call\<close>
  | M_Dec       \<comment> \<open>before \<open>atomic_dec_and_test\<close>\<close>
  | M_Release   \<comment> \<open>before the last \<open>spin_unlock_fast\<close>\<close>

record mthread =
  mpc :: mpc
  mcount :: u32      \<comment> \<open>the local \<open>init_count\<close>\<close>
  mtmp :: u32
  mslp :: sleeper
  mcalls :: nat
  mreturns :: nat

record msys =
  mbar :: mwait_barrier_s
  mmem :: memory
  mthr :: "tid \<Rightarrow> mthread"

datatype mlabel = MTh tid | MIrq tid bool | MStore addr u8

text \<open>The other threads' processors see a store of thread \<open>i\<close> at \<open>p\<close>.\<close>

definition others_see :: "addr \<Rightarrow> tid \<Rightarrow> (tid \<Rightarrow> mthread) \<Rightarrow> tid \<Rightarrow> mthread" where
  "others_see p i th = (\<lambda>j. if j = i then th j else (th j)\<lparr>mslp := saw_store p (mslp (th j))\<rparr>)"

definition mreturn :: "mthread \<Rightarrow> mthread" where
  "mreturn t = t\<lparr>mpc := M_Idle, mreturns := Suc (mreturns t)\<rparr>"

definition mwait_thread :: "addr \<Rightarrow> msys \<Rightarrow> tid \<Rightarrow> msys option" where
  "mwait_thread p s i =
     (let t = mthr s i; b = mbar s;
          go = (\<lambda>b' t'. Some (s\<lparr>mbar := b', mthr := (mthr s)(i := t')\<rparr>)) in
      case mpc t of
        M_Idle \<Rightarrow> go b (t\<lparr>mcount := init_count b, mcalls := Suc (mcalls t), mpc := M_Lock\<rparr>)
      | M_Lock \<Rightarrow> (if mb_locked b then None else go (b\<lparr>mb_locked := True\<rparr>) (t\<lparr>mpc := M_Load\<rparr>))
      | M_Load \<Rightarrow> go b (t\<lparr>mtmp := gathered b, mpc := M_Store\<rparr>)
      | M_Store \<Rightarrow> go (b\<lparr>gathered := mtmp t + 1\<rparr>) (t\<lparr>mpc := M_Test\<rparr>)
      | M_Test \<Rightarrow> go b (t\<lparr>mpc := if gathered b = mcount t then M_Notify else M_Unlock\<rparr>)
      | M_Notify \<Rightarrow> Some (s\<lparr>mmem := (mmem s)(p := MWMON_NOTIFIED_VAL),
                      mthr := (others_see p i (mthr s))(i := t\<lparr>mpc := M_Dec\<rparr>)\<rparr>)
      | M_Unlock \<Rightarrow> go (b\<lparr>mb_locked := False\<rparr>)
                      (t\<lparr>mslp := (mslp t)\<lparr>spc := Irq_Off, irqs := True\<rparr>, mpc := M_Sleep\<rparr>)
      | M_Sleep \<Rightarrow>
          (if spc (mslp t) = Done then go b (t\<lparr>mpc := M_Dec\<rparr>)
           else case sleep_cpu p (mmem s) (mslp t) of
             None \<Rightarrow> None
           | Some (m', u) \<Rightarrow> Some (s\<lparr>mmem := m',
               mthr := (if spc (mslp t) = Restore then others_see p i (mthr s) else mthr s)
                 (i := t\<lparr>mslp := u\<rparr>)\<rparr>))
      | M_Dec \<Rightarrow> (let (zero, v) = atomic_dec_and_test (gathered b) in
                   go (b\<lparr>gathered := v\<rparr>) (if zero then t\<lparr>mpc := M_Release\<rparr> else mreturn t))
      | M_Release \<Rightarrow> go (b\<lparr>mb_locked := False\<rparr>) (mreturn t))"

text \<open>Interrupts reach a sleeping thread, and unrelated stores to memory may come at any time.\<close>

definition mwait_step :: "addr \<Rightarrow> nat \<Rightarrow> msys \<Rightarrow> mlabel \<Rightarrow> msys option" where
  "mwait_step p n s l = (case l of
     MTh i \<Rightarrow> (if i < n then mwait_thread p s i else None)
   | MIrq i disarms \<Rightarrow>
       (if i < n \<and> mpc (mthr s i) = M_Sleep \<and> irqs (mslp (mthr s i))
        then Some (s\<lparr>mthr := (mthr s)(i := (mthr s i)\<lparr>mslp := took_irq disarms (mslp (mthr s i))\<rparr>)\<rparr>)
        else None)
   | MStore a v \<Rightarrow>
       (if a \<noteq> p
        then Some (s\<lparr>mmem := (mmem s)(a := v), mthr := (\<lambda>j. (mthr s j)\<lparr>mslp := saw_store a (mslp (mthr s j))\<rparr>)\<rparr>)
        else None))"

definition mwait_barrier :: "kglobals \<Rightarrow> nat \<Rightarrow> msys \<Rightarrow> mlabel \<Rightarrow> msys option" where
  "mwait_barrier g = mwait_step (mwmon_mmap_area g)"

definition mwait_barrier2 :: "kglobals \<Rightarrow> nat \<Rightarrow> msys \<Rightarrow> mlabel \<Rightarrow> msys option" where
  "mwait_barrier2 g = mwait_step (mwmon_mmap_area2 g)"

definition mwait_start :: "mwait_barrier_s \<Rightarrow> memory \<Rightarrow> sleeper \<Rightarrow> nat \<Rightarrow> msys" where
  "mwait_start b m u n = \<lparr>mbar = mwait_barrier_init b (word_of_nat n), mmem = m,
     mthr = (\<lambda>_. \<lparr>mpc = M_Idle, mcount = 0, mtmp = 0, mslp = u, mcalls = 0, mreturns = 0\<rparr>)\<rparr>"

section \<open>Two threads\<close>

text \<open>
  A round runs through eight phases.  In each of them \<open>x\<close> and \<open>y\<close> are the two threads, in one
  order or the other: \<open>x\<close> arrives first and sleeps, \<open>y\<close> arrives last and notifies.
\<close>

definition m_before :: "nat \<Rightarrow> mthread \<Rightarrow> bool" where
  "m_before R t \<longleftrightarrow> mreturns t = R \<and>
     (mpc t = M_Idle \<and> mcalls t = R \<or> mpc t = M_Lock \<and> mcalls t = Suc R \<and> mcount t = 2)"

definition m_inside :: "nat \<Rightarrow> mthread \<Rightarrow> bool" where
  "m_inside R t \<longleftrightarrow> mreturns t = R \<and> mcalls t = Suc R \<and> mcount t = 2"

definition m_slept :: "addr \<Rightarrow> memory \<Rightarrow> mthread \<Rightarrow> bool" where
  "m_slept p m t \<longleftrightarrow> mpc t = M_Sleep \<and> sleep_inv p \<lparr>smem = m, slp = mslp t\<rparr>"

definition m_waiting :: "addr \<Rightarrow> memory \<Rightarrow> mthread \<Rightarrow> bool" where
  "m_waiting p m t \<longleftrightarrow> m_slept p m t \<and> spc (mslp t) \<notin> {Restore, Done} \<and> m p \<noteq> MWMON_NOTIFIED_VAL"

definition m_waking :: "addr \<Rightarrow> memory \<Rightarrow> mthread \<Rightarrow> bool" where
  "m_waking p m t \<longleftrightarrow>
     m_slept p m t \<and> spc (mslp t) \<noteq> Done \<and> m p = MWMON_NOTIFIED_VAL
     \<or> m_slept p m t \<and> spc (mslp t) = Done \<and> m p \<noteq> MWMON_NOTIFIED_VAL
     \<or> mpc t = M_Dec \<and> m p \<noteq> MWMON_NOTIFIED_VAL"

datatype phase = Empty | First | Sleeping | Second | Woken | Lagging | Leaving | Closing

fun in_phase :: "addr \<Rightarrow> nat \<Rightarrow> phase \<Rightarrow> mwait_barrier_s \<Rightarrow> memory \<Rightarrow> mthread \<Rightarrow> mthread \<Rightarrow> bool" where
  "in_phase p R Empty b m x y \<longleftrightarrow> \<not> mb_locked b \<and> gathered b = 0 \<and> m p \<noteq> MWMON_NOTIFIED_VAL
     \<and> m_before R x \<and> m_before R y"
| "in_phase p R First b m x y \<longleftrightarrow> mb_locked b \<and> m p \<noteq> MWMON_NOTIFIED_VAL \<and> m_inside R x \<and> m_before R y
     \<and> (mpc x = M_Load \<and> gathered b = 0 \<or> mpc x = M_Store \<and> mtmp x = 0 \<and> gathered b = 0
        \<or> mpc x = M_Test \<and> gathered b = 1 \<or> mpc x = M_Unlock \<and> gathered b = 1)"
| "in_phase p R Sleeping b m x y \<longleftrightarrow> \<not> mb_locked b \<and> gathered b = 1 \<and> m_waiting p m x \<and> m_inside R x
     \<and> m_before R y"
| "in_phase p R Second b m x y \<longleftrightarrow> mb_locked b \<and> m_waiting p m x \<and> m_inside R x \<and> m_inside R y
     \<and> (mpc y = M_Load \<and> gathered b = 1 \<or> mpc y = M_Store \<and> mtmp y = 1 \<and> gathered b = 1
        \<or> mpc y = M_Test \<and> gathered b = 2 \<or> mpc y = M_Notify \<and> gathered b = 2)"
| "in_phase p R Woken b m x y \<longleftrightarrow> mb_locked b \<and> gathered b = 2 \<and> m_waking p m x \<and> m_inside R x
     \<and> m_inside R y \<and> mpc y = M_Dec"
| "in_phase p R Lagging b m x y \<longleftrightarrow> mb_locked b \<and> gathered b = 1 \<and> m_waking p m x \<and> m_inside R x
     \<and> m_before (Suc R) y"
| "in_phase p R Leaving b m x y \<longleftrightarrow> mb_locked b \<and> gathered b = 1 \<and> m p \<noteq> MWMON_NOTIFIED_VAL
     \<and> m_before (Suc R) x \<and> m_inside R y \<and> mpc y = M_Dec"
| "in_phase p R Closing b m x y \<longleftrightarrow> mb_locked b \<and> gathered b = 0 \<and> m p \<noteq> MWMON_NOTIFIED_VAL
     \<and> m_inside R x \<and> mpc x = M_Release \<and> m_before (Suc R) y"

definition mwait_inv :: "addr \<Rightarrow> nat \<Rightarrow> msys \<Rightarrow> bool" where
  "mwait_inv p R s \<longleftrightarrow> init_count (mbar s) = 2 \<and>
     (\<exists>ph. in_phase p R ph (mbar s) (mmem s) (mthr s 0) (mthr s 1)
         \<or> in_phase p R ph (mbar s) (mmem s) (mthr s 1) (mthr s 0))"

lemma mwait_inv_start: "m p \<noteq> MWMON_NOTIFIED_VAL \<Longrightarrow> mwait_inv p 0 (mwait_start b m u 2)"
  unfolding mwait_inv_def mwait_start_def mwait_barrier_init_def
  by (simp add: m_before_def exI [of _ Empty])

text \<open>The sleeping thread's own moves.\<close>

lemma sleep_cpu_inv:
  assumes "sleep_inv p \<lparr>smem = m, slp = t\<rparr>" and "sleep_cpu p m t = Some (m', t')"
  shows "sleep_inv p \<lparr>smem = m', slp = t'\<rparr>"
  by (rule sleep_inv_step [OF assms(1), of SCpu]) (simp add: sleep_step_def assms(2))

lemma waiting_cpu:
  assumes "m_waiting p m t" and "sleep_cpu p m (mslp t) = Some (m', u)"
  shows "m' = m" and "m_waiting p m (t\<lparr>mslp := u\<rparr>)"
proof -
  have i: "sleep_inv p \<lparr>smem = m', slp = u\<rparr>"
    by (rule sleep_cpu_inv [of p m "mslp t"]) (use assms in \<open>simp_all add: m_waiting_def m_slept_def\<close>)
  have "m' = m \<and> spc u \<notin> {Restore, Done}"
    using assms by (cases "spc (mslp t)") (auto simp: m_waiting_def sleep_cpu_def split: if_splits)
  then show "m' = m" and "m_waiting p m (t\<lparr>mslp := u\<rparr>)"
    using assms(1) i by (auto simp: m_waiting_def m_slept_def)
qed

lemma waking_cpu:
  assumes "m_slept p m t" and "spc (mslp t) \<noteq> Done" and "m p = MWMON_NOTIFIED_VAL"
    and "sleep_cpu p m (mslp t) = Some (m', u)"
  shows "m_waking p m' (t\<lparr>mslp := u\<rparr>)"
proof -
  have i: "sleep_inv p \<lparr>smem = m', slp = u\<rparr>"
    by (rule sleep_cpu_inv [of p m "mslp t"]) (use assms in \<open>simp_all add: m_slept_def\<close>)
  have "(spc u = Done) = (m' p \<noteq> MWMON_NOTIFIED_VAL)"
    using assms(2-4) by (cases "spc (mslp t)") (auto simp: sleep_cpu_def split: if_splits)
  then show ?thesis using assms(1) i by (auto simp: m_waking_def m_slept_def)
qed

lemma waiting_notified:
  assumes "m_waiting p m t"
  shows "m_waking p (m(p := MWMON_NOTIFIED_VAL)) (t\<lparr>mslp := saw_store p (mslp t)\<rparr>)"
proof -
  have "sleep_inv p \<lparr>smem = m(p := MWMON_NOTIFIED_VAL), slp = saw_store p (mslp t)\<rparr>"
    by (rule sleep_inv_step [of p "\<lparr>smem = m, slp = mslp t\<rparr>" "SStore p MWMON_NOTIFIED_VAL"])
      (use assms in \<open>simp_all add: m_waiting_def m_slept_def sleep_step_def\<close>)
  then show ?thesis
    using assms by (auto simp: m_waking_def m_slept_def m_waiting_def saw_store_def wake_def split: option.splits)
qed

text \<open>A step of one of two threads as a function of the shared state and the two of them.\<close>

definition pair_step :: "addr \<Rightarrow> mwait_barrier_s \<Rightarrow> memory \<Rightarrow> mthread \<Rightarrow> mthread
    \<Rightarrow> (mwait_barrier_s \<times> memory \<times> mthread \<times> mthread) option" where
  "pair_step p b m t o' =
     map_option (\<lambda>s. (mbar s, mmem s, mthr s 0, mthr s 1))
       (mwait_thread p \<lparr>mbar = b, mmem = m, mthr = (\<lambda>i. if i = 0 then t else o')\<rparr> 0)"

lemma pair_step_simp:
  "pair_step p b m t o' = (case mpc t of
     M_Idle \<Rightarrow> Some (b, m, t\<lparr>mcount := init_count b, mcalls := Suc (mcalls t), mpc := M_Lock\<rparr>, o')
   | M_Lock \<Rightarrow> (if mb_locked b then None else Some (b\<lparr>mb_locked := True\<rparr>, m, t\<lparr>mpc := M_Load\<rparr>, o'))
   | M_Load \<Rightarrow> Some (b, m, t\<lparr>mtmp := gathered b, mpc := M_Store\<rparr>, o')
   | M_Store \<Rightarrow> Some (b\<lparr>gathered := mtmp t + 1\<rparr>, m, t\<lparr>mpc := M_Test\<rparr>, o')
   | M_Test \<Rightarrow> Some (b, m, t\<lparr>mpc := if gathered b = mcount t then M_Notify else M_Unlock\<rparr>, o')
   | M_Notify \<Rightarrow> Some (b, m(p := MWMON_NOTIFIED_VAL), t\<lparr>mpc := M_Dec\<rparr>, o'\<lparr>mslp := saw_store p (mslp o')\<rparr>)
   | M_Unlock \<Rightarrow> Some (b\<lparr>mb_locked := False\<rparr>, m, t\<lparr>mslp := (mslp t)\<lparr>spc := Irq_Off, irqs := True\<rparr>, mpc := M_Sleep\<rparr>, o')
   | M_Sleep \<Rightarrow>
       (if spc (mslp t) = Done then Some (b, m, t\<lparr>mpc := M_Dec\<rparr>, o')
        else map_option (\<lambda>(m', u). (b, m', t\<lparr>mslp := u\<rparr>,
              if spc (mslp t) = Restore then o'\<lparr>mslp := saw_store p (mslp o')\<rparr> else o')) (sleep_cpu p m (mslp t)))
   | M_Dec \<Rightarrow> Some (b\<lparr>gathered := gathered b - 1\<rparr>, m,
               if gathered b - 1 = 0 then t\<lparr>mpc := M_Release\<rparr> else mreturn t, o')
   | M_Release \<Rightarrow> Some (b\<lparr>mb_locked := False\<rparr>, m, mreturn t, o'))"
  by (cases "mpc t")
    (simp_all add: pair_step_def mwait_thread_def Let_def others_see_def split: option.split)

lemma pair_step_correct:
  assumes "mwait_thread p s i = Some s'" and "i < 2" "j < 2" "i \<noteq> j"
  shows "pair_step p (mbar s) (mmem s) (mthr s i) (mthr s j) = Some (mbar s', mmem s', mthr s' i, mthr s' j)"
  using assms
  by (cases "mpc (mthr s i)")
    (auto simp: pair_step_simp mwait_thread_def Let_def others_see_def split: option.splits if_splits)

text \<open>\<open>next_phase\<close>: the pair is in some phase of this round or of the next one, in one order or the other.\<close>

definition next_phase :: "addr \<Rightarrow> nat \<Rightarrow> mwait_barrier_s \<Rightarrow> memory \<Rightarrow> mthread \<Rightarrow> mthread \<Rightarrow> bool" where
  "next_phase p R b m x y \<longleftrightarrow> init_count b = 2 \<and>
     (\<exists>ph R'. (R' = R \<or> R' = Suc R) \<and> (in_phase p R' ph b m x y \<or> in_phase p R' ph b m y x))"

lemma next_phaseI:
  "init_count b = 2 \<Longrightarrow> in_phase p R ph b m x y \<Longrightarrow> next_phase p R b m x y"
  "init_count b = 2 \<Longrightarrow> in_phase p R ph b m y x \<Longrightarrow> next_phase p R b m x y"
  "init_count b = 2 \<Longrightarrow> in_phase p (Suc R) ph b m x y \<Longrightarrow> next_phase p R b m x y"
  "init_count b = 2 \<Longrightarrow> in_phase p (Suc R) ph b m y x \<Longrightarrow> next_phase p R b m x y"
  by (auto simp: next_phase_def)

lemmas m_simps = m_before_def m_inside_def mreturn_def

text \<open>The store that wakes nobody: the other thread is not in the sleeping call.\<close>

lemma before_sees [simp]: "m_before R (t\<lparr>mslp := u\<rparr>) = m_before R t"
  by (simp add: m_before_def)

lemma inside_sees [simp]: "m_inside R (t\<lparr>mslp := u\<rparr>) = m_inside R t"
  by (simp add: m_inside_def)

lemma phase_x_Empty:
  assumes "in_phase p R Empty b m x y" and "init_count b = 2" and "pair_step p b m x y = Some (b', m', x', y')"
  shows "next_phase p R b' m' x' y'"
proof (cases "mpc x")
  case M_Idle
  then have "in_phase p R Empty b' m' x' y'" "init_count b' = 2"
    using assms by (auto simp: pair_step_simp m_simps)
  then show ?thesis by (rule next_phaseI(1) [rotated])
next
  case M_Lock
  then have "in_phase p R First b' m' x' y'" "init_count b' = 2"
    using assms by (auto simp: pair_step_simp m_simps)
  then show ?thesis by (rule next_phaseI(1) [rotated])
qed (use assms in \<open>auto simp: m_simps\<close>)

lemma phase_x_First:
  assumes "in_phase p R First b m x y" and "init_count b = 2" and "pair_step p b m x y = Some (b', m', x', y')"
  shows "next_phase p R b' m' x' y'"
proof (cases "mpc x = M_Unlock")
  case True
  then have "in_phase p R Sleeping b' m' x' y'" "init_count b' = 2"
    using assms by (auto simp: pair_step_simp m_simps m_waiting_def m_slept_def sleep_inv_def)
  then show ?thesis by (rule next_phaseI(1) [rotated])
next
  case False
  then have "in_phase p R First b' m' x' y'" "init_count b' = 2"
    using assms by (auto simp: pair_step_simp m_simps)
  then show ?thesis by (rule next_phaseI(1) [rotated])
qed

lemma phase_x_waiting:
  assumes "in_phase p R ph b m x y" and "ph = Sleeping \<or> ph = Second" and "init_count b = 2"
    and "pair_step p b m x y = Some (b', m', x', y')"
  shows "next_phase p R b' m' x' y'"
proof -
  have w: "m_waiting p m x" "mpc x = M_Sleep" "spc (mslp x) \<noteq> Done" "spc (mslp x) \<noteq> Restore"
    using assms(1,2) by (auto simp: m_waiting_def m_slept_def)
  then obtain u where u: "sleep_cpu p m (mslp x) = Some (m', u)" "b' = b" "x' = x\<lparr>mslp := u\<rparr>" "y' = y"
    using assms(4) by (auto simp: pair_step_simp)
  have "in_phase p R ph b' m' x' y'"
    using assms(1,2) waiting_cpu [OF w(1) u(1)] u(2-4) by auto
  then show ?thesis using assms(3) u(2) next_phaseI(1) by simp
qed

lemma phase_x_waking:
  assumes "in_phase p R ph b m x y" and "ph = Woken \<or> ph = Lagging" and "init_count b = 2"
    and "pair_step p b m x y = Some (b', m', x', y')"
  shows "next_phase p R b' m' x' y'"
proof -
  have w: "m_waking p m x" using assms(1,2) by auto
  consider "m_slept p m x" "spc (mslp x) \<noteq> Done" "m p = MWMON_NOTIFIED_VAL"
    | "m_slept p m x" "spc (mslp x) = Done" "m p \<noteq> MWMON_NOTIFIED_VAL"
    | "mpc x = M_Dec" "m p \<noteq> MWMON_NOTIFIED_VAL"
    using w by (auto simp: m_waking_def)
  then show ?thesis
  proof cases
    case 1
    then obtain u where u: "sleep_cpu p m (mslp x) = Some (m', u)" "b' = b" "x' = x\<lparr>mslp := u\<rparr>"
        "y' = y \<or> y' = y\<lparr>mslp := saw_store p (mslp y)\<rparr>"
      using assms(4) by (auto simp: pair_step_simp m_slept_def split: if_splits)
    have "in_phase p R ph b' m' x' y'"
      using assms(1,2) waking_cpu [OF 1 u(1)] u(2-4) by auto
    then show ?thesis using assms(3) u(2) next_phaseI(1) by simp
  next
    case 2
    then have "in_phase p R ph b' m' x' y'" "init_count b' = 2"
      using assms by (auto simp: pair_step_simp m_slept_def m_waking_def m_simps)
    then show ?thesis by (rule next_phaseI(1) [rotated])
  next
    case 3
    show ?thesis
    proof (cases "ph = Woken")
      case True
      then have "in_phase p R Leaving b' m' x' y'" "init_count b' = 2"
        using assms 3 by (auto simp: pair_step_simp m_simps)
      then show ?thesis by (rule next_phaseI(1) [rotated])
    next
      case False
      then have "in_phase p R Closing b' m' x' y'" "init_count b' = 2"
        using assms 3 by (auto simp: pair_step_simp m_simps)
      then show ?thesis by (rule next_phaseI(1) [rotated])
    qed
  qed
qed

lemma phase_x_Leaving:
  assumes "in_phase p R Leaving b m x y" and "init_count b = 2" and "pair_step p b m x y = Some (b', m', x', y')"
  shows "next_phase p R b' m' x' y'"
proof -
  have "in_phase p R Leaving b' m' x' y'" "init_count b' = 2"
    using assms by (auto simp: pair_step_simp m_simps)
  then show ?thesis by (rule next_phaseI(1) [rotated])
qed

lemma phase_x_Closing:
  assumes "in_phase p R Closing b m x y" and "init_count b = 2" and "pair_step p b m x y = Some (b', m', x', y')"
  shows "next_phase p R b' m' x' y'"
proof -
  have "in_phase p (Suc R) Empty b' m' x' y'" "init_count b' = 2"
    using assms by (auto simp: pair_step_simp m_simps)
  then show ?thesis by (rule next_phaseI(3) [rotated])
qed

lemma phase_x:
  assumes "in_phase p R ph b m x y" and "init_count b = 2" and "pair_step p b m x y = Some (b', m', x', y')"
  shows "next_phase p R b' m' x' y'"
proof -
  consider "ph = Empty" | "ph = First" | "ph = Sleeping \<or> ph = Second" | "ph = Woken \<or> ph = Lagging"
    | "ph = Leaving" | "ph = Closing"
    by (cases ph) auto
  then show ?thesis
    using assms phase_x_Empty phase_x_First phase_x_waiting phase_x_waking phase_x_Leaving phase_x_Closing
    by cases metis+
qed

text \<open>Moves of the thread that arrives second.\<close>

lemma phase_y_blocked:
  assumes "in_phase p R ph b m x y" and "ph \<in> {First, Lagging, Closing}" and "init_count b = 2"
    and "pair_step p b m y x = Some (b', m', y', x')"
  shows "next_phase p R b' m' x' y'"
proof -
  have l: "mb_locked b" and y: "m_before R y \<or> m_before (Suc R) y" using assms(1,2) by auto
  then have "mpc y = M_Idle" using assms(4) by (auto simp: pair_step_simp m_before_def)
  then have "in_phase p R ph b' m' x' y'" "init_count b' = 2"
    using assms by (auto simp: pair_step_simp m_simps)
  then show ?thesis by (rule next_phaseI(1) [rotated])
qed

lemma phase_y_Sleeping:
  assumes "in_phase p R Sleeping b m x y" and "init_count b = 2" and "pair_step p b m y x = Some (b', m', y', x')"
  shows "next_phase p R b' m' x' y'"
proof (cases "mpc y")
  case M_Idle
  then have "in_phase p R Sleeping b' m' x' y'" "init_count b' = 2"
    using assms by (auto simp: pair_step_simp m_simps)
  then show ?thesis by (rule next_phaseI(1) [rotated])
next
  case M_Lock
  then have "in_phase p R Second b' m' x' y'" "init_count b' = 2"
    using assms by (auto simp: pair_step_simp m_simps)
  then show ?thesis by (rule next_phaseI(1) [rotated])
qed (use assms in \<open>auto simp: m_simps\<close>)

lemma phase_y_Second:
  assumes "in_phase p R Second b m x y" and "init_count b = 2" and "pair_step p b m y x = Some (b', m', y', x')"
  shows "next_phase p R b' m' x' y'"
proof (cases "mpc y = M_Notify")
  case True
  then have "in_phase p R Woken b' m' x' y'" "init_count b' = 2"
    using assms waiting_notified [of p m x] by (auto simp: pair_step_simp m_inside_def)
  then show ?thesis by (rule next_phaseI(1) [rotated])
next
  case False
  then have "in_phase p R Second b' m' x' y'" "init_count b' = 2"
    using assms by (auto simp: pair_step_simp m_inside_def)
  then show ?thesis by (rule next_phaseI(1) [rotated])
qed

lemma phase_y_Woken:
  assumes "in_phase p R Woken b m x y" and "init_count b = 2" and "pair_step p b m y x = Some (b', m', y', x')"
  shows "next_phase p R b' m' x' y'"
proof -
  have "in_phase p R Lagging b' m' x' y'" "init_count b' = 2"
    using assms by (auto simp: pair_step_simp m_simps)
  then show ?thesis by (rule next_phaseI(1) [rotated])
qed

lemma phase_y_Leaving:
  assumes "in_phase p R Leaving b m x y" and "init_count b = 2" and "pair_step p b m y x = Some (b', m', y', x')"
  shows "next_phase p R b' m' x' y'"
proof -
  have "in_phase p R Closing b' m' y' x'" "init_count b' = 2"
    using assms by (auto simp: pair_step_simp m_simps)
  then show ?thesis by (rule next_phaseI(2) [rotated])
qed

lemma phase_y_Empty:
  assumes "in_phase p R Empty b m x y" and "init_count b = 2" and "pair_step p b m y x = Some (b', m', y', x')"
  shows "next_phase p R b' m' x' y'"
proof -
  have "in_phase p R Empty b m y x" using assms(1) by simp
  from phase_x_Empty [OF this assms(2,3)] show ?thesis by (auto simp: next_phase_def)
qed

lemma phase_y:
  assumes "in_phase p R ph b m x y" and "init_count b = 2" and "pair_step p b m y x = Some (b', m', y', x')"
  shows "next_phase p R b' m' x' y'"
proof (cases "ph \<in> {First, Lagging, Closing}")
  case True
  then show ?thesis using phase_y_blocked [OF assms(1) _ assms(2,3)] by blast
next
  case False
  then consider "ph = Empty" | "ph = Sleeping" | "ph = Second" | "ph = Woken" | "ph = Leaving"
    by (cases ph) auto
  then show ?thesis
    using assms phase_y_Empty phase_y_Sleeping phase_y_Second phase_y_Woken phase_y_Leaving
    by cases metis+
qed

lemma mwait_thread_inv:
  assumes inv: "mwait_inv p R s" and st: "mwait_thread p s i = Some s'" and i: "i < 2"
  shows "mwait_inv p R s' \<or> mwait_inv p (Suc R) s'"
proof -
  obtain ph where b: "init_count (mbar s) = 2"
    and ph: "in_phase p R ph (mbar s) (mmem s) (mthr s 0) (mthr s 1)
           \<or> in_phase p R ph (mbar s) (mmem s) (mthr s 1) (mthr s 0)"
    using inv by (auto simp: mwait_inv_def)
  have "next_phase p R (mbar s') (mmem s') (mthr s' 0) (mthr s' 1)
      \<or> next_phase p R (mbar s') (mmem s') (mthr s' 1) (mthr s' 0)"
  proof (cases "i = 0")
    case True
    then have "pair_step p (mbar s) (mmem s) (mthr s 0) (mthr s 1) = Some (mbar s', mmem s', mthr s' 0, mthr s' 1)"
      using pair_step_correct [OF st i, of 1] by simp
    from ph phase_x [OF _ b this] phase_y [OF _ b this] show ?thesis by blast
  next
    case False
    then have "i = 1" using i by simp
    then have "pair_step p (mbar s) (mmem s) (mthr s 1) (mthr s 0) = Some (mbar s', mmem s', mthr s' 1, mthr s' 0)"
      using pair_step_correct [OF st i, of 0] by simp
    from ph phase_x [OF _ b this] phase_y [OF _ b this] show ?thesis by blast
  qed
  then show ?thesis unfolding next_phase_def mwait_inv_def by blast
qed

text \<open>Interrupts and unrelated stores do not change the phase.\<close>

lemma sleep_env:
  assumes "sleep_step p \<lparr>smem = m, slp = mslp t\<rparr> l = Some \<lparr>smem = m', slp = u\<rparr>"
    and "l \<noteq> SCpu" and "\<forall>v. l \<noteq> SStore p v"
  shows "m_waiting p m t \<Longrightarrow> m_waiting p m' (t\<lparr>mslp := u\<rparr>)"
    and "m_waking p m t \<Longrightarrow> mpc t = M_Sleep \<Longrightarrow> m_waking p m' (t\<lparr>mslp := u\<rparr>)"
proof -
  have i: "sleep_inv p \<lparr>smem = m, slp = mslp t\<rparr> \<Longrightarrow> sleep_inv p \<lparr>smem = m', slp = u\<rparr>"
    using sleep_inv_step [OF _ assms(1)] by simp
  have m: "m' p = m p"
    using assms by (cases l) (auto simp: sleep_step_def split: if_splits)
  have "spc u = spc (mslp t) \<or> spc (mslp t) = Asleep \<and> spc u = Recheck"
    using assms(1,2)
    by (cases l) (auto simp: sleep_step_def took_irq_def saw_store_def wake_def split: option.splits if_splits)
  then show "m_waiting p m t \<Longrightarrow> m_waiting p m' (t\<lparr>mslp := u\<rparr>)"
    and "m_waking p m t \<Longrightarrow> mpc t = M_Sleep \<Longrightarrow> m_waking p m' (t\<lparr>mslp := u\<rparr>)"
    using i m by (auto simp: m_waiting_def m_waking_def m_slept_def)
qed

lemma phase_env:
  assumes ph: "in_phase p R ph b m x y" and m: "m' p = m p"
    and st: "mpc x = M_Sleep \<Longrightarrow> \<exists>l. l \<noteq> SCpu \<and> (\<forall>v. l \<noteq> SStore p v) \<and>
        sleep_step p \<lparr>smem = m, slp = mslp x\<rparr> l = Some \<lparr>smem = m', slp = u\<rparr>"
  shows "in_phase p R ph b m' (x\<lparr>mslp := u\<rparr>) (y\<lparr>mslp := w\<rparr>)"
proof -
  have a: "m_waiting p m' (x\<lparr>mslp := u\<rparr>)" if "m_waiting p m x"
  proof -
    have "mpc x = M_Sleep" using that by (simp add: m_waiting_def m_slept_def)
    then show ?thesis using st that sleep_env(1) by blast
  qed
  have k: "m_waking p m' (x\<lparr>mslp := u\<rparr>)" if "m_waking p m x"
  proof (cases "mpc x = M_Sleep")
    case True
    then show ?thesis using st that sleep_env(2) by blast
  next
    case False
    then show ?thesis using that m by (auto simp: m_waking_def m_slept_def)
  qed
  show ?thesis using ph m a k by (cases ph) auto
qed

lemma phase_y_awake: "in_phase p R ph b m x y \<Longrightarrow> mpc y \<noteq> M_Sleep"
  by (cases ph) (auto simp: m_before_def)

lemma mwait_irq_inv:
  assumes inv: "mwait_inv p R s" and i: "i < 2" and q: "mpc (mthr s i) = M_Sleep" "irqs (mslp (mthr s i))"
  shows "mwait_inv p R (s\<lparr>mthr := (mthr s)(i := (mthr s i)\<lparr>mslp := took_irq d (mslp (mthr s i))\<rparr>)\<rparr>)"
    (is "mwait_inv p R ?s'")
proof -
  have e: "in_phase p R ph (mbar s) (mmem s) (mthr ?s' i) (mthr ?s' j)"
    if "in_phase p R ph (mbar s) (mmem s) (mthr s i) (mthr s j)" "j \<noteq> i" for ph j
  proof -
    have "in_phase p R ph (mbar s) (mmem s) ((mthr s i)\<lparr>mslp := took_irq d (mslp (mthr s i))\<rparr>)
        ((mthr s j)\<lparr>mslp := mslp (mthr s j)\<rparr>)"
      by (rule phase_env [OF that(1)])
        (use q in \<open>auto simp: sleep_step_def intro!: exI [of _ "SIrq d"]\<close>)
    then show ?thesis using that(2) by simp
  qed
  obtain ph where ph: "in_phase p R ph (mbar s) (mmem s) (mthr s 0) (mthr s 1)
           \<or> in_phase p R ph (mbar s) (mmem s) (mthr s 1) (mthr s 0)"
    using inv by (auto simp: mwait_inv_def)
  have "init_count (mbar s) = 2" using inv by (simp add: mwait_inv_def)
  moreover have "i = 0 \<or> i = 1" using i by auto
  then have "in_phase p R ph (mbar ?s') (mmem ?s') (mthr ?s' 0) (mthr ?s' 1)
      \<or> in_phase p R ph (mbar ?s') (mmem ?s') (mthr ?s' 1) (mthr ?s' 0)"
  proof
    assume "i = 0"
    then show ?thesis using ph phase_y_awake [of p R ph _ _ "mthr s 1"] q(1) e [of ph 1] by auto
  next
    assume "i = 1"
    then show ?thesis using ph phase_y_awake [of p R ph _ _ "mthr s 0"] q(1) e [of ph 0] by auto
  qed
  ultimately show ?thesis unfolding mwait_inv_def by auto
qed

lemma mwait_store_inv:
  assumes inv: "mwait_inv p R s" and a: "a \<noteq> p"
  shows "mwait_inv p R (s\<lparr>mmem := (mmem s)(a := v), mthr := (\<lambda>j. (mthr s j)\<lparr>mslp := saw_store a (mslp (mthr s j))\<rparr>)\<rparr>)"
proof -
  have e: "in_phase p R ph b ((mmem s)(a := v)) (x\<lparr>mslp := saw_store a (mslp x)\<rparr>) (y\<lparr>mslp := w\<rparr>)"
    if "in_phase p R ph b (mmem s) x y" for ph b x y w
    by (rule phase_env [OF that]) (use a in \<open>auto simp: sleep_step_def intro!: exI [of _ "SStore a v"]\<close>)
  obtain ph where "init_count (mbar s) = 2" and "in_phase p R ph (mbar s) (mmem s) (mthr s 0) (mthr s 1)
           \<or> in_phase p R ph (mbar s) (mmem s) (mthr s 1) (mthr s 0)"
    using inv by (auto simp: mwait_inv_def)
  then show ?thesis unfolding mwait_inv_def by (auto intro: e simp del: in_phase.simps)
qed

lemma mwait_step_inv:
  assumes "mwait_inv p R s" and "mwait_step p 2 s l = Some s'"
  shows "mwait_inv p R s' \<or> mwait_inv p (Suc R) s'"
proof (cases l)
  case (MTh i)
  then show ?thesis using assms mwait_thread_inv by (auto simp: mwait_step_def split: if_splits)
next
  case (MIrq i d)
  then show ?thesis using assms mwait_irq_inv by (auto simp: mwait_step_def split: if_splits)
next
  case (MStore a v)
  then show ?thesis using assms mwait_store_inv by (auto simp: mwait_step_def split: if_splits)
qed

lemma mwait_reachable_inv:
  assumes "reachable (mwait_step p 2) (mwait_start b m u 2) s" and "m p \<noteq> MWMON_NOTIFIED_VAL"
  shows "\<exists>R. mwait_inv p R s"
  using assms(1)
  by (rule reachable_invariant) (use mwait_inv_start [of m p b u, OF assms(2)] mwait_step_inv in blast)+

lemma phase_calls:
  assumes "in_phase p R ph b m x y"
  shows "mreturns x \<le> mcalls y \<and> mreturns y \<le> mcalls x \<and> mcalls x \<le> Suc (mreturns x)
    \<and> mcalls y \<le> Suc (mreturns y) \<and> mreturns x \<le> mcalls x \<and> mreturns y \<le> mcalls y
    \<and> R \<le> mreturns x \<and> R \<le> mreturns y \<and> mreturns x \<le> Suc R \<and> mreturns y \<le> Suc R"
  using assms by (cases ph) (auto simp: m_before_def m_inside_def)

lemma mwait_inv_calls:
  assumes "mwait_inv p R s" and "i < 2" and "j < 2"
  shows "mreturns (mthr s i) \<le> mcalls (mthr s j)" and "mcalls (mthr s i) \<le> Suc (mreturns (mthr s i))"
    and "R \<le> mreturns (mthr s i)" and "mreturns (mthr s i) \<le> Suc R"
proof -
  have i: "i = 0 \<or> i = 1" "j = 0 \<or> j = 1" using assms(2,3) by auto
  obtain ph where "in_phase p R ph (mbar s) (mmem s) (mthr s 0) (mthr s 1)
           \<or> in_phase p R ph (mbar s) (mmem s) (mthr s 1) (mthr s 0)"
    using assms(1) by (auto simp: mwait_inv_def)
  then show "mreturns (mthr s i) \<le> mcalls (mthr s j)" and "mcalls (mthr s i) \<le> Suc (mreturns (mthr s i))"
    and "R \<le> mreturns (mthr s i)" and "mreturns (mthr s i) \<le> Suc R"
    using i phase_calls by blast+
qed

section \<open>The barriers keep the contract for two threads\<close>

text \<open>The memory a barrier starts in: the watched byte does not hold the notified value.\<close>

definition quiet :: "addr \<Rightarrow> memory \<Rightarrow> memory" where
  "quiet p m = (if m p = MWMON_NOTIFIED_VAL then m(p := MWMON_ORIGINAL_VAL) else m)"

lemma quiet_byte [simp]: "quiet p m p \<noteq> MWMON_NOTIFIED_VAL"
  by (simp add: quiet_def)

lemma quiet_id: "m p \<noteq> MWMON_NOTIFIED_VAL \<Longrightarrow> quiet p m = m"
  by (simp add: quiet_def)

interpretation mb: round_barrier "mwait_barrier g" "mwait_start b (quiet (mwmon_mmap_area g) m) u"
    "\<lambda>n. n = 2" "\<lambda>s i. mcalls (mthr s i)" "\<lambda>s i. mreturns (mthr s i)" for g b m u
  unfolding mwait_barrier_def
  by unfold_locales (meson mwait_reachable_inv mwait_inv_calls quiet_byte)+

interpretation mb2: round_barrier "mwait_barrier2 g" "mwait_start b (quiet (mwmon_mmap_area2 g) m) u"
    "\<lambda>n. n = 2" "\<lambda>s i. mcalls (mthr s i)" "\<lambda>s i. mreturns (mthr s i)" for g b m u
  unfolding mwait_barrier2_def
  by unfold_locales (meson mwait_reachable_inv mwait_inv_calls quiet_byte)+

section \<open>Progress\<close>

definition mrank :: "nat \<Rightarrow> mthread \<Rightarrow> nat" where
  "mrank R t = (case mpc t of
     M_Idle \<Rightarrow> (if mcalls t = R then 30 else 0)
   | M_Lock \<Rightarrow> (if mcalls t = Suc R then 29 else 0)
   | M_Load \<Rightarrow> 28 | M_Store \<Rightarrow> 27 | M_Test \<Rightarrow> 26 | M_Notify \<Rightarrow> 25 | M_Unlock \<Rightarrow> 25
   | M_Sleep \<Rightarrow> 10 + sleep_rank (spc (mslp t))
   | M_Dec \<Rightarrow> 2 | M_Release \<Rightarrow> 1)"

text \<open>In every phase one of the two threads can move and comes nearer to the end of the round.\<close>

definition helps :: "addr \<Rightarrow> nat \<Rightarrow> mwait_barrier_s \<Rightarrow> memory \<Rightarrow> mthread \<Rightarrow> mthread \<Rightarrow> bool" where
  "helps p R b m t o' \<longleftrightarrow> (case pair_step p b m t o' of
     None \<Rightarrow> False
   | Some (b', m', t', o'') \<Rightarrow> mrank R t' + mrank R o'' < mrank R t + mrank R o')"

lemma sleep_rank_store: "sleep_rank (spc (saw_store p t)) \<le> sleep_rank (spc t) + 2"
  by (auto simp: saw_store_def wake_def split: option.splits)

lemma sleep_rank_store_awake: "spc t \<noteq> Asleep \<Longrightarrow> sleep_rank (spc (saw_store p t)) = sleep_rank (spc t)"
  by (auto simp: saw_store_def wake_def split: option.splits)

lemmas helps_simps = helps_def pair_step_simp mrank_def mreturn_def

lemma helps_before:
  assumes "m_before R t" and "\<not> mb_locked b"
  shows "helps p R b m t o'"
proof (cases "mpc t = M_Idle")
  case True
  then show ?thesis using assms by (simp add: helps_simps m_before_def)
next
  case False
  then have "mpc t = M_Lock" using assms by (auto simp: m_before_def)
  then show ?thesis using assms by (simp add: helps_simps m_before_def)
qed

lemma helps_waking:
  assumes "m_waking p m x" and "m_inside R x" and "m_before (Suc R) y"
  shows "helps p R b m x y"
proof -
  have sees: "mrank R (y\<lparr>mslp := w\<rparr>) = mrank R y" for w
    using assms(3) by (auto simp: mrank_def m_before_def)
  show ?thesis
  proof (cases "mpc x = M_Sleep \<and> spc (mslp x) \<noteq> Done")
    case True
    then have i: "sleep_inv p \<lparr>smem = m, slp = mslp x\<rparr>" "m p = MWMON_NOTIFIED_VAL"
      using assms(1) by (auto simp: m_waking_def m_slept_def)
    then have "returning p (sleep_rank (spc (mslp x))) \<lparr>smem = m, slp = mslp x\<rparr>"
      using True by (auto simp: returning_def sleep_inv_def)
    then obtain t where t: "sleep_step p \<lparr>smem = m, slp = mslp x\<rparr> SCpu = Some t"
        "returning p (sleep_rank (spc (mslp x)) - 1) t"
      using returning_cpu by blast
    then have c: "sleep_cpu p m (mslp x) = Some (smem t, slp t)"
      by (auto simp: sleep_step_def split: option.splits)
    have "spc (mslp x) \<noteq> Asleep" using i by (auto simp: sleep_inv_def)
    then have "0 < sleep_rank (spc (mslp x))" using True by (cases "spc (mslp x)") auto
    moreover have "sleep_rank (spc (slp t)) \<le> sleep_rank (spc (mslp x)) - 1"
      using t(2) by (auto simp: returning_def)
    ultimately show ?thesis
      using True c by (simp add: helps_def pair_step_simp sees) (simp add: mrank_def)?
  next
    case False
    then have "mpc x = M_Sleep \<and> spc (mslp x) = Done \<or> mpc x = M_Dec"
      using assms(1) by (auto simp: m_waking_def m_slept_def)
    then show ?thesis
      using assms(2) by (elim disjE conjE) (simp_all add: helps_simps m_inside_def)
  qed
qed

lemma mrank_sees:
  "mrank R (t\<lparr>mslp := saw_store p (mslp t)\<rparr>) \<le> mrank R t + 2"
  using sleep_rank_store [of p "mslp t"] by (simp add: mrank_def split: mpc.split)

lemma helps_first:
  assumes "m_inside R x" and "mpc x \<in> {M_Load, M_Store, M_Test, M_Unlock, M_Release, M_Dec}"
    and "mpc x = M_Test \<longrightarrow> gathered b \<noteq> mcount x"
  shows "helps p R b m x y"
  using assms by (elim insertE emptyE) (simp_all add: helps_simps m_inside_def)

lemma helps_second:
  assumes "m_inside R y" and "mpc y \<in> {M_Load, M_Store, M_Test, M_Notify}"
    and "mpc y = M_Test \<longrightarrow> gathered b = mcount y"
  shows "helps p R b m y x"
proof (cases "mpc y = M_Notify")
  case True
  have "mrank R (x\<lparr>mslp := saw_store p (mslp x)\<rparr>) \<le> mrank R x + 2" by (rule mrank_sees)
  then have "2 + mrank R (x\<lparr>mslp := saw_store p (mslp x)\<rparr>) < 25 + mrank R x" by simp
  moreover have "mrank R y = 25" "mrank R (y\<lparr>mpc := M_Dec\<rparr>) = 2" using True by (simp_all add: mrank_def)
  ultimately show ?thesis using True by (simp add: helps_def pair_step_simp)
next
  case False
  then show ?thesis using assms by (elim insertE emptyE) (simp_all add: helps_simps)
qed

lemma phase_helps:
  assumes ph: "in_phase p R ph b m x y"
  shows "helps p R b m x y \<or> helps p R b m y x"
proof (cases ph)
  case Empty
  then show ?thesis using ph helps_before by simp
next
  case First
  then have "helps p R b m x y" using ph by (intro helps_first) (auto simp: m_inside_def)
  then show ?thesis ..
next
  case Sleeping
  then show ?thesis using ph helps_before by simp
next
  case Second
  then have "helps p R b m y x" using ph by (intro helps_second) (auto simp: m_inside_def)
  then show ?thesis ..
next
  case Woken
  then have "helps p R b m y x" using ph by (intro helps_first) auto
  then show ?thesis ..
next
  case Lagging
  then show ?thesis using ph helps_waking by simp
next
  case Leaving
  then have "helps p R b m y x" using ph by (intro helps_first) auto
  then show ?thesis ..
next
  case Closing
  then have "helps p R b m x y" using ph by (intro helps_first) auto
  then show ?thesis ..
qed

lemma pair_step_enabled:
  assumes "pair_step p (mbar s) (mmem s) (mthr s i) o' \<noteq> None"
  shows "\<exists>s'. mwait_thread p s i = Some s'"
  using assms
  by (cases "mpc (mthr s i)") (auto simp: pair_step_simp mwait_thread_def Let_def split: option.splits if_splits)

definition mtotal_rank :: "nat \<Rightarrow> msys \<Rightarrow> nat" where
  "mtotal_rank R s = mrank R (mthr s 0) + mrank R (mthr s 1)"

lemma helps_advances:
  assumes "helps p R (mbar s) (mmem s) (mthr s i) (mthr s j)" and "i < 2" "j < 2" "i \<noteq> j"
  shows "\<exists>s'. mwait_step p 2 s (MTh i) = Some s' \<and> mtotal_rank R s' < mtotal_rank R s"
proof -
  obtain b' m' t' o'' where h: "pair_step p (mbar s) (mmem s) (mthr s i) (mthr s j) = Some (b', m', t', o'')"
      "mrank R t' + mrank R o'' < mrank R (mthr s i) + mrank R (mthr s j)"
    using assms(1) by (auto simp: helps_def split: option.splits)
  then obtain s' where s': "mwait_thread p s i = Some s'" using pair_step_enabled by blast
  have "t' = mthr s' i" "o'' = mthr s' j"
    using pair_step_correct [OF s' assms(2-4)] h(1) by simp_all
  moreover have "i = 0 \<and> j = 1 \<or> i = 1 \<and> j = 0" using assms(2-4) by linarith
  ultimately have "mtotal_rank R s' < mtotal_rank R s" using h(2) by (auto simp: mtotal_rank_def)
  then show ?thesis using s' assms(2) by (simp add: mwait_step_def)
qed

lemma mprogress_step:
  assumes "mwait_inv p R s"
  shows "\<exists>l t. mwait_step p 2 s l = Some t \<and>
    (mwait_inv p (Suc R) t \<or> mwait_inv p R t \<and> mtotal_rank R t < mtotal_rank R s)"
proof -
  have "helps p R (mbar s) (mmem s) (mthr s 0) (mthr s 1) \<or> helps p R (mbar s) (mmem s) (mthr s 1) (mthr s 0)"
    using assms phase_helps unfolding mwait_inv_def by blast
  then obtain i where "\<exists>t. mwait_step p 2 s (MTh i) = Some t \<and> mtotal_rank R t < mtotal_rank R s"
    using helps_advances [of p R s 0 1] helps_advances [of p R s 1 0] by auto
  then show ?thesis using mwait_step_inv [OF assms] by blast
qed

section \<open>Properties\<close>

text \<open>
  C3.  The MONITOR/MWAIT barriers separate rounds for the two threads they are made for: with
  every statement of the barrier and of the sleeping system call interleaved in any order,
  with interrupts and with unrelated stores at any moment, a call returns only after the other
  thread has begun its call of the same round, and the two are never more than one round apart.
\<close>

theorem mwait_barrier_rounds:
  assumes "(barrier, p) \<in> {(mwait_barrier g, mwmon_mmap_area g), (mwait_barrier2 g, mwmon_mmap_area2 g)}"
    and "m p \<noteq> MWMON_NOTIFIED_VAL" and "reachable (barrier 2) (mwait_start b m u 2) s" and "i < 2" and "j < 2"
  shows "mreturns (mthr s i) \<le> mcalls (mthr s j) \<and> mcalls (mthr s i) \<le> Suc (mcalls (mthr s j))"
proof -
  consider "barrier = mwait_barrier g" "p = mwmon_mmap_area g" | "barrier = mwait_barrier2 g" "p = mwmon_mmap_area2 g"
    using assms(1) by auto
  then show ?thesis
  proof cases
    case 1
    then show ?thesis
      using assms mb.all_or_none [of 2 g b m u s] mb.drift [of 2 g b m u s] by (simp add: quiet_id)
  next
    case 2
    then show ?thesis
      using assms mb2.all_or_none [of 2 g b m u s] mb2.drift [of 2 g b m u s] by (simp add: quiet_id)
  qed
qed

definition mb0 :: mwait_barrier_s where
  "mb0 = \<lparr>mb_locked = True, left = 9, gathered = 9, init_count = 9, curr_event = 9\<rparr>"

definition u0 :: sleeper where
  "u0 = \<lparr>spc = Done, armed = None, irqs = True\<rparr>"

lemmas mwait_eval = mwait_start_def mwait_barrier_init_def mwait_step_def mwait_thread_def Let_def
  others_see_def mreturn_def mb0_def u0_def sleep_eval

text \<open>Thread 0 arrives and falls asleep; thread 1 arrives, notifies and returns.\<close>

definition mround :: "mlabel list" where
  "mround = [MTh 0, MTh 0, MTh 0, MTh 0, MTh 0, MTh 0, MTh 0, MTh 0, MTh 0, MTh 0, MTh 0,
     MTh 1, MTh 1, MTh 1, MTh 1, MTh 1, MTh 1, MTh 1]"

lemma mround_run:
  "\<exists>s. run (mwait_barrier g0 2) (mwait_start mb0 (\<lambda>_. 0) u0 2) mround = Some s
     \<and> mreturns (mthr s 1) = 1 \<and> mreturns (mthr s 0) = 0 \<and> mpc (mthr s 0) = M_Sleep"
  by (simp add: mround_def mwait_barrier_def mwait_eval)

lemma mwait_barrier_rounds_witness:
  "\<exists>s. run (mwait_barrier g0 2) (mwait_start mb0 (\<lambda>_. 0) u0 2) mround = Some s
     \<and> mreturns (mthr s 1) = 1 \<and> mreturns (mthr s 0) = 0
     \<and> mreturns (mthr s 1) \<le> mcalls (mthr s 0) \<and> mcalls (mthr s 1) \<le> Suc (mcalls (mthr s 0))"
proof -
  obtain s where s: "run (mwait_barrier g0 2) (mwait_start mb0 (\<lambda>_. 0) u0 2) mround = Some s"
      "mreturns (mthr s 1) = 1" "mreturns (mthr s 0) = 0"
    using mround_run by blast
  have "mreturns (mthr s 1) \<le> mcalls (mthr s 0) \<and> mcalls (mthr s 1) \<le> Suc (mcalls (mthr s 0))"
    by (rule mwait_barrier_rounds [of "mwait_barrier g0" "mwmon_mmap_area g0" g0 "\<lambda>_. 0", OF _ _ run_reachable [OF s(1)]])
      (simp_all add: MWMON_NOTIFIED_VAL_def)
  with s show ?thesis by blast
qed

text \<open>
  C4.  Two threads never get stuck in a MONITOR/MWAIT barrier: no notification is lost
  between the barrier and the sleeping call, so from every reachable state there is a
  continuation in which both complete \<open>k\<close> further calls, for every \<open>k\<close>.
\<close>

theorem mwait_barrier_never_deadlocks:
  assumes "(barrier, p) \<in> {(mwait_barrier g, mwmon_mmap_area g), (mwait_barrier2 g, mwmon_mmap_area2 g)}"
    and "m p \<noteq> MWMON_NOTIFIED_VAL" and "reachable (barrier 2) (mwait_start b m u 2) s"
  shows "\<exists>t. reachable (barrier 2) s t \<and> (\<forall>i<2. mreturns (mthr s i) + k \<le> mreturns (mthr t i))"
proof -
  have b: "barrier 2 = mwait_step p 2"
    using assms(1) by (auto simp: mwait_barrier_def mwait_barrier2_def)
  obtain R where R: "mwait_inv p R s" using mwait_reachable_inv [OF assms(3)[unfolded b] assms(2)] by blast
  obtain t where t: "reachable (mwait_step p 2) s t" "mwait_inv p (R + Suc k) t"
    using rounds_complete [where rank = mtotal_rank, OF mprogress_step R] by blast
  have "mreturns (mthr s i) + k \<le> mreturns (mthr t i)" if "i < 2" for i
    using mwait_inv_calls(4) [OF R that that] mwait_inv_calls(3) [OF t(2) that that] by simp
  with t(1) b show ?thesis by auto
qed

lemma mwait_barrier_never_deadlocks_witness:
  "\<exists>s t. run (mwait_barrier g0 2) (mwait_start mb0 (\<lambda>_. 0) u0 2) mround = Some s
     \<and> mpc (mthr s 0) = M_Sleep \<and> reachable (mwait_barrier g0 2) s t \<and> 4 \<le> mreturns (mthr t 0)"
proof -
  obtain s where s: "run (mwait_barrier g0 2) (mwait_start mb0 (\<lambda>_. 0) u0 2) mround = Some s"
      "mpc (mthr s 0) = M_Sleep"
    using mround_run by blast
  obtain t where t: "reachable (mwait_barrier g0 2) s t" "\<forall>i<2. mreturns (mthr s i) + 4 \<le> mreturns (mthr t i)"
    using mwait_barrier_never_deadlocks [of "mwait_barrier g0" "mwmon_mmap_area g0" g0 "\<lambda>_. 0" mb0 u0 s 4]
      run_reachable [OF s(1)] by (auto simp: MWMON_NOTIFIED_VAL_def)
  from t(2) have "mreturns (mthr s 0) + 4 \<le> mreturns (mthr t 0)" by simp
  then show ?thesis using s t(1) add_leE by blast
qed

text \<open>
  C5.  What the barrier looks like: never more than two arrivals are counted, and whenever both threads
  are outside of it everything is as \<open>mwait_barrier_init\<close> left it, so that it can be used again: the lock free,
  the count zero, no notification left behind, and both threads with the same number of completed calls.
\<close>

theorem mwait_barrier_at_rest:
  assumes "(barrier, p) \<in> {(mwait_barrier g, mwmon_mmap_area g), (mwait_barrier2 g, mwmon_mmap_area2 g)}"
    and "m p \<noteq> MWMON_NOTIFIED_VAL" and "reachable (barrier 2) (mwait_start b m u 2) s"
  shows "gathered (mbar s) \<le> 2 \<and> init_count (mbar s) = 2
    \<and> (mpc (mthr s 0) = M_Idle \<and> mpc (mthr s 1) = M_Idle \<longrightarrow>
         \<not> mb_locked (mbar s) \<and> gathered (mbar s) = 0 \<and> mmem s p \<noteq> MWMON_NOTIFIED_VAL
       \<and> mreturns (mthr s 0) = mreturns (mthr s 1))"
proof -
  have b: "barrier 2 = mwait_step p 2"
    using assms(1) by (auto simp: mwait_barrier_def mwait_barrier2_def)
  obtain R where R: "mwait_inv p R s" using mwait_reachable_inv [OF assms(3)[unfolded b] assms(2)] by blast
  have ph: "gathered c \<le> 2 \<and> (mpc x = M_Idle \<and> mpc y = M_Idle \<longrightarrow>
      \<not> mb_locked c \<and> gathered c = 0 \<and> m p \<noteq> MWMON_NOTIFIED_VAL \<and> mreturns x = mreturns y)"
    if "in_phase p R ph c m x y" for ph c m x y
    using that by (cases ph) (auto simp: m_before_def m_waiting_def m_waking_def m_slept_def)
  show ?thesis using R unfolding mwait_inv_def by (auto dest: ph)
qed

lemma mwait_barrier_at_rest_witness:
  "\<exists>s. run (mwait_barrier g0 2) (mwait_start mb0 (\<lambda>_. 0) u0 2) (mround @ [MTh 0, MTh 0, MTh 0, MTh 0, MTh 0]) = Some s
     \<and> mreturns (mthr s 0) = 1 \<and> mreturns (mthr s 1) = 1 \<and> \<not> mb_locked (mbar s) \<and> gathered (mbar s) = 0"
proof -
  obtain s where s: "run (mwait_barrier g0 2) (mwait_start mb0 (\<lambda>_. 0) u0 2) (mround @ [MTh 0, MTh 0, MTh 0, MTh 0, MTh 0]) = Some s"
      "mpc (mthr s 0) = M_Idle" "mpc (mthr s 1) = M_Idle" "mreturns (mthr s 0) = 1"
    by (simp add: mround_def mwait_barrier_def mwait_eval)
  show ?thesis
    using mwait_barrier_at_rest [of "mwait_barrier g0" "mwmon_mmap_area g0" g0 "\<lambda>_. 0", OF _ _ run_reachable [OF s(1)]] s
    by (simp add: MWMON_NOTIFIED_VAL_def)
qed

section \<open>More than two threads\<close>

text \<open>
  One byte can only call one sleeper: the first of two sleepers to look takes the notification
  away from the other, and the lock stays held until the other has left.
\<close>

definition hung :: "addr \<Rightarrow> msys \<Rightarrow> bool" where
  "hung p s \<longleftrightarrow> mb_locked (mbar s) \<and> m_waiting p (mmem s) (mthr s 1)
     \<and> mpc (mthr s 0) \<in> {M_Idle, M_Lock} \<and> mpc (mthr s 2) \<in> {M_Idle, M_Lock}"

lemma hung_thread:
  assumes h: "hung p s" and st: "mwait_thread p s i = Some t" and i: "i < 3"
  shows "hung p t \<and> (\<forall>j. mreturns (mthr t j) = mreturns (mthr s j))"
proof (cases "i = 1")
  case True
  have w: "m_waiting p (mmem s) (mthr s 1)" using h by (simp add: hung_def)
  then have q: "mpc (mthr s 1) = M_Sleep" "spc (mslp (mthr s 1)) \<notin> {Restore, Done}"
    by (auto simp: m_waiting_def m_slept_def)
  then obtain m' u where c: "sleep_cpu p (mmem s) (mslp (mthr s 1)) = Some (m', u)"
    using st True by (auto simp: mwait_thread_def Let_def split: option.splits)
  have "t = s\<lparr>mmem := m', mthr := (mthr s)(1 := (mthr s 1)\<lparr>mslp := u\<rparr>)\<rparr>"
    using st True q c by (simp add: mwait_thread_def Let_def)
  then show ?thesis using h waiting_cpu [OF w c] by (auto simp: hung_def)
next
  case False
  then have "i = 0 \<or> i = 2" using i by linarith
  then have "mpc (mthr s i) = M_Idle"
    using h st by (auto simp: hung_def mwait_thread_def Let_def split: if_splits)
  then show ?thesis using st h \<open>i = 0 \<or> i = 2\<close> by (auto simp: mwait_thread_def Let_def hung_def)
qed

lemma hung_env:
  assumes "hung p s" and "sleep_step p \<lparr>smem = mmem s, slp = mslp (mthr s 1)\<rparr> l = Some \<lparr>smem = m', slp = u\<rparr>"
    and "l \<noteq> SCpu" "\<forall>v. l \<noteq> SStore p v"
  shows "m_waiting p m' ((mthr s 1)\<lparr>mslp := u\<rparr>)"
  using sleep_env(1) [OF assms(2-4)] assms(1) by (simp add: hung_def)

lemma hung_step:
  assumes h: "hung p s" and st: "mwait_step p 3 s l = Some t"
  shows "hung p t \<and> (\<forall>j. mreturns (mthr t j) = mreturns (mthr s j))"
proof (cases l)
  case (MTh i)
  then show ?thesis using st hung_thread [OF h] by (auto simp: mwait_step_def split: if_splits)
next
  case (MIrq i d)
  then have i: "i < 3" "mpc (mthr s i) = M_Sleep" "irqs (mslp (mthr s i))"
    and t: "t = s\<lparr>mthr := (mthr s)(i := (mthr s i)\<lparr>mslp := took_irq d (mslp (mthr s i))\<rparr>)\<rparr>"
    using st by (auto simp: mwait_step_def split: if_splits)
  have "i \<noteq> 0" "i \<noteq> 2" using i(2) h unfolding hung_def by (metis empty_iff insert_iff mpc.distinct)+
  then have "i = 1" using i(1) by linarith
  moreover have "m_waiting p (mmem s) ((mthr s 1)\<lparr>mslp := took_irq d (mslp (mthr s 1))\<rparr>)"
    by (rule hung_env [OF h, of "SIrq d"]) (use i \<open>i = 1\<close> in \<open>simp_all add: sleep_step_def\<close>)
  ultimately show ?thesis using h unfolding t by (auto simp: hung_def)
next
  case (MStore a v)
  then have a: "a \<noteq> p" and t: "t = s\<lparr>mmem := (mmem s)(a := v),
      mthr := (\<lambda>j. (mthr s j)\<lparr>mslp := saw_store a (mslp (mthr s j))\<rparr>)\<rparr>"
    using st by (auto simp: mwait_step_def split: if_splits)
  have "m_waiting p ((mmem s)(a := v)) ((mthr s 1)\<lparr>mslp := saw_store a (mslp (mthr s 1))\<rparr>)"
    by (rule hung_env [OF h, of "SStore a v"]) (use a in \<open>simp_all add: sleep_step_def\<close>)
  then show ?thesis using h unfolding t by (auto simp: hung_def)
qed

lemma hung_forever:
  assumes "reachable (mwait_step p 3) s u" and "hung p s"
  shows "hung p u \<and> (\<forall>j. mreturns (mthr u j) = mreturns (mthr s j))"
  using assms(1)
  by (rule reachable_invariant [where I = "\<lambda>u. hung p u \<and> (\<forall>j. mreturns (mthr u j) = mreturns (mthr s j))"])
    (use assms(2) hung_step in force)+

text \<open>
  Threads 0 and 1 sleep, thread 2 notifies, thread 0 wakes first and puts the byte back, threads 0
  and 2 leave; thread 1 looks, sees nothing and goes back to sleep.
\<close>

definition three_threads :: "mlabel list" where
  "three_threads =
     [MTh 0, MTh 0, MTh 0, MTh 0, MTh 0, MTh 0, MTh 0, MTh 0, MTh 0, MTh 0, MTh 0,
      MTh 1, MTh 1, MTh 1, MTh 1, MTh 1, MTh 1, MTh 1, MTh 1, MTh 1, MTh 1, MTh 1,
      MTh 2, MTh 2, MTh 2, MTh 2, MTh 2, MTh 2, MTh 2, MTh 0, MTh 0, MTh 0, MTh 0]"

lemma three_threads_hung:
  assumes "m p \<noteq> MWMON_NOTIFIED_VAL"
  shows "\<exists>s. run (mwait_step p 3) (mwait_start mb0 m u0 3) three_threads = Some s \<and> hung p s
     \<and> mreturns (mthr s 0) = 1 \<and> mreturns (mthr s 1) = 0 \<and> mreturns (mthr s 2) = 1"
  using assms
  by (simp add: three_threads_def mwait_start_def mwait_barrier_init_def mwait_step_def mwait_thread_def
      Let_def others_see_def mreturn_def mb0_def u0_def sleep_cpu_def saw_store_def wake_def
      hung_def m_waiting_def m_slept_def sleep_inv_def)

text \<open>
  C27.  The restriction to two threads in the comment of \<open>mwait_barrier.c\<close> is needed: with three
  threads a state is reachable in which two calls have returned, the third thread sleeps, and
  whatever happens from there on, interrupts and unrelated stores included, no call returns any
  more.
\<close>

theorem mwait_barrier_two_threads_only:
  assumes "m (mwmon_mmap_area g) \<noteq> MWMON_NOTIFIED_VAL"
  shows "\<exists>s. reachable (mwait_barrier g 3) (mwait_start mb0 m u0 3) s
     \<and> (\<forall>t. reachable (mwait_barrier g 3) s t \<longrightarrow>
          mreturns (mthr t 0) = 1 \<and> mreturns (mthr t 1) = 0 \<and> mreturns (mthr t 2) = 1)"
proof -
  obtain s where s: "run (mwait_barrier g 3) (mwait_start mb0 m u0 3) three_threads = Some s"
      "hung (mwmon_mmap_area g) s" "mreturns (mthr s 0) = 1" "mreturns (mthr s 1) = 0" "mreturns (mthr s 2) = 1"
    using three_threads_hung [of m "mwmon_mmap_area g"] assms by (auto simp: mwait_barrier_def)
  have "mreturns (mthr t j) = mreturns (mthr s j)" if "reachable (mwait_barrier g 3) s t" for t j
    using hung_forever [OF that[unfolded mwait_barrier_def] s(2)] by blast
  then show ?thesis using s run_reachable [OF s(1)] by auto
qed

lemma mwait_barrier_two_threads_only_witness:
  "\<exists>s. reachable (mwait_barrier g0 3) (mwait_start mb0 (\<lambda>_. 0) u0 3) s
     \<and> mreturns (mthr s 0) = 1 \<and> mreturns (mthr s 1) = 0"
proof -
  have "(\<lambda>_. 0) (mwmon_mmap_area g0) \<noteq> MWMON_NOTIFIED_VAL" by (simp add: MWMON_NOTIFIED_VAL_def)
  then obtain s where s: "reachable (mwait_barrier g0 3) (mwait_start mb0 (\<lambda>_. 0) u0 3) s"
      "\<forall>t. reachable (mwait_barrier g0 3) s t \<longrightarrow>
          mreturns (mthr t 0) = 1 \<and> mreturns (mthr t 1) = 0 \<and> mreturns (mthr t 2) = 1"
    using mwait_barrier_two_threads_only [of "\<lambda>_. 0" g0] by blast
  have "reachable (mwait_barrier g0 3) s s" by (rule reach_start)
  then show ?thesis using s by blast
qed

end
