(* ===== verification/Lock_Clients.thy ===== *)
theory Lock_Clients
  imports Mutex
begin

text \<open>
  Programs that take a lock, run on the instructions of the lock.  The models of the barriers
  take their lock in one step of an abstract lock.  Here such a model, the client, is composed
  with a lock routine: where the client would acquire the abstract lock, its thread executes the
  instructions of the routine on a lock word, one by one and interleaved with all other
  threads, and where it would release the lock it stores to this word.  The locale
  \<open>lock_client\<close> shows that the composition does exactly what the client does with the abstract lock,
  for every client that keeps the laws of \<open>lock_user\<close>.  The thread that releases the lock need not
  be the one that took it.
\<close>

section \<open>A client on a lock routine\<close>

text \<open>
  \<open>wants c i\<close>: thread \<open>i\<close> is in the lock routine; \<open>releases c i\<close>: its next step is the release.  The client
  keeps its abstract lock as a record of what has happened, but no step of the composition
  depends on it: a thread that has come to the end of the routine goes on as if the abstract lock were
  free (\<open>let_go\<close>).
\<close>

record ('s, 'l, 'm) locked_sys =
  client :: 's
  word :: 'm
  core_of :: "tid \<Rightarrow> 'l"

definition locked_start :: "'s \<Rightarrow> 'm \<Rightarrow> 'l \<Rightarrow> ('s, 'l, 'm) locked_sys" where
  "locked_start c w l = \<lparr>client = c, word = w, core_of = (\<lambda>_. l)\<rparr>"

definition locked_step ::
  "('l \<Rightarrow> 'm \<Rightarrow> 'l \<times> 'm) \<Rightarrow> 'l \<Rightarrow> ('l \<Rightarrow> bool) \<Rightarrow> ('m \<Rightarrow> 'm)
   \<Rightarrow> ('s \<Rightarrow> 'a \<Rightarrow> 's option) \<Rightarrow> ('a \<Rightarrow> tid option) \<Rightarrow> ('s \<Rightarrow> tid \<Rightarrow> bool) \<Rightarrow> ('s \<Rightarrow> tid \<Rightarrow> bool)
   \<Rightarrow> ('s \<Rightarrow> 's) \<Rightarrow> ('s, 'l, 'm) locked_sys \<Rightarrow> 'a \<Rightarrow> ('s, 'l, 'm) locked_sys option" where
  "locked_step lstep entry fin unlock cstep who wants releases let_go s a =
     (let c = client s in
      case who a of
        None \<Rightarrow> map_option (\<lambda>c'. s\<lparr>client := c'\<rparr>) (cstep c a)
      | Some i \<Rightarrow>
          if wants c i
          then map_option (\<lambda>c'.
                 if fin (core_of s i) then s\<lparr>client := c'\<rparr>
                 else let (l', m') = lstep (core_of s i) (word s)
                      in s\<lparr>word := m', core_of := (core_of s)(i := l')\<rparr>) (cstep (let_go c) a)
          else map_option (\<lambda>c'.
                 \<lparr>client = c', word = if releases c i then unlock (word s) else word s,
                  core_of = if wants c' i then (core_of s)(i := entry) else core_of s\<rparr>) (cstep c a))"

text \<open>
  The threads around the lock, as the theory \<open>Mutex\<close> has them, and one more, which has the lock
  from its acquisition to its release.
\<close>

definition lock_view :: "('s \<Rightarrow> tid \<Rightarrow> bool) \<Rightarrow> ('s \<Rightarrow> bool) \<Rightarrow> nat \<Rightarrow> ('s, 'l, 'm) locked_sys \<Rightarrow> ('l, 'm) mutex_sys" where
  "lock_view wants held n s = \<lparr>lock_word = word s,
     lthreads = (\<lambda>i. if i = n then if held (client s) then Critical else Out
                     else if wants (client s) i then Locking (core_of s i) else Out)\<rparr>"

section \<open>The laws of a client\<close>

locale lock_user =
  fixes cstep :: "nat \<Rightarrow> 's \<Rightarrow> 'a \<Rightarrow> 's option"
    and start :: "nat \<Rightarrow> 's"
    and supported :: "nat \<Rightarrow> bool"
    and who :: "'a \<Rightarrow> tid option"
    and mv :: "tid \<Rightarrow> 'a"
    and wants :: "'s \<Rightarrow> tid \<Rightarrow> bool"
    and releases :: "'s \<Rightarrow> tid \<Rightarrow> bool"
    and held :: "'s \<Rightarrow> bool"
    and let_go :: "'s \<Rightarrow> 's"
  assumes who_mv: "who a = Some i \<longleftrightarrow> a = mv i"
    and fresh: "\<not> held (start n)" "\<not> wants (start n) i"
    and free_field: "\<not> held c \<Longrightarrow> let_go c = c"
    and let_go [simp]: "let_go (let_go c) = let_go c" "wants (let_go c) i = wants c i" "releases (let_go c) i = releases c i"
    and threads_move: "cstep n c (mv i) = Some c' \<Longrightarrow> i < n"
      "cstep n c (mv i) = Some c' \<Longrightarrow> j \<noteq> i \<Longrightarrow> wants c' j = wants c j"
    and others_move: "cstep n c a = Some c' \<Longrightarrow> who a = None \<Longrightarrow> wants c' j = wants c j"
      "cstep n c a = Some c' \<Longrightarrow> who a = None \<Longrightarrow> held c' = held c"
    and acquires: "wants c i \<Longrightarrow> i < n \<Longrightarrow> cstep n (let_go c) (mv i) \<noteq> None"
      "wants c i \<Longrightarrow> cstep n c (mv i) = Some c' \<Longrightarrow> \<not> held c \<and> held c' \<and> \<not> wants c' i"
    and runs: "\<not> wants c i \<Longrightarrow> cstep n c (mv i) = Some c' \<Longrightarrow>
        held c' = (held c \<and> \<not> releases c i) \<and> (releases c i \<longrightarrow> \<not> wants c' i)"
    and release_held: "supported n \<Longrightarrow> reachable (cstep n) (start n) c \<Longrightarrow> \<not> wants c i \<Longrightarrow> releases c i \<Longrightarrow>
        cstep n c (mv i) \<noteq> None \<Longrightarrow> held c"
    and blind: "\<not> (\<exists>i. who a = Some i \<and> wants c i) \<Longrightarrow> cstep n (let_go c) a = map_option let_go (cstep n c a)"

text \<open>A client and a routine that always gets a free lock.\<close>

locale lock_client =
  live_lock_routine lstep entry fin unlock w0 linv wok holds credit lvl limit bound
  + lock_user cstep start supported who mv wants releases held let_go
  for lstep :: "'l \<Rightarrow> 'm \<Rightarrow> 'l \<times> 'm" and entry fin unlock w0 linv wok holds credit lvl limit bound
    and cstep :: "nat \<Rightarrow> 's \<Rightarrow> 'a \<Rightarrow> 's option" and start supported who mv wants releases held let_go
begin

abbreviation lsys :: "nat \<Rightarrow> ('s, 'l, 'm) locked_sys \<Rightarrow> 'a \<Rightarrow> ('s, 'l, 'm) locked_sys option" where
  "lsys n \<equiv> locked_step lstep entry fin unlock (cstep n) who wants releases let_go"

abbreviation lview :: "nat \<Rightarrow> ('s, 'l, 'm) locked_sys \<Rightarrow> ('l, 'm) mutex_sys" where
  "lview \<equiv> lock_view wants held"

abbreviation init :: "nat \<Rightarrow> ('s, 'l, 'm) locked_sys" where
  "init n \<equiv> locked_start (start n) w0 entry"

lemma lsys_cases [consumes 1]:
  assumes "lsys n s a = Some t"
  obtains (instr) i l' m' where "a = mv i" "i < n" "wants (client s) i" "\<not> fin (core_of s i)"
      "lstep (core_of s i) (word s) = (l', m')" "t = s\<lparr>word := m', core_of := (core_of s)(i := l')\<rparr>"
  | (acq) i c' where "a = mv i" "i < n" "cstep n (let_go (client s)) a = Some c'" "wants (client s) i"
      "fin (core_of s i)" "t = s\<lparr>client := c'\<rparr>"
  | (ran) i c' where "a = mv i" "i < n" "cstep n (client s) a = Some c'" "\<not> wants (client s) i"
      "t = \<lparr>client = c', word = if releases (client s) i then unlock (word s) else word s,
         core_of = if wants c' i then (core_of s)(i := entry) else core_of s\<rparr>"
  | (env) c' where "who a = None" "cstep n (client s) a = Some c'" "t = s\<lparr>client := c'\<rparr>"
proof (cases "who a")
  case None
  then show ?thesis using env assms by (auto simp: locked_step_def Let_def)
next
  case (Some i)
  then have a: "a = mv i" using who_mv by blast
  show ?thesis
  proof (cases "wants (client s) i")
    case False
    then show ?thesis
      using ran [OF a] assms Some threads_move(1) a by (auto simp: locked_step_def Let_def)
  next
    case True
    obtain c' where c': "cstep n (let_go (client s)) a = Some c'"
      using assms Some True by (auto simp: locked_step_def Let_def)
    have i: "i < n" using threads_move(1) c' a by blast
    show ?thesis
    proof (cases "fin (core_of s i)")
      case fin: True
      then show ?thesis using acq [OF a i c' True] assms Some True c' by (simp add: locked_step_def)
    next
      case False
      then show ?thesis
        using instr [OF a i True] assms Some True c' by (auto simp: locked_step_def Let_def split: prod.splits)
    qed
  qed
qed

section \<open>The composition does what the client does\<close>

lemma lview_core:
  assumes "inv (Suc n) (lview n s)" and "i < n" and "wants (client s) i"
  shows "linv (core_of s i)" and "holds (core_of s i) \<Longrightarrow> \<not> held (client s)"
proof -
  have th: "lthreads (lview n s) i = Locking (core_of s i)" using assms(2,3) by (simp add: lock_view_def)
  moreover have "i < Suc n" using assms(2) by simp
  ultimately show "linv (core_of s i)" using assms(1) unfolding inv_def by blast
  show "\<not> held (client s)" if "holds (core_of s i)"
  proof
    assume "held (client s)"
    then have "owns holds (lthreads (lview n s) n)" by (simp add: lock_view_def)
    moreover have "owns holds (lthreads (lview n s) i)" using th that by simp
    ultimately show False using owner_unique [OF assms(1), of i n] assms(2) by simp
  qed
qed

lemma inv_lview:
  assumes s: "inv (Suc n) (lview n s)" and n: "Suc n \<le> limit" and st: "lsys n s a = Some t"
    and rel: "\<And>i. a = mv i \<Longrightarrow> \<not> wants (client s) i \<Longrightarrow> releases (client s) i \<Longrightarrow> held (client s)"
  shows "inv (Suc n) (lview n t)"
  using st
proof (cases rule: lsys_cases)
  case (instr i l' m')
  have th: "lthreads (lview n s) i = Locking (core_of s i)" using instr(2,3) by (simp add: lock_view_def)
  have "lstep (core_of s i) (lock_word (lview n s)) = (l', m')" using instr(5) by (simp add: lock_view_def)
  from inv_exec [OF s n _ th instr(4) this]
  have "inv (Suc n) (lview n s\<lparr>lock_word := m', lthreads := (lthreads (lview n s))(i := Locking l')\<rparr>)"
    using instr(2) by simp
  moreover have "lview n t = lview n s\<lparr>lock_word := m', lthreads := (lthreads (lview n s))(i := Locking l')\<rparr>"
    using instr(2,3,6) by (auto simp: lock_view_def fun_eq_iff)
  ultimately show ?thesis by simp
next
  case (acq i c')
  have h: "holds (core_of s i)" using fin_holds lview_core(1) [OF s acq(2,4)] acq(5) by blast
  then have f: "\<not> held (client s)" using lview_core(2) [OF s acq(2,4)] by blast
  have c': "cstep n (client s) (mv i) = Some c'" using acq(1,3) free_field [OF f] by simp
  have "inv (Suc n) (lview n s\<lparr>lthreads := (lthreads (lview n s))(i := Out, n := Critical)\<rparr>)"
    by (rule inv_handoff [OF s _ _ _ _ h]) (use acq(2,4) f in \<open>simp_all add: lock_view_def\<close>)
  moreover have "lview n t = lview n s\<lparr>lthreads := (lthreads (lview n s))(i := Out, n := Critical)\<rparr>"
    using acq(2,6) acquires(2) [OF acq(4) c'] threads_move(2) [OF c'] by (auto simp: lock_view_def fun_eq_iff)
  ultimately show ?thesis by simp
next
  case (env c')
  then have "lview n t = lview n s" using others_move by (simp add: lock_view_def fun_eq_iff)
  then show ?thesis using s by simp
next
  case (ran i c')
  have c': "cstep n (client s) (mv i) = Some c'" using ran(1,3) by simp
  note r = runs [OF ran(4) c'] and o = threads_move(2) [OF c']
  have w: "wok (lock_word (lview n s))" using s by (simp add: inv_def)
  show ?thesis
  proof (cases "releases (client s) i")
    case True
    then have h: "held (client s)" using rel ran(1,4) by blast
    then have "owns holds (lthreads (lview n s) n)" by (simp add: lock_view_def)
    then have "lvl (lock_word (lview n s)) \<noteq> 0" using inv_owned [OF s, of n] by simp
    then have "inv (Suc n) (lview n s\<lparr>lock_word := unlock (lock_word (lview n s)),
        lthreads := (lthreads (lview n s))(n := Out)\<rparr>)"
      using h unlock_word [OF w] by (intro inv_update [OF s]) (simp_all add: lock_view_def)
    moreover have "lview n t = lview n s\<lparr>lock_word := unlock (lock_word (lview n s)),
        lthreads := (lthreads (lview n s))(n := Out)\<rparr>"
    proof -
      have "wants c' j = wants (client s) j" for j using True ran(4) r o by (cases "j = i") auto
      then show ?thesis using True ran(5) r by (auto simp: lock_view_def fun_eq_iff)
    qed
    ultimately show ?thesis by simp
  next
    case keeps: False
    show ?thesis
    proof (cases "wants c' i")
      case True
      have "inv (Suc n) (lview n s\<lparr>lock_word := lock_word (lview n s),
          lthreads := (lthreads (lview n s))(i := Locking entry)\<rparr>)"
        using ran(2,4) entry_state w by (intro inv_update [OF s]) (simp_all add: lock_view_def)
      moreover have "lview n t = lview n s\<lparr>lthreads := (lthreads (lview n s))(i := Locking entry)\<rparr>"
        using True keeps ran(2,5) r o by (auto simp: lock_view_def fun_eq_iff)
      ultimately show ?thesis by simp
    next
      case False
      have "wants c' j = wants (client s) j" for j using False ran(4) o by (cases "j = i") auto
      then have "lview n t = lview n s" using keeps False ran(5) r by (simp add: lock_view_def fun_eq_iff)
      then show ?thesis using s by simp
    qed
  qed
qed

text \<open>A step of the composition is a step of the client on the abstract lock, or none for it.\<close>

lemma client_step:
  assumes "inv (Suc n) (lview n s)" and "lsys n s a = Some t"
  shows "client t = client s \<or> cstep n (client s) a = Some (client t)"
  using assms(2)
proof (cases rule: lsys_cases)
  case (acq i c')
  have "\<not> held (client s)"
    using lview_core [OF assms(1) acq(2,4)] fin_holds acq(5) by blast
  then show ?thesis using acq free_field by simp
qed simp_all

lemma client_inv:
  assumes "supported n" and "Suc n \<le> limit" and "reachable (lsys n) (init n) s"
  shows "reachable (cstep n) (start n) (client s) \<and> inv (Suc n) (lview n s)"
  using assms(3)
proof (induction rule: reachable.induct)
  case reach_start
  have "lview n (init n) = mutex_init w0"
    using fresh by (simp add: lock_view_def locked_start_def mutex_init_def fun_eq_iff)
  moreover have "client (init n) = start n" by (simp add: locked_start_def)
  ultimately show ?case using inv_init reachable.reach_start by metis
next
  case (reach_next s a t)
  have c: "reachable (cstep n) (start n) (client s)" and i: "inv (Suc n) (lview n s)"
    using reach_next.IH by simp_all
  have "held (client s)" if "a = mv i" "\<not> wants (client s) i" "releases (client s) i" for i
  proof (rule release_held [OF assms(1) c that(2,3)])
    have "who a = Some i" using who_mv that(1) by blast
    then show "cstep n (client s) (mv i) \<noteq> None"
      using reach_next.hyps(2) that by (auto simp: locked_step_def)
  qed
  then have "inv (Suc n) (lview n t)" using inv_lview [OF i assms(2) reach_next.hyps(2)] by blast
  moreover have "reachable (cstep n) (start n) (client t)"
    using client_step [OF i reach_next.hyps(2)] reachable.reach_next [OF c] c by metis
  ultimately show ?case by simp
qed

section \<open>What the client can do, the composition can do\<close>

text \<open>A thread that has the lock, or finds it free, gets inside by its own moves.\<close>

lemma acquisition:
  assumes "fin (core_of s i)" and "wants (client s) i" and "cstep n (let_go (client s)) (mv i) = Some c'"
  shows "lsys n s (mv i) = Some (s\<lparr>client := c'\<rparr>)"
proof -
  have "who (mv i) = Some i" using who_mv by blast
  then show ?thesis using assms by (simp add: locked_step_def)
qed

lemma solo_gets_inside:
  assumes "fin (fst (solo lstep k (core_of s i) (word s)))"
    and "wants (client s) i" and "cstep n (let_go (client s)) (mv i) = Some c'"
  shows "\<exists>t. reachable (lsys n) s t \<and> client t = c' \<and> (\<forall>j. j \<noteq> i \<longrightarrow> core_of t j = core_of s j)"
  using assms
proof (induction k arbitrary: s)
  case 0
  then have "fin (core_of s i)" by simp
  from reachable_step [of "lsys n", OF acquisition [OF this 0(2,3)]] show ?case
    by (intro exI [of _ "s\<lparr>client := c'\<rparr>"]) simp
next
  case (Suc k)
  show ?case
  proof (cases "fin (core_of s i)")
    case True
    from reachable_step [of "lsys n", OF acquisition [OF this Suc.prems(2,3)]] show ?thesis
      by (intro exI [of _ "s\<lparr>client := c'\<rparr>"]) simp
  next
    case False
    obtain l' m' where st: "lstep (core_of s i) (word s) = (l', m')" by fastforce
    let ?u = "s\<lparr>word := m', core_of := (core_of s)(i := l')\<rparr>"
    have "who (mv i) = Some i" using who_mv by blast
    then have u: "lsys n s (mv i) = Some ?u" using Suc.prems False st by (simp add: locked_step_def)
    obtain t where "reachable (lsys n) ?u t" "client t = c'" "\<forall>j. j \<noteq> i \<longrightarrow> core_of t j = core_of ?u j"
      using Suc.IH [of ?u] Suc.prems st by auto
    then show ?thesis
      using reachable_trans [OF reachable_step [of "lsys n", OF u]] by (intro exI [of _ t]) auto
  qed
qed

text \<open>In a settled state no thread has won the lock without having gone on.\<close>

definition settled :: "nat \<Rightarrow> ('s, 'l, 'm) locked_sys \<Rightarrow> bool" where
  "settled n s \<longleftrightarrow> (\<forall>i<n. wants (client s) i \<longrightarrow> \<not> holds (core_of s i))"

lemma settled_init: "settled n (init n)"
  using fresh by (simp add: settled_def locked_start_def)

lemma settled_acquired:
  assumes "cstep n (client s) (mv i) = Some (client t)" and "wants (client s) i"
    and "\<forall>j. j \<noteq> i \<longrightarrow> core_of t j = core_of s j"
    and "\<forall>j<n. j \<noteq> i \<longrightarrow> wants (client s) j \<longrightarrow> \<not> holds (core_of s j)"
  shows "settled n t"
  unfolding settled_def
proof (intro allI impI)
  fix j assume "j < n" "wants (client t) j"
  then show "\<not> holds (core_of t j)"
    using assms acquires(2) [OF assms(2,1)] threads_move(2) [OF assms(1), of j] by (cases "j = i") auto
qed

lemma settles:
  assumes s: "inv (Suc n) (lview n s)"
  shows "\<exists>t. reachable (lsys n) s t \<and> settled n t"
proof (cases "settled n s")
  case True
  then show ?thesis by (blast intro: reach_start)
next
  case False
  then obtain i where i: "i < n" "wants (client s) i" "holds (core_of s i)" by (auto simp: settled_def)
  note core = lview_core [OF s i(1,2)]
  obtain c' where c': "cstep n (let_go (client s)) (mv i) = Some c'" using acquires(1) [OF i(2,1)] by blast
  have "wok (lock_word (lview n s))" using s by (simp add: inv_def)
  then have "wok (word s)" by (simp add: lock_view_def)
  then have "fin (fst (solo lstep bound (core_of s i) (word s)))" using solo_wins core(1) i(3) by blast
  then obtain t where t: "reachable (lsys n) s t" "client t = c'" "\<forall>j. j \<noteq> i \<longrightarrow> core_of t j = core_of s j"
    using solo_gets_inside i(2) c' by blast
  have "\<not> holds (core_of s j)" if "j < n" "j \<noteq> i" "wants (client s) j" for j
  proof
    assume "holds (core_of s j)"
    then have "owns holds (lthreads (lview n s) j)" "owns holds (lthreads (lview n s) i)"
      using i that by (auto simp: lock_view_def)
    then show False using owner_unique [OF s, of i j] i(1) that(1,2) by simp
  qed
  moreover have "cstep n (client s) (mv i) = Some (client t)"
    using c' t(2) core(2) [OF i(3)] free_field by simp
  ultimately have "settled n t" using settled_acquired i(2) t(3) by blast
  with t(1) show ?thesis by blast
qed

text \<open>From a settled state every move of the client is a sequence of moves of the composition.\<close>

lemma follows_step:
  assumes s: "inv (Suc n) (lview n s)" and e: "settled n s" and st: "cstep n (client s) a = Some u"
  shows "\<exists>t. reachable (lsys n) s t \<and> settled n t \<and> client t = u"
proof (cases "who a")
  case None
  then have t: "lsys n s a = Some (s\<lparr>client := u\<rparr>)" using st by (simp add: locked_step_def)
  have "wants u j = wants (client s) j" for j using others_move(1) [OF st None] .
  then have "settled n (s\<lparr>client := u\<rparr>)" using e by (simp add: settled_def)
  then show ?thesis using reachable_step [of "lsys n", OF t] by (intro exI [of _ "s\<lparr>client := u\<rparr>"]) simp
next
  case (Some i)
  then have a: "a = mv i" using who_mv by blast
  then have c: "cstep n (client s) (mv i) = Some u" using st by simp
  have i: "i < n" using threads_move(1) [OF c] .
  show ?thesis
  proof (cases "wants (client s) i")
    case True
    have f: "\<not> held (client s)" using acquires(2) [OF True c] by blast
    then have "\<forall>j<Suc n. \<not> owns holds (lthreads (lview n s) j)"
      using e by (auto simp: settled_def lock_view_def less_Suc_eq)
    then have "lock_owner holds (Suc n) (lview n s) = None" using lock_owner_None by blast
    then have "lvl (lock_word (lview n s)) = 0" using free_iff [OF s] by simp
    moreover have "wok (lock_word (lview n s))" using s by (simp add: inv_def)
    ultimately have "fin (fst (solo lstep bound (core_of s i) (word s)))"
      using solo_wins lview_core(1) [OF s i True] by (simp add: lock_view_def)
    moreover have "cstep n (let_go (client s)) (mv i) = Some u" using c free_field [OF f] by simp
    ultimately obtain t where t: "reachable (lsys n) s t" "client t = u"
        "\<forall>j. j \<noteq> i \<longrightarrow> core_of t j = core_of s j"
      using solo_gets_inside True by blast
    have "settled n t"
      by (rule settled_acquired [of n s i]) (use c True t e in \<open>auto simp: settled_def\<close>)
    then show ?thesis using t by blast
  next
    case False
    let ?t = "\<lparr>client = u, word = if releases (client s) i then unlock (word s) else word s,
         core_of = if wants u i then (core_of s)(i := entry) else core_of s\<rparr>"
    have t: "lsys n s a = Some ?t" using Some False st by (simp add: locked_step_def)
    have "settled n ?t"
      unfolding settled_def
    proof (intro allI impI)
      fix j assume "j < n" "wants (client ?t) j"
      then show "\<not> holds (core_of ?t j)"
        using e threads_move(2) [OF c, of j] entry_state(2) by (cases "j = i") (auto simp: settled_def)
    qed
    then show ?thesis using reachable_step [of "lsys n", OF t] by (intro exI [of _ ?t]) simp
  qed
qed

lemma follows_client:
  assumes "supported n" and "Suc n \<le> limit" and r: "reachable (lsys n) (init n) s"
    and e: "settled n s" and "reachable (cstep n) (client s) u"
  shows "\<exists>t. reachable (lsys n) s t \<and> settled n t \<and> client t = u"
  using assms(5)
proof (induction rule: reachable.induct)
  case reach_start
  have "reachable (lsys n) s s" by (rule reachable.reach_start)
  then show ?case using e by blast
next
  case (reach_next v a w)
  then obtain t where t: "reachable (lsys n) s t" "settled n t" "client t = v" by blast
  have rt: "reachable (lsys n) (init n) t" by (rule reachable_trans [OF r t(1)])
  have "inv (Suc n) (lview n t)" using client_inv [OF assms(1,2) rt] by simp
  moreover have "cstep n (client t) a = Some w" using reach_next.hyps t(3) by simp
  ultimately obtain t' where "reachable (lsys n) t t'" "settled n t'" "client t' = w"
    using follows_step t(2) by blast
  then show ?case using reachable_trans [OF t(1)] by blast
qed

section \<open>What a client may conclude\<close>

text \<open>The composition and the client on the abstract lock reach the same states.\<close>

theorem same_states:
  assumes "supported n" and "Suc n \<le> limit"
  shows "reachable (cstep n) (start n) u \<longleftrightarrow> (\<exists>s. reachable (lsys n) (init n) s \<and> client s = u)"
proof
  assume u: "reachable (cstep n) (start n) u"
  have "client (init n) = start n" by (simp add: locked_start_def)
  then have "reachable (cstep n) (client (init n)) u" using u by simp
  from follows_client [OF assms reach_start settled_init this]
  show "\<exists>s. reachable (lsys n) (init n) s \<and> client s = u" by blast
qed (use client_inv [OF assms] in blast)

text \<open>So an invariant of the client holds in the composition.\<close>

lemma keeps_invariant:
  assumes "supported n" and "Suc n \<le> limit" and "reachable (lsys n) (init n) s"
    and "\<And>c. reachable (cstep n) (start n) c \<Longrightarrow> P c"
  shows "P (client s)"
  using client_inv [OF assms(1-3)] assms(4) by blast

text \<open>What the client can reach again and again, the composition can, too.\<close>

theorem continues_client:
  assumes "supported n" and "Suc n \<le> limit" and r: "reachable (lsys n) (init n) s"
    and "\<And>v. reachable (cstep n) (start n) v \<Longrightarrow> \<exists>u. reachable (cstep n) v u \<and> P u"
  shows "\<exists>t. reachable (lsys n) s t \<and> P (client t)"
proof -
  obtain s1 where s1: "reachable (lsys n) s s1" "settled n s1"
    using settles client_inv [OF assms(1,2) r] by blast
  have r1: "reachable (lsys n) (init n) s1" by (rule reachable_trans [OF r s1(1)])
  obtain u where u: "reachable (cstep n) (client s1) u" "P u"
    using assms(4) client_inv [OF assms(1,2) r1] by blast
  show ?thesis
    using follows_client [OF assms(1,2) r1 s1(2) u(1)] u(2) reachable_trans [OF s1(1)] by blast
qed

text \<open>And the composition does not depend on what the client records of its lock.\<close>

definition forget :: "('s, 'l, 'm) locked_sys \<Rightarrow> ('s, 'l, 'm) locked_sys" where
  "forget s = s\<lparr>client := let_go (client s)\<rparr>"

theorem record_unread: "map_option forget (lsys n (forget s) a) = map_option forget (lsys n s a)"
proof (cases "\<exists>i. who a = Some i \<and> wants (client s) i")
  case True
  then obtain i where i: "who a = Some i" "wants (client s) i" by blast
  show ?thesis
  proof (cases "cstep n (let_go (client s)) a")
    case None
    then show ?thesis using i by (simp add: locked_step_def forget_def Let_def)
  next
    case (Some c')
    then show ?thesis
      using i by (cases "lstep (core_of s i) (word s)") (simp add: locked_step_def forget_def Let_def)
  qed
next
  case False
  then have b: "cstep n (let_go (client s)) a = map_option let_go (cstep n (client s) a)" by (rule blind)
  show ?thesis
    using False b
    by (cases "who a"; cases "cstep n (client s) a") (simp_all add: locked_step_def forget_def Let_def)
qed

end

end
