(* ===== verification/Barrier_Asm.thy ===== *)
theory Barrier_Asm
  imports Lock_Clients Spin_Locks Barrier_Central Mwait_Barrier
begin

text \<open>
  The barriers that take a lock, down to the instructions of the lock: \<open>spin_barrier\<close> of
  \<open>synch.h\<close> with \<open>spin_lock_fast\<close>, and \<open>spin_barrier\<close>, \<open>spin_barrier_lsense\<close> of \<open>spin.c\<close> and the
  macros of \<open>spin.h\<close> with the exchanging lock.  Everything outside the lock is as in
  \<open>Barrier_Locked\<close> and \<open>Barrier_Central\<close>; the lock is the instruction list of \<open>Spin_Locks\<close>, run on the
  lock word of the barrier.
\<close>

section \<open>The sense barriers of spin.c and spin.h\<close>

fun kwho :: "klabel \<Rightarrow> tid option" where
  "kwho (KTh i) = Some i"
| "kwho (KIrq i) = None"

definition kwants :: "ksys \<Rightarrow> tid \<Rightarrow> bool" where
  "kwants s i \<longleftrightarrow> kpc (kthr s i) = KLock"

definition kreleases :: "ksys \<Rightarrow> tid \<Rightarrow> bool" where
  "kreleases s i \<longleftrightarrow> kpc (kthr s i) = KUnlock"

definition klet_go :: "ksys \<Rightarrow> ksys" where
  "klet_go s = s\<lparr>kb := (kb s)\<lparr>kb_lock := None\<rparr>\<rparr>"

definition locked_klsense :: "instr list \<Rightarrow> instr list \<Rightarrow> waiting \<Rightarrow> nat
    \<Rightarrow> (ksys, core, u32) locked_sys \<Rightarrow> klabel \<Rightarrow> (ksys, core, u32) locked_sys option" where
  "locked_klsense lck unl w n = locked_step (lock_step lck) core_entry (finished lck) (store_effect unl)
     (klsense_step w n) kwho kwants kreleases klet_go"

definition kmon_spin_barrier_lsense_asm ::
  "nat \<Rightarrow> (ksys, core, u32) locked_sys \<Rightarrow> klabel \<Rightarrow> (ksys, core, u32) locked_sys option" where
  "kmon_spin_barrier_lsense_asm = locked_klsense kmon_spin_lock kmon_spin_unlock Spin"

definition SPIN_BARRIER_LSENSE_asm ::
  "nat \<Rightarrow> (ksys, core, u32) locked_sys \<Rightarrow> klabel \<Rightarrow> (ksys, core, u32) locked_sys option" where
  "SPIN_BARRIER_LSENSE_asm = locked_klsense SPIN_LOCK SPIN_UNLOCK Spin"

definition SPIN_BARRIER_LSENSE_HLT_asm ::
  "nat \<Rightarrow> (ksys, core, u32) locked_sys \<Rightarrow> klabel \<Rightarrow> (ksys, core, u32) locked_sys option" where
  "SPIN_BARRIER_LSENSE_HLT_asm = locked_klsense SPIN_LOCK SPIN_UNLOCK Hlt"

definition SPIN_BARRIER_LSENSE_HLTCNT_asm ::
  "nat \<Rightarrow> (ksys, core, u32) locked_sys \<Rightarrow> klabel \<Rightarrow> (ksys, core, u32) locked_sys option" where
  "SPIN_BARRIER_LSENSE_HLTCNT_asm = locked_klsense SPIN_LOCK SPIN_UNLOCK Hlt_Count"

text \<open>\<open>spin_barrier_init\<close> initializes the lock word, whatever it held, with \<open>spin_init\<close>.\<close>

definition locked_klsense_start ::
  "kmon_spin_barrier \<Rightarrow> u32 \<Rightarrow> u64 \<Rightarrow> u32 \<Rightarrow> nat \<Rightarrow> (ksys, core, u32) locked_sys" where
  "locked_klsense_start b x c v n =
     locked_start (klsense_start b x c n) (store_effect kmon_spin_init v) core_entry"

section \<open>The barriers without a local sense\<close>

definition cwants :: "csys \<Rightarrow> tid \<Rightarrow> bool" where
  "cwants s i \<longleftrightarrow> cpc (cthr s i) = C_Lock"

definition creleases :: "csys \<Rightarrow> tid \<Rightarrow> bool" where
  "creleases s i \<longleftrightarrow> cpc (cthr s i) = C_Unlock"

definition clet_go :: "csys \<Rightarrow> csys" where
  "clet_go s = s\<lparr>cb := (cb s)\<lparr>c_lock := None\<rparr>\<rparr>"

definition locked_central :: "instr list \<Rightarrow> instr list \<Rightarrow> nat
    \<Rightarrow> (csys, core, u32) locked_sys \<Rightarrow> tid \<Rightarrow> (csys, core, u32) locked_sys option" where
  "locked_central lck unl n = locked_step (lock_step lck) core_entry (finished lck) (store_effect unl)
     (central_step n) Some cwants creleases clet_go"

definition spin_barrier_nosense_asm ::
  "nat \<Rightarrow> (csys, core, u32) locked_sys \<Rightarrow> tid \<Rightarrow> (csys, core, u32) locked_sys option" where
  "spin_barrier_nosense_asm = locked_central spin_lock_fast spin_unlock"

definition kmon_spin_barrier_nosense_asm ::
  "nat \<Rightarrow> (csys, core, u32) locked_sys \<Rightarrow> tid \<Rightarrow> (csys, core, u32) locked_sys option" where
  "kmon_spin_barrier_nosense_asm = locked_central kmon_spin_lock kmon_spin_unlock"

definition locked_central_start :: "u32 \<Rightarrow> u32 \<Rightarrow> nat \<Rightarrow> (csys, core, u32) locked_sys" where
  "locked_central_start f w n = locked_start (central_start f n) w core_entry"

section \<open>The MONITOR/MWAIT barrier\<close>

text \<open>The first thread of a round releases the lock before it sleeps, the last to leave releases it for the second.\<close>

fun mwho :: "mlabel \<Rightarrow> tid option" where
  "mwho (MTh i) = Some i"
| "mwho (MIrq i d) = None"
| "mwho (MStore a v) = None"

definition mwants :: "msys \<Rightarrow> tid \<Rightarrow> bool" where
  "mwants s i \<longleftrightarrow> mpc (mthr s i) = M_Lock"

definition mreleases :: "msys \<Rightarrow> tid \<Rightarrow> bool" where
  "mreleases s i \<longleftrightarrow> mpc (mthr s i) = M_Unlock \<or> mpc (mthr s i) = M_Release"

definition mlet_go :: "msys \<Rightarrow> msys" where
  "mlet_go s = s\<lparr>mbar := (mbar s)\<lparr>mb_locked := False\<rparr>\<rparr>"

definition locked_mwait ::
  "addr \<Rightarrow> nat \<Rightarrow> (msys, core, u32) locked_sys \<Rightarrow> mlabel \<Rightarrow> (msys, core, u32) locked_sys option" where
  "locked_mwait p n = locked_step (lock_step spin_lock_fast) core_entry (finished spin_lock_fast)
     (store_effect spin_unlock) (mwait_step p n) mwho mwants mreleases mlet_go"

definition mwait_barrier_asm ::
  "kglobals \<Rightarrow> nat \<Rightarrow> (msys, core, u32) locked_sys \<Rightarrow> mlabel \<Rightarrow> (msys, core, u32) locked_sys option" where
  "mwait_barrier_asm g = locked_mwait (mwmon_mmap_area g)"

definition mwait_barrier2_asm ::
  "kglobals \<Rightarrow> nat \<Rightarrow> (msys, core, u32) locked_sys \<Rightarrow> mlabel \<Rightarrow> (msys, core, u32) locked_sys option" where
  "mwait_barrier2_asm g = locked_mwait (mwmon_mmap_area2 g)"

definition locked_mwait_start ::
  "mwait_barrier_s \<Rightarrow> memory \<Rightarrow> sleeper \<Rightarrow> u32 \<Rightarrow> nat \<Rightarrow> (msys, core, u32) locked_sys" where
  "locked_mwait_start b m u v n = locked_start (mwait_start b m u n) (spin_lock_init v) core_entry"

section \<open>The barriers keep the laws of a client\<close>

lemmas kclient_defs = kwants_def kreleases_def klet_go_def
lemmas cclient_defs = cwants_def creleases_def clet_go_def
lemmas mclient_defs = mwants_def mreleases_def mlet_go_def

text \<open>The abstract lock is owned by the thread that is inside, in every reachable state.\<close>

lemma klsense_lock:
  assumes "klsense_thread w s i = Some t"
  shows "kpc (kthr s i) = KLock \<and> kb_lock (kb s) = None \<and> kb_lock (kb t) = Some i \<and> in_lock (kpc (kthr t i))
    \<or> kpc (kthr s i) = KUnlock \<and> kb_lock (kb t) = None \<and> \<not> in_lock (kpc (kthr t i))
    \<or> kpc (kthr s i) \<notin> {KLock, KUnlock} \<and> kb_lock (kb t) = kb_lock (kb s)
        \<and> in_lock (kpc (kthr t i)) = in_lock (kpc (kthr s i))"
    and "j \<noteq> i \<Longrightarrow> kthr t j = kthr s j"
  using assms
  by (cases "kpc (kthr s i)"; auto simp: klsense_thread_def Let_def in_lock_def split: if_splits)+

lemma klsense_owner:
  assumes "reachable (klsense_step w n) (klsense_start b x c n) s"
  shows "\<forall>i<n. in_lock (kpc (kthr s i)) \<longleftrightarrow> kb_lock (kb s) = Some i"
  using assms
proof (rule reachable_invariant)
  show "\<forall>i<n. in_lock (kpc (kthr (klsense_start b x c n) i)) \<longleftrightarrow> kb_lock (kb (klsense_start b x c n)) = Some i"
    by (simp add: klsense_start_def kmon_spin_barrier_init_def in_lock_def)
  show "\<forall>j<n. in_lock (kpc (kthr t j)) \<longleftrightarrow> kb_lock (kb t) = Some j"
    if inv: "\<forall>i<n. in_lock (kpc (kthr s i)) \<longleftrightarrow> kb_lock (kb s) = Some i" and st: "klsense_step w n s l = Some t"
    for s l t
  proof (cases l)
    case (KTh i)
    then have i: "i < n" "klsense_thread w s i = Some t" using st by (auto simp: klsense_step_def split: if_splits)
    have "in_lock KUnlock" by (simp add: in_lock_def)
    then have own: "kpc (kthr s i) = KUnlock \<Longrightarrow> kb_lock (kb s) = Some i" using inv i(1) by metis
    have "in_lock (kpc (kthr t j)) \<longleftrightarrow> kb_lock (kb t) = Some j" if "j < n" for j
      using klsense_lock(1) [OF i(2)] klsense_lock(2) [OF i(2), of j] inv i(1) that own
      by (cases "j = i") auto
    then show ?thesis by blast
  next
    case (KIrq i)
    then have "kb t = kb s" "\<And>j. in_lock (kpc (kthr t j)) = in_lock (kpc (kthr s j))"
      using st by (auto simp: klsense_step_def halt_returns_def in_lock_def split: if_splits)
    then show ?thesis using inv by simp
  qed
qed

lemma central_lock:
  assumes "central_step n s i = Some t"
  shows "cpc (cthr s i) = C_Lock \<and> c_lock (cb s) = None \<and> c_lock (cb t) = Some i \<and> c_in_lock (cpc (cthr t i))
    \<or> cpc (cthr s i) = C_Unlock \<and> c_lock (cb t) = None \<and> \<not> c_in_lock (cpc (cthr t i))
    \<or> cpc (cthr s i) \<notin> {C_Lock, C_Unlock} \<and> c_lock (cb t) = c_lock (cb s)
        \<and> c_in_lock (cpc (cthr t i)) = c_in_lock (cpc (cthr s i))"
    and "j \<noteq> i \<Longrightarrow> cthr t j = cthr s j" and "i < n"
  using assms
  by (cases "cpc (cthr s i)";
      auto simp: central_step_def central_thread_def Let_def c_in_lock_def creturn_def split: if_splits)+

lemma central_owner:
  assumes "reachable (central_step n) (central_start f n) s"
  shows "\<forall>i<n. c_in_lock (cpc (cthr s i)) \<longleftrightarrow> c_lock (cb s) = Some i"
  using assms
proof (rule reachable_invariant)
  show "\<forall>i<n. c_in_lock (cpc (cthr (central_start f n) i)) \<longleftrightarrow> c_lock (cb (central_start f n)) = Some i"
    by (simp add: central_start_def c_in_lock_def)
  show "\<forall>j<n. c_in_lock (cpc (cthr t j)) \<longleftrightarrow> c_lock (cb t) = Some j"
    if inv: "\<forall>i<n. c_in_lock (cpc (cthr s i)) \<longleftrightarrow> c_lock (cb s) = Some i" and st: "central_step n s i = Some t"
    for s i t
  proof -
    have "c_in_lock C_Unlock" by (simp add: c_in_lock_def)
    then have own: "cpc (cthr s i) = C_Unlock \<Longrightarrow> c_lock (cb s) = Some i"
      using inv central_lock(3) [OF st] by metis
    have "c_in_lock (cpc (cthr t j)) \<longleftrightarrow> c_lock (cb t) = Some j" if "j < n" for j
      using central_lock(1) [OF st] central_lock(2) [OF st, of j] central_lock(3) [OF st] inv that own
      by (cases "j = i") auto
    then show ?thesis by blast
  qed
qed

interpretation kuser: lock_user "klsense_step w" "klsense_start b x c" "\<lambda>_. True" kwho KTh kwants kreleases
  "\<lambda>s. kb_lock (kb s) \<noteq> None" klet_go for w b x c
proof unfold_locales
  show "kb_lock (kb s) \<noteq> None"
    if "reachable (klsense_step w n) (klsense_start b x c n) s" "kreleases s i" "klsense_step w n s (KTh i) \<noteq> None"
    for n s i
    using klsense_owner [OF that(1)] that(2,3)
    by (auto simp: kreleases_def in_lock_def klsense_step_def split: if_splits)
next
  show "klsense_step w n (klet_go s) a = map_option klet_go (klsense_step w n s a)"
    if "\<nexists>i. kwho a = Some i \<and> kwants s i" for n s a
    using that
    by (cases a; cases "kpc (kthr s (case a of KTh i \<Rightarrow> i | KIrq i \<Rightarrow> i))")
      (auto simp: klsense_step_def klsense_thread_def Let_def kclient_defs flag_seen_def)
next
  show "\<not> kb_lock (kb s) \<noteq> None \<and> kb_lock (kb t) \<noteq> None \<and> \<not> kwants t i"
    if "kwants s i" "klsense_step w n s (KTh i) = Some t" for n s i t
    using that by (auto simp: klsense_step_def klsense_thread_def Let_def kclient_defs split: if_splits)
next
  show "(kb_lock (kb t) \<noteq> None) = (kb_lock (kb s) \<noteq> None \<and> \<not> kreleases s i) \<and> (kreleases s i \<longrightarrow> \<not> kwants t i)"
    if "\<not> kwants s i" "klsense_step w n s (KTh i) = Some t" for n s i t
    using that
    by (cases "kpc (kthr s i)")
      (auto simp: klsense_step_def klsense_thread_def Let_def kclient_defs split: if_splits)
next
  show "kwants t j = kwants s j" if "klsense_step w n s (KTh i) = Some t" "j \<noteq> i" for n s i t j
    using that
    by (cases "kpc (kthr s i)")
      (auto simp: klsense_step_def klsense_thread_def Let_def kclient_defs split: if_splits)
next
  show "(kwho a = Some i) = (a = KTh i)" for a i by (cases a) auto
qed (auto simp: klsense_step_def klsense_thread_def kclient_defs halt_returns_def klsense_start_def
    kmon_spin_barrier_init_def Let_def split: klabel.splits if_splits)

interpretation cuser: lock_user central_step "central_start f" "\<lambda>_. True" Some "\<lambda>i. i" cwants creleases
  "\<lambda>s. c_lock (cb s) \<noteq> None" clet_go for f
proof unfold_locales
  show "c_lock (cb s) \<noteq> None"
    if "reachable (central_step n) (central_start f n) s" "creleases s i" "central_step n s i \<noteq> None" for n s i
    using central_owner [OF that(1)] that(2,3)
    by (auto simp: creleases_def c_in_lock_def central_step_def split: if_splits)
next
  show "central_step n (clet_go s) i = map_option clet_go (central_step n s i)"
    if "\<nexists>j. Some i = Some j \<and> cwants s j" for n s i
    using that
    by (cases "cpc (cthr s i)") (auto simp: central_step_def central_thread_def Let_def cclient_defs creturn_def)
next
  show "\<not> c_lock (cb s) \<noteq> None \<and> c_lock (cb t) \<noteq> None \<and> \<not> cwants t i"
    if "cwants s i" "central_step n s i = Some t" for n s i t
    using that by (auto simp: central_step_def central_thread_def Let_def cclient_defs split: if_splits)
next
  show "(c_lock (cb t) \<noteq> None) = (c_lock (cb s) \<noteq> None \<and> \<not> creleases s i) \<and> (creleases s i \<longrightarrow> \<not> cwants t i)"
    if "\<not> cwants s i" "central_step n s i = Some t" for n s i t
    using that
    by (cases "cpc (cthr s i)")
      (auto simp: central_step_def central_thread_def Let_def cclient_defs creturn_def split: if_splits)
next
  show "cwants t j = cwants s j" if "central_step n s i = Some t" "j \<noteq> i" for n s i t j
    using that
    by (cases "cpc (cthr s i)")
      (auto simp: central_step_def central_thread_def Let_def cclient_defs split: if_splits)
qed (auto simp: central_step_def central_thread_def cclient_defs central_start_def Let_def split: if_splits)

text \<open>Two threads that release the lock of the MONITOR/MWAIT barrier do it while it is taken.\<close>

lemma phase_release:
  assumes "in_phase p R ph b m x y"
  shows "mpc x = M_Unlock \<or> mpc x = M_Release \<Longrightarrow> mb_locked b"
    and "mpc y = M_Unlock \<or> mpc y = M_Release \<Longrightarrow> mb_locked b"
  using assms by (cases ph; auto simp: m_before_def m_waiting_def m_waking_def m_slept_def)+

lemma mwait_release_held:
  assumes "reachable (mwait_step p 2) (mwait_start b (quiet p m) u 2) s" and "i < 2" and "mreleases s i"
  shows "mb_locked (mbar s)"
proof -
  obtain R where "mwait_inv p R s" using mwait_reachable_inv [OF assms(1) quiet_byte] by blast
  then obtain ph where ph: "in_phase p R ph (mbar s) (mmem s) (mthr s 0) (mthr s 1)
      \<or> in_phase p R ph (mbar s) (mmem s) (mthr s 1) (mthr s 0)"
    by (auto simp: mwait_inv_def)
  have "i = 0 \<or> i = 1" using assms(2) by auto
  then show ?thesis using ph assms(3) phase_release unfolding mreleases_def by metis
qed

lemma mwait_lock:
  assumes "mwait_step p n s (MTh i) = Some t"
  shows "mpc (mthr s i) = M_Lock \<and> \<not> mb_locked (mbar s) \<and> mb_locked (mbar t) \<and> mpc (mthr t i) = M_Load
    \<or> mreleases s i \<and> \<not> mb_locked (mbar t) \<and> mpc (mthr t i) \<noteq> M_Lock
    \<or> mpc (mthr s i) \<noteq> M_Lock \<and> \<not> mreleases s i \<and> mb_locked (mbar t) = mb_locked (mbar s)"
    and "j \<noteq> i \<Longrightarrow> mpc (mthr t j) = mpc (mthr s j)" and "i < n"
  using assms
  by (cases "mpc (mthr s i)";
      auto simp: mwait_step_def mwait_thread_def Let_def mreleases_def mreturn_def others_see_def
        split: if_splits option.splits prod.splits)+

interpretation muser: lock_user "mwait_step p" "mwait_start b (quiet p m) u" "\<lambda>n. n = 2" mwho MTh mwants mreleases
  "\<lambda>s. mb_locked (mbar s)" mlet_go for p b m u
proof unfold_locales
  show "mb_locked (mbar s)"
    if "n = 2" "reachable (mwait_step p n) (mwait_start b (quiet p m) u n) s" "mreleases s i"
      "mwait_step p n s (MTh i) \<noteq> None" for n s i
  proof -
    have "i < 2" using that(1,4) by (auto simp: mwait_step_def split: if_splits)
    then show ?thesis using mwait_release_held that(1-3) by simp
  qed
next
  show "mwait_step p n (mlet_go s) a = map_option mlet_go (mwait_step p n s a)"
    if "\<nexists>i. mwho a = Some i \<and> mwants s i" for n s a
  proof (cases a)
    case (MTh i)
    then have "mpc (mthr s i) \<noteq> M_Lock" using that by (simp add: mwants_def)
    then show ?thesis
      using MTh by (cases "mpc (mthr s i)")
        (auto simp: mwait_step_def mwait_thread_def Let_def mlet_go_def split: option.split prod.split)
  qed (auto simp: mwait_step_def mlet_go_def)
next
  show "\<not> mb_locked (mbar s) \<and> mb_locked (mbar t) \<and> \<not> mwants t i"
    if "mwants s i" "mwait_step p n s (MTh i) = Some t" for n s i t
    using mwait_lock(1) [OF that(2)] that(1) by (auto simp: mwants_def mreleases_def)
next
  show "mb_locked (mbar t) = (mb_locked (mbar s) \<and> \<not> mreleases s i) \<and> (mreleases s i \<longrightarrow> \<not> mwants t i)"
    if "\<not> mwants s i" "mwait_step p n s (MTh i) = Some t" for n s i t
    using mwait_lock(1) [OF that(2)] that(1) by (auto simp: mwants_def)
next
  show "mwants t j = mwants s j" if "mwait_step p n s (MTh i) = Some t" "j \<noteq> i" for n s i t j
    using mwait_lock(2) [OF that] by (simp add: mwants_def)
next
  show "i < n" if "mwait_step p n s (MTh i) = Some t" for n s i t
    using mwait_lock(3) [OF that] .
next
  show "(mwho a = Some i) = (a = MTh i)" for a i by (cases a) auto
next
  show "mwants t j = mwants s j" if "mwait_step p n s a = Some t" "mwho a = None" for n s a t j
    using that by (cases a) (auto simp: mwait_step_def mwants_def split: if_splits)
next
  show "mb_locked (mbar t) = mb_locked (mbar s)" if "mwait_step p n s a = Some t" "mwho a = None" for n s a t
    using that by (cases a) (auto simp: mwait_step_def split: if_splits)
next
  show "mwait_step p n (mlet_go s) (MTh i) \<noteq> None" if "mwants s i" "i < n" for n s i
    using that by (simp add: mwait_step_def mwait_thread_def mclient_defs Let_def)
qed (auto simp: mclient_defs mwait_start_def mwait_barrier_init_def)

section \<open>The barriers on their locks\<close>

interpretation kba: lock_client "lock_step kmon_spin_lock" core_entry "finished kmon_spin_lock"
  "store_effect kmon_spin_unlock" 0 "xl_linv 1" any_word "xl_holds 0" no_credit "xl_lvl 0" limit 14
  "klsense_step w" "klsense_start b x c" "\<lambda>_. True" kwho KTh kwants kreleases
  "\<lambda>s. kb_lock (kb s) \<noteq> None" klet_go for limit w b x c
  by unfold_locales

interpretation kca: lock_client "lock_step kmon_spin_lock" core_entry "finished kmon_spin_lock"
  "store_effect kmon_spin_unlock" 0 "xl_linv 1" any_word "xl_holds 0" no_credit "xl_lvl 0" limit 14
  central_step "central_start f" "\<lambda>_. True" Some "\<lambda>i. i" cwants creleases
  "\<lambda>s. c_lock (cb s) \<noteq> None" clet_go for limit f
  by unfold_locales

interpretation sca: lock_client "lock_step spin_lock_fast" core_entry "finished spin_lock_fast"
  "store_effect spin_unlock" SPIN_LOCK_UNLOCKED sl_linv dec_wok slf_holds slf_credit dec_lvl dec_limit 10
  central_step "central_start f" "\<lambda>_. True" Some "\<lambda>i. i" cwants creleases
  "\<lambda>s. c_lock (cb s) \<noteq> None" clet_go for f
  by unfold_locales

interpretation mba: lock_client "lock_step spin_lock_fast" core_entry "finished spin_lock_fast"
  "store_effect spin_unlock" SPIN_LOCK_UNLOCKED sl_linv dec_wok slf_holds slf_credit dec_lvl dec_limit 10
  "mwait_step p" "mwait_start b (quiet p m) u" "\<lambda>n. n = 2" mwho MTh mwants mreleases
  "\<lambda>s. mb_locked (mbar s)" mlet_go for p b m u
  by unfold_locales

section \<open>Properties of the sense barriers\<close>

text \<open>The four barriers are the same composition, with the waiting loops of the macros.\<close>

definition klsense_barriers where
  "klsense_barriers =
     {(kmon_spin_barrier_lsense_asm, kmon_spin_barrier_lsense), (SPIN_BARRIER_LSENSE_asm, SPIN_BARRIER_LSENSE),
      (SPIN_BARRIER_LSENSE_HLT_asm, SPIN_BARRIER_LSENSE_HLT), (SPIN_BARRIER_LSENSE_HLTCNT_asm, SPIN_BARRIER_LSENSE_HLTCNT)}"

lemma klsense_barriersE:
  assumes "(asm, barrier) \<in> klsense_barriers"
  obtains w where "\<And>n. asm n = locked_klsense kmon_spin_lock kmon_spin_unlock w n" "\<And>n. barrier n = klsense_step w n"
  using assms
  by (auto simp: klsense_barriers_def macro_lock_same kmon_spin_barrier_lsense_asm_def SPIN_BARRIER_LSENSE_asm_def
      SPIN_BARRIER_LSENSE_HLT_asm_def SPIN_BARRIER_LSENSE_HLTCNT_asm_def kmon_spin_barrier_lsense_def
      SPIN_BARRIER_LSENSE_def SPIN_BARRIER_LSENSE_HLT_def SPIN_BARRIER_LSENSE_HLTCNT_def)

lemmas klsense_asm_defs = locked_klsense_def locked_klsense_start_def

lemma kmon_init_word: "store_effect kmon_spin_init v = 0"
  by (simp add: kmon_spin_init_def)

lemma klsense_same_states:
  "reachable (klsense_step w n) (klsense_start b x c n) u
    \<longleftrightarrow> (\<exists>s. reachable (locked_klsense kmon_spin_lock kmon_spin_unlock w n) (locked_klsense_start b x c v n) s
          \<and> client s = u)"
  unfolding klsense_asm_defs kmon_init_word
  by (rule kba.same_states [where limit = "Suc n"]) simp_all

text \<open>
  C11.  On the instructions of the lock the sense barriers of \<open>spin.c\<close> and \<open>spin.h\<close> do
  exactly what they do on the abstract lock: with the lock word and the threads' registers forgotten, the states
  they reach are those the barrier with the abstract lock reaches, whatever the number of threads and the
  word the lock held before its initialization.
\<close>

theorem locked_lsense_refines:
  assumes "(asm, barrier) \<in> klsense_barriers"
  shows "reachable (barrier n) (klsense_start b x c n) u
    \<longleftrightarrow> (\<exists>s. reachable (asm n) (locked_klsense_start b x c v n) s \<and> client s = u)"
  using klsense_barriersE [OF assms] klsense_same_states by metis

text \<open>
  One round of two threads on the instructions: both threads enter the lock routine, thread 0 wins
  the lock while thread 1 fails its exchange and spins, thread 0 arrives and halts, thread 1
  gets the lock, completes the round and returns.
\<close>

definition kround_asm :: "klabel list" where
  "kround_asm = [KTh 0, KTh 1] @ replicate 2 (KTh 0) @ replicate 6 (KTh 1) @ replicate 3 (KTh 0)
     @ replicate 6 (KTh 0) @ replicate 18 (KTh 1)"

lemmas locked_run_simps = locked_step_def locked_start_def lock_exec_simps core_entry_def finished_def numeral_eq_Suc

lemmas asm_run_simps = locked_run_simps klsense_asm_defs kround_asm_def klsense_eval kclient_defs kmon_spin_lock_def

lemma kround_asm_run:
  "\<exists>s. run (SPIN_BARRIER_LSENSE_HLT_asm 2) (locked_klsense_start kb0 3 0 7 2) kround_asm = Some s
     \<and> kreturns (kthr (client s) 1) = 1 \<and> kpc (kthr (client s) 0) = KHalted \<and> word s = 0"
  unfolding SPIN_BARRIER_LSENSE_HLT_asm_def macro_lock_same
  by (simp add: asm_run_simps kmon_init_word)

lemma hlt_asm_barrier: "(SPIN_BARRIER_LSENSE_HLT_asm, SPIN_BARRIER_LSENSE_HLT) \<in> klsense_barriers"
  by (simp add: klsense_barriers_def)

lemma locked_lsense_refines_witness:
  "\<exists>s. run (SPIN_BARRIER_LSENSE_HLT_asm 2) (locked_klsense_start kb0 3 0 7 2) kround_asm = Some s
     \<and> kreturns (kthr (client s) 1) = 1
     \<and> reachable (SPIN_BARRIER_LSENSE_HLT 2) (klsense_start kb0 3 0 2) (client s)"
proof -
  obtain s where s: "run (SPIN_BARRIER_LSENSE_HLT_asm 2) (locked_klsense_start kb0 3 0 7 2) kround_asm = Some s"
      "kreturns (kthr (client s) 1) = 1"
    using kround_asm_run by blast
  from locked_lsense_refines [OF hlt_asm_barrier, of 2] s run_reachable [OF s(1)] show ?thesis by blast
qed

text \<open>
  C9.  On the instructions of the lock the sense barriers of \<open>spin.c\<close> and \<open>spin.h\<close> keep their
  promise, for any number of threads below 2^32 and any interleaving of instructions: a call
  returns only after every thread has begun its call of the same round, no thread is more
  than one round ahead of another, and at most one thread is between acquisition and release.
\<close>

theorem locked_lsense_rounds:
  assumes "(asm, barrier) \<in> klsense_barriers" and "n < 2 ^ 32"
    and "reachable (asm n) (locked_klsense_start b x c v n) s" and "i < n" "j < n"
  shows "kreturns (kthr (client s) i) \<le> kcalls (kthr (client s) j)
    \<and> kcalls (kthr (client s) i) \<le> Suc (kcalls (kthr (client s) j))
    \<and> (in_lock (kpc (kthr (client s) i)) \<and> in_lock (kpc (kthr (client s) j)) \<longrightarrow> i = j)"
proof -
  obtain w where w: "asm n = locked_klsense kmon_spin_lock kmon_spin_unlock w n"
    using klsense_barriersE [OF assms(1)] by metis
  then have r: "reachable (klsense_step w n) (klsense_start b x c n) (client s)"
    using klsense_same_states assms(3) by metis
  obtain R where R: "klsense_inv n R (client s)" using klsense_reachable_inv [OF r assms(2)] by blast
  note ci = klsense_inv_calls [OF R assms(4)] and cj = klsense_inv_calls [OF R assms(5)]
  have "in_lock (kpc (kthr (client s) i)) \<Longrightarrow> in_lock (kpc (kthr (client s) j)) \<Longrightarrow> i = j"
    using klsense_owner [OF r] assms(4,5) by auto
  then show ?thesis using ci cj by linarith
qed

lemma locked_lsense_rounds_witness:
  "\<exists>s. run (SPIN_BARRIER_LSENSE_HLT_asm 2) (locked_klsense_start kb0 3 0 7 2) kround_asm = Some s
     \<and> kreturns (kthr (client s) 1) = 1 \<and> kpc (kthr (client s) 0) = KHalted \<and> 1 \<le> kcalls (kthr (client s) 0)"
proof -
  obtain s where s: "run (SPIN_BARRIER_LSENSE_HLT_asm 2) (locked_klsense_start kb0 3 0 7 2) kround_asm = Some s"
      "kreturns (kthr (client s) 1) = 1" "kpc (kthr (client s) 0) = KHalted"
    using kround_asm_run by blast
  from locked_lsense_rounds [OF hlt_asm_barrier _ run_reachable [OF s(1)], of 1 0] s show ?thesis by simp
qed

text \<open>
  C10.  Down to the instructions of the lock they never get stuck: from every reachable
  state, also one in which a thread has just won the lock or others spin in the lock routine, there is a continuation
  in which every thread completes \<open>k\<close> further calls, for every \<open>k\<close>.
\<close>

theorem locked_lsense_goes_on:
  assumes "(asm, barrier) \<in> klsense_barriers" and "0 < n" and "n < 2 ^ 32"
    and r: "reachable (asm n) (locked_klsense_start b x c v n) s"
  shows "\<exists>t. reachable (asm n) s t
    \<and> (\<forall>i<n. kreturns (kthr (client s) i) + k \<le> kreturns (kthr (client t) i))"
proof -
  obtain w where w: "asm n = locked_klsense kmon_spin_lock kmon_spin_unlock w n"
    using klsense_barriersE [OF assms(1)] by metis
  define K where "K = (\<Sum>i<n. kreturns (kthr (client s) i)) + k"
  have K: "kreturns (kthr (client s) i) + k \<le> K" if "i < n" for i
    using that member_le_sum [of i "{..<n}" "\<lambda>i. kreturns (kthr (client s) i)"] by (simp add: K_def)
  have v: "\<exists>u. reachable (klsense_step w n) v u \<and> (\<forall>i<n. K \<le> kreturns (kthr u i))"
    if rv: "reachable (klsense_step w n) (klsense_start b x c n) v" for v
  proof -
    obtain R where R: "klsense_inv n R v" using klsense_reachable_inv [OF rv assms(3)] by blast
    obtain u where u: "reachable (klsense_step w n) v u" "klsense_inv n (R + Suc K) u"
      using krounds_complete [OF R assms(3,2)] by blast
    have "K \<le> kreturns (kthr u i)" if "i < n" for i using klsense_inv_calls(3) [OF u(2) that] by simp
    with u(1) show ?thesis by blast
  qed
  have "\<exists>t. reachable (asm n) s t \<and> (\<forall>i<n. K \<le> kreturns (kthr (client t) i))"
    unfolding w locked_klsense_def
    by (rule kba.continues_client [where limit = "Suc n" and b = b and x = x and c = c, OF _ _ _ v])
      (use r in \<open>simp_all add: w klsense_asm_defs kmon_init_word\<close>)
  then show ?thesis using K by (auto intro: order_trans)
qed

lemma locked_lsense_goes_on_witness:
  "\<exists>s t. run (kmon_spin_barrier_lsense_asm 2) (locked_klsense_start kb0 3 0 7 2) [KTh 0, KTh 1, KTh 0, KTh 0] = Some s
     \<and> word s = 1 \<and> kpc (kthr (client s) 0) = KLock
     \<and> reachable (kmon_spin_barrier_lsense_asm 2) s t \<and> 5 \<le> kreturns (kthr (client t) 1)"
proof -
  obtain s where s: "run (kmon_spin_barrier_lsense_asm 2) (locked_klsense_start kb0 3 0 7 2) [KTh 0, KTh 1, KTh 0, KTh 0] = Some s"
      "word s = 1" "kpc (kthr (client s) 0) = KLock"
    by (simp add: kmon_spin_barrier_lsense_asm_def asm_run_simps kmon_init_word)
  have "(kmon_spin_barrier_lsense_asm, kmon_spin_barrier_lsense) \<in> klsense_barriers"
    by (simp add: klsense_barriers_def)
  from locked_lsense_goes_on [OF this _ _ run_reachable [OF s(1)], of 5]
  obtain t where "reachable (kmon_spin_barrier_lsense_asm 2) s t"
      "\<forall>i<2. kreturns (kthr (client s) i) + 5 \<le> kreturns (kthr (client t) i)"
    by auto
  moreover from this(2) have "kreturns (kthr (client s) 1) + 5 \<le> kreturns (kthr (client t) 1)" by simp
  ultimately show ?thesis using s add_leE by blast
qed

section \<open>Properties of the barriers without a local sense\<close>

text \<open>Each with its lock and the word its initialization leaves.\<close>

definition central_barriers where
  "central_barriers v =
     {(spin_barrier_nosense_asm, spin_barrier_nosense, spin_lock_init v),
      (kmon_spin_barrier_nosense_asm, kmon_spin_barrier_nosense, store_effect kmon_spin_init v)}"

lemmas central_asm_defs = spin_barrier_nosense_asm_def kmon_spin_barrier_nosense_asm_def
  spin_barrier_nosense_def kmon_spin_barrier_nosense_def locked_central_def locked_central_start_def

text \<open>
  C30.  The same for the barriers without a local sense, \<open>spin_barrier\<close> of \<open>synch.h\<close> on
  \<open>spin_lock_fast\<close> and that of \<open>spin.c\<close> on its exchanging lock, for fewer than 2^31 threads: what
  holds of them on the abstract lock, their failures included, holds on the instructions.
\<close>

theorem locked_nosense_refines:
  assumes "(asm, barrier, w) \<in> central_barriers v" and "n < 2 ^ 31"
  shows "reachable (barrier n) (central_start f n) u
    \<longleftrightarrow> (\<exists>s. reachable (asm n) (locked_central_start f w n) s \<and> client s = u)"
proof -
  consider "asm = spin_barrier_nosense_asm" "barrier = spin_barrier_nosense" "w = SPIN_LOCK_UNLOCKED"
    | "asm = kmon_spin_barrier_nosense_asm" "barrier = kmon_spin_barrier_nosense" "w = 0"
    using assms(1) by (auto simp: central_barriers_def spin_lock_init_def kmon_init_word)
  then show ?thesis
  proof cases
    case 1
    show ?thesis
      unfolding 1 central_asm_defs
      by (rule sca.same_states) (use assms(2) in \<open>simp_all add: dec_limit_def\<close>)
  next
    case 2
    show ?thesis
      unfolding 2 central_asm_defs
      by (rule kca.same_states [where limit = "Suc n"]) simp_all
  qed
qed

text \<open>With the instructions of its lock, too, a thread leaves its second call before the other begins one.\<close>

lemma locked_nosense_refines_witness:
  "\<exists>s. reachable (spin_barrier_nosense_asm 2) (locked_central_start 1 (spin_lock_init 7) 2) s
     \<and> creturns (cthr (client s) 0) = 2 \<and> ccalls (cthr (client s) 1) = 1"
proof -
  have b: "(spin_barrier_nosense_asm, spin_barrier_nosense, spin_lock_init 7) \<in> central_barriers 7"
    by (simp add: central_barriers_def)
  let ?ls = "arrive 0 7 @ arrive 1 6 @ arrive 0 1 @ arrive 1 1 @ arrive 0 10 @ arrive 1 2 @ arrive 0 1"
  obtain u where u: "run (spin_barrier_nosense 2) (central_start 1 2) ?ls = Some u"
      "creturns (cthr u 0) = 2" "ccalls (cthr u 1) = 1"
    by (simp add: schedule_eval central_eval)
  have "2 < (2 :: nat) ^ 31" by simp
  from locked_nosense_refines [OF b this] run_reachable [OF u(1)] u(2,3)
  show ?thesis by metis
qed

section \<open>Properties of the MONITOR/MWAIT barrier\<close>

text \<open>
  C6.  The MONITOR/MWAIT barriers on the instructions of \<open>spin_lock_fast\<close>, with every statement of the
  barrier and of the sleeping call, interrupts and unrelated stores in any order: although the lock
  is released by another thread than the one that took it, rounds stay separated, and from every reachable state there
  is a continuation in which both threads complete \<open>k\<close> further calls.
\<close>

theorem mwait_barrier_on_its_lock:
  assumes "(asm, p) \<in> {(mwait_barrier_asm g, mwmon_mmap_area g), (mwait_barrier2_asm g, mwmon_mmap_area2 g)}"
    and "m p \<noteq> MWMON_NOTIFIED_VAL" and "reachable (asm 2) (locked_mwait_start b m u v 2) s"
  shows "(\<forall>i<2. \<forall>j<2. mreturns (mthr (client s) i) \<le> mcalls (mthr (client s) j)
        \<and> mcalls (mthr (client s) i) \<le> Suc (mcalls (mthr (client s) j)))
    \<and> (\<exists>t. reachable (asm 2) s t
        \<and> (\<forall>i<2. mreturns (mthr (client s) i) + k \<le> mreturns (mthr (client t) i)))"
proof -
  have a: "asm 2 = locked_mwait p 2"
    using assms(1) by (auto simp: mwait_barrier_asm_def mwait_barrier2_asm_def)
  have m: "quiet p m = m" by (rule quiet_id [of m p, OF assms(2)])
  have lim: "Suc 2 \<le> dec_limit" by (simp add: dec_limit_def)
  have st: "locked_mwait_start b m u v 2 = locked_start (mwait_start b (quiet p m) u 2) SPIN_LOCK_UNLOCKED core_entry"
    by (simp add: locked_mwait_start_def m spin_lock_init_def)
  have r: "reachable (locked_mwait p 2) (locked_start (mwait_start b (quiet p m) u 2) SPIN_LOCK_UNLOCKED core_entry) s"
    using assms(3) by (simp only: a st)
  have inv: "\<exists>R. mwait_inv p R c" if "reachable (mwait_step p 2) (mwait_start b (quiet p m) u 2) c" for c
    by (rule mwait_reachable_inv [OF that quiet_byte])
  obtain R where R: "mwait_inv p R (client s)"
    using mba.keeps_invariant [OF refl lim, where P = "\<lambda>c. \<exists>R. mwait_inv p R c", OF r [unfolded locked_mwait_def] inv]
    by blast
  have c: "mreturns (mthr (client s) i) \<le> mcalls (mthr (client s) j)
      \<and> mcalls (mthr (client s) i) \<le> Suc (mcalls (mthr (client s) j))" if "i < 2" "j < 2" for i j
    using mwait_inv_calls [OF R that] mwait_inv_calls [OF R that(2,1)] mwait_inv_calls [OF R that(1,1)] by linarith
  have le: "mreturns (mthr (client s) i) \<le> Suc R" if "i < 2" for i
    using mwait_inv_calls(4) [OF R that that] .
  have "\<exists>w. reachable (mwait_step p 2) c w \<and> (\<forall>i<2. Suc R + k \<le> mreturns (mthr w i))"
    if "reachable (mwait_step p 2) (mwait_start b (quiet p m) u 2) c" for c
  proof -
    obtain R' where R': "mwait_inv p R' c" using inv [OF \<open>reachable _ _ c\<close>] by blast
    obtain w where w: "reachable (mwait_step p 2) c w" "mwait_inv p (R' + (Suc R + k)) w"
      using rounds_complete [where rank = mtotal_rank, OF mprogress_step R'] by blast
    have "Suc R + k \<le> mreturns (mthr w i)" if "i < 2" for i
      using mwait_inv_calls(3) [OF w(2) that that] by simp
    with w(1) show ?thesis by blast
  qed
  from mba.continues_client [OF refl lim r [unfolded locked_mwait_def] this]
  obtain t where "reachable (asm 2) s t" "\<forall>i<2. Suc R + k \<le> mreturns (mthr (client t) i)"
    unfolding a locked_mwait_def by blast
  then show ?thesis using c le by (meson add_le_mono1 order_trans)
qed

text \<open>Thread 0 arrives, hands its lock back and sleeps; thread 1 has taken the lock and notified.\<close>

definition mround_asm :: "mlabel list" where
  "mround_asm = replicate 13 (MTh 0) @ replicate 9 (MTh 1)"

lemmas masm_run_simps = locked_run_simps locked_mwait_start_def locked_mwait_def mround_asm_def mwait_barrier_asm_def
  mwait_eval mclient_defs spin_lock_fast_def lock_init_simps

lemma mround_asm_run:
  "\<exists>s. run (mwait_barrier_asm g0 2) (locked_mwait_start mb0 (\<lambda>_. 0) u0 9 2) mround_asm = Some s
     \<and> mpc (mthr (client s) 0) = M_Sleep \<and> mreturns (mthr (client s) 1) = 1 \<and> word s = 0"
  by (simp add: masm_run_simps)

lemma mwait_barrier_on_its_lock_witness:
  "\<exists>s t. run (mwait_barrier_asm g0 2) (locked_mwait_start mb0 (\<lambda>_. 0) u0 9 2) mround_asm = Some s
     \<and> mpc (mthr (client s) 0) = M_Sleep \<and> mreturns (mthr (client s) 1) = 1 \<and> word s = 0
     \<and> reachable (mwait_barrier_asm g0 2) s t \<and> 5 \<le> mreturns (mthr (client t) 1)"
proof -
  obtain s where s: "run (mwait_barrier_asm g0 2) (locked_mwait_start mb0 (\<lambda>_. 0) u0 9 2) mround_asm = Some s"
      "mpc (mthr (client s) 0) = M_Sleep" "mreturns (mthr (client s) 1) = 1" "word s = 0"
    using mround_asm_run by blast
  have "\<exists>t. reachable (mwait_barrier_asm g0 2) s t
      \<and> (\<forall>i<2. mreturns (mthr (client s) i) + 4 \<le> mreturns (mthr (client t) i))"
    using mwait_barrier_on_its_lock [of "mwait_barrier_asm g0" "mwmon_mmap_area g0" g0 "\<lambda>_. 0", OF _ _ run_reachable [OF s(1)], of 4]
    by (simp add: MWMON_NOTIFIED_VAL_def)
  then obtain t where "reachable (mwait_barrier_asm g0 2) s t"
      "mreturns (mthr (client s) 1) + 4 \<le> mreturns (mthr (client t) 1)"
    by auto
  with s show ?thesis by auto
qed

end
