(* ===== verification/Syscall_Abi.thy ===== *)
theory Syscall_Abi
  imports Ht_Prelude
begin

text \<open>
  How the programs enter the kernel: the macros of \<open>syscall_macros.h\<close> (the same file in all
  directories), for 32-bit programs through \<open>int $0x80\<close> and for 64-bit programs through \<open>syscall\<close>.
  A macro is a list of assembly instructions over a register file, after the compiler has put
  the operands into the registers their constraints name; the kernel is a parameter, a function
  from the registers at entry to the value it leaves in the accumulator.
\<close>

section \<open>Registers and instructions\<close>

datatype reg = AX | BX | CX | DX | SI | DI | BP | R8 | R9 | R10 | R11

record 'w acore =
  regs :: "reg \<Rightarrow> 'w"
  stack :: "'w list"
  traps :: "(reg \<Rightarrow> 'w) list"        \<comment> \<open>what the kernel saw, in order\<close>

datatype 'w ainstr =
    PushR reg
  | PopR reg
  | MovV 'w reg          \<comment> \<open>\<open>mov\<close> of an operand's value into a register\<close>
  | Int80                \<comment> \<open>\<open>int $0x80\<close>: only the accumulator changes\<close>
  | SyscallI             \<comment> \<open>\<open>syscall\<close>: \<open>rcx\<close> and \<open>r11\<close> are lost as well\<close>

text \<open>\<open>kern\<close> is the kernel; \<open>junk\<close> is what \<open>syscall\<close> leaves in \<open>rcx\<close> and \<open>r11\<close>.\<close>

fun aexec :: "((reg \<Rightarrow> 'w) \<Rightarrow> 'w) \<Rightarrow> (reg \<Rightarrow> 'w) \<Rightarrow> 'w ainstr \<Rightarrow> 'w acore \<Rightarrow> 'w acore" where
  "aexec kern junk (PushR r) c = c\<lparr>stack := regs c r # stack c\<rparr>"
| "aexec kern junk (PopR r) c = c\<lparr>regs := (regs c)(r := hd (stack c)), stack := tl (stack c)\<rparr>"
| "aexec kern junk (MovV v r) c = c\<lparr>regs := (regs c)(r := v)\<rparr>"
| "aexec kern junk Int80 c = c\<lparr>regs := (regs c)(AX := kern (regs c)), traps := traps c @ [regs c]\<rparr>"
| "aexec kern junk SyscallI c =
     c\<lparr>regs := (regs c)(AX := kern (regs c), CX := junk CX, R11 := junk R11), traps := traps c @ [regs c]\<rparr>"

fun arun :: "((reg \<Rightarrow> 'w) \<Rightarrow> 'w) \<Rightarrow> (reg \<Rightarrow> 'w) \<Rightarrow> 'w ainstr list \<Rightarrow> 'w acore \<Rightarrow> 'w acore" where
  "arun kern junk [] c = c"
| "arun kern junk (x # xs) c = arun kern junk xs (aexec kern junk x c)"

text \<open>The input operands with a register constraint, loaded before the block.\<close>

definition load :: "(reg \<times> 'w) list \<Rightarrow> 'w acore \<Rightarrow> 'w acore" where
  "load ops c = c\<lparr>regs := fold (\<lambda>(r, v) f. f(r := v)) ops (regs c)\<rparr>"

section \<open>The 64-bit macros\<close>

text \<open>\<open>__syscall_return\<close> for 64 bits: the value handed back and the new \<open>errno\<close>.\<close>

definition syscall_return64 :: "u64 \<Rightarrow> u32 \<Rightarrow> u64 \<times> u32" where
  "syscall_return64 res errno = (if - 127 \<le> res then (- 1, ucast (- res)) else (res, errno))"

definition syscall0_64 :: "((reg \<Rightarrow> u64) \<Rightarrow> u64) \<Rightarrow> (reg \<Rightarrow> u64) \<Rightarrow> u64 \<Rightarrow> u64 acore \<Rightarrow> u64 acore" where
  "syscall0_64 kern junk nr c = arun kern junk [SyscallI] (load [(AX, nr)] c)"

definition syscall1_64 :: "((reg \<Rightarrow> u64) \<Rightarrow> u64) \<Rightarrow> (reg \<Rightarrow> u64) \<Rightarrow> u64 \<Rightarrow> u64 \<Rightarrow> u64 acore \<Rightarrow> u64 acore" where
  "syscall1_64 kern junk nr a1 c = arun kern junk [SyscallI] (load [(AX, nr), (DI, a1)] c)"

definition syscall2_64 ::
  "((reg \<Rightarrow> u64) \<Rightarrow> u64) \<Rightarrow> (reg \<Rightarrow> u64) \<Rightarrow> u64 \<Rightarrow> u64 \<Rightarrow> u64 \<Rightarrow> u64 acore \<Rightarrow> u64 acore" where
  "syscall2_64 kern junk nr a1 a2 c = arun kern junk [SyscallI] (load [(AX, nr), (DI, a1), (SI, a2)] c)"

definition syscall3_64 ::
  "((reg \<Rightarrow> u64) \<Rightarrow> u64) \<Rightarrow> (reg \<Rightarrow> u64) \<Rightarrow> u64 \<Rightarrow> u64 \<Rightarrow> u64 \<Rightarrow> u64 \<Rightarrow> u64 acore \<Rightarrow> u64 acore" where
  "syscall3_64 kern junk nr a1 a2 a3 c =
     arun kern junk [SyscallI] (load [(AX, nr), (DI, a1), (SI, a2), (DX, a3)] c)"

definition syscall4_64 ::
  "((reg \<Rightarrow> u64) \<Rightarrow> u64) \<Rightarrow> (reg \<Rightarrow> u64) \<Rightarrow> u64 \<Rightarrow> u64 \<Rightarrow> u64 \<Rightarrow> u64 \<Rightarrow> u64 \<Rightarrow> u64 acore \<Rightarrow> u64 acore" where
  "syscall4_64 kern junk nr a1 a2 a3 a4 c =
     arun kern junk [MovV a4 R10, SyscallI] (load [(AX, nr), (DI, a1), (SI, a2), (DX, a3)] c)"

definition syscall5_64 ::
  "((reg \<Rightarrow> u64) \<Rightarrow> u64) \<Rightarrow> (reg \<Rightarrow> u64) \<Rightarrow> u64 \<Rightarrow> u64 \<Rightarrow> u64 \<Rightarrow> u64 \<Rightarrow> u64 \<Rightarrow> u64 \<Rightarrow> u64 acore \<Rightarrow> u64 acore" where
  "syscall5_64 kern junk nr a1 a2 a3 a4 a5 c =
     arun kern junk [MovV a4 R10, MovV a5 R8, SyscallI] (load [(AX, nr), (DI, a1), (SI, a2), (DX, a3)] c)"

definition syscall6_64 ::
  "((reg \<Rightarrow> u64) \<Rightarrow> u64) \<Rightarrow> (reg \<Rightarrow> u64) \<Rightarrow> u64 \<Rightarrow> u64 \<Rightarrow> u64 \<Rightarrow> u64 \<Rightarrow> u64 \<Rightarrow> u64 \<Rightarrow> u64 \<Rightarrow> u64 acore \<Rightarrow> u64 acore" where
  "syscall6_64 kern junk nr a1 a2 a3 a4 a5 a6 c =
     arun kern junk [MovV a4 R10, MovV a5 R8, MovV a6 R9, SyscallI]
       (load [(AX, nr), (DI, a1), (SI, a2), (DX, a3)] c)"

text \<open>The macros \<open>_syscallN\<close> end with \<open>__syscall_return\<close> on the accumulator.\<close>

definition returned64 :: "u64 acore \<Rightarrow> u32 \<Rightarrow> u64 \<times> u32" where
  "returned64 c errno = syscall_return64 (regs c AX) errno"

text \<open>The fast macros return nothing; the accumulator goes to \<open>__dummy_res\<close>.\<close>

definition fast_syscall0_64 :: "((reg \<Rightarrow> u64) \<Rightarrow> u64) \<Rightarrow> (reg \<Rightarrow> u64) \<Rightarrow> u64 \<Rightarrow> u64 acore \<Rightarrow> u64 acore \<times> u64" where
  "fast_syscall0_64 kern junk nr c =
     (let c' = arun kern junk [SyscallI] (load [(AX, nr)] c) in (c', regs c' AX))"

definition fast_syscall1_64 ::
  "((reg \<Rightarrow> u64) \<Rightarrow> u64) \<Rightarrow> (reg \<Rightarrow> u64) \<Rightarrow> u64 \<Rightarrow> u64 \<Rightarrow> u64 acore \<Rightarrow> u64 acore \<times> u64" where
  "fast_syscall1_64 kern junk nr a1 c =
     (let c' = arun kern junk [SyscallI] (load [(AX, nr), (DI, a1)] c) in (c', regs c' AX))"

section \<open>The 32-bit macros\<close>

text \<open>
  Here the first argument goes to \<open>ebx\<close>, which position-independent code must keep: it is pushed
  and popped around the call.  \<open>__syscall_return\<close> sets no \<open>errno\<close>.
\<close>

definition syscall_return32 :: "u32 \<Rightarrow> u32" where
  "syscall_return32 res = (if - (128 + 1) \<le> res then - 1 else res)"

definition via_ebx :: "u32 \<Rightarrow> u32 ainstr list" where
  "via_ebx a1 = [PushR BX, MovV a1 BX, Int80, PopR BX]"

definition syscall0_32 :: "((reg \<Rightarrow> u32) \<Rightarrow> u32) \<Rightarrow> u32 \<Rightarrow> u32 acore \<Rightarrow> u32 acore" where
  "syscall0_32 kern nr c = arun kern (regs c) [Int80] (load [(AX, nr)] c)"

definition syscall1_32 :: "((reg \<Rightarrow> u32) \<Rightarrow> u32) \<Rightarrow> u32 \<Rightarrow> u32 \<Rightarrow> u32 acore \<Rightarrow> u32 acore" where
  "syscall1_32 kern nr a1 c = arun kern (regs c) (via_ebx a1) (load [(AX, nr)] c)"

definition syscall2_32 :: "((reg \<Rightarrow> u32) \<Rightarrow> u32) \<Rightarrow> u32 \<Rightarrow> u32 \<Rightarrow> u32 \<Rightarrow> u32 acore \<Rightarrow> u32 acore" where
  "syscall2_32 kern nr a1 a2 c = arun kern (regs c) (via_ebx a1) (load [(AX, nr), (CX, a2)] c)"

definition syscall3_32 ::
  "((reg \<Rightarrow> u32) \<Rightarrow> u32) \<Rightarrow> u32 \<Rightarrow> u32 \<Rightarrow> u32 \<Rightarrow> u32 \<Rightarrow> u32 acore \<Rightarrow> u32 acore" where
  "syscall3_32 kern nr a1 a2 a3 c =
     arun kern (regs c) (via_ebx a1) (load [(AX, nr), (CX, a2), (DX, a3)] c)"

definition syscall4_32 ::
  "((reg \<Rightarrow> u32) \<Rightarrow> u32) \<Rightarrow> u32 \<Rightarrow> u32 \<Rightarrow> u32 \<Rightarrow> u32 \<Rightarrow> u32 \<Rightarrow> u32 acore \<Rightarrow> u32 acore" where
  "syscall4_32 kern nr a1 a2 a3 a4 c =
     arun kern (regs c) (via_ebx a1) (load [(AX, nr), (CX, a2), (DX, a3), (SI, a4)] c)"

definition syscall5_32 ::
  "((reg \<Rightarrow> u32) \<Rightarrow> u32) \<Rightarrow> u32 \<Rightarrow> u32 \<Rightarrow> u32 \<Rightarrow> u32 \<Rightarrow> u32 \<Rightarrow> u32 \<Rightarrow> u32 acore \<Rightarrow> u32 acore" where
  "syscall5_32 kern nr a1 a2 a3 a4 a5 c =
     arun kern (regs c) [PushR BX, MovV a1 BX, MovV nr AX, Int80, PopR BX]
       (load [(CX, a2), (DX, a3), (SI, a4), (DI, a5)] c)"

text \<open>\<open>_syscall6\<close> finds its first and last argument in a structure the accumulator points to.\<close>

definition syscall6_32 ::
  "((reg \<Rightarrow> u32) \<Rightarrow> u32) \<Rightarrow> u32 \<Rightarrow> u32 \<Rightarrow> u32 \<Rightarrow> u32 \<Rightarrow> u32 \<Rightarrow> u32 \<Rightarrow> u32 \<Rightarrow> u32 \<Rightarrow> u32 acore \<Rightarrow> u32 acore" where
  "syscall6_32 kern nr s_addr a1 a2 a3 a4 a5 a6 c =
     arun kern (regs c) [PushR BP, PushR BX, MovV a6 BP, MovV a1 BX, MovV nr AX, Int80, PopR BX, PopR BP]
       (load [(AX, s_addr), (CX, a2), (DX, a3), (SI, a4), (DI, a5)] c)"

definition returned32 :: "u32 acore \<Rightarrow> u32" where
  "returned32 c = syscall_return32 (regs c AX)"

definition fast_syscall0_32 :: "((reg \<Rightarrow> u32) \<Rightarrow> u32) \<Rightarrow> u32 \<Rightarrow> u32 acore \<Rightarrow> u32 acore \<times> u32" where
  "fast_syscall0_32 kern nr c = (let c' = arun kern (regs c) [Int80] (load [(AX, nr)] c) in (c', regs c' AX))"

definition fast_syscall1_32 :: "((reg \<Rightarrow> u32) \<Rightarrow> u32) \<Rightarrow> u32 \<Rightarrow> u32 \<Rightarrow> u32 acore \<Rightarrow> u32 acore \<times> u32" where
  "fast_syscall1_32 kern nr a1 c =
     (let c' = arun kern (regs c) (via_ebx a1) (load [(AX, nr)] c) in (c', regs c' AX))"

section \<open>Properties\<close>

text \<open>
  One entry into the kernel with the number and the arguments in the registers of the calling convention, the
  kernel's value in the accumulator, the stack as it was, and every register as the compiler may assume: the
  accumulator is the output, the registers \<open>clob\<close> are declared as overwritten, those of the input operands
  \<open>ins\<close>, which the compiler itself has loaded (and saved, where its caller relies on them), still hold their operand, and
  all others what they held before.
\<close>

definition entered :: "reg list \<Rightarrow> reg list \<Rightarrow> reg list \<Rightarrow> ((reg \<Rightarrow> 'w) \<Rightarrow> 'w) \<Rightarrow> 'w list \<Rightarrow> 'w acore \<Rightarrow> 'w acore \<Rightarrow> bool" where
  "entered order ins clob kern args c c' \<longleftrightarrow>
     traps c' = traps c @ [last (traps c')]
     \<and> map (last (traps c')) (take (length args) order) = args
     \<and> regs c' AX = kern (last (traps c')) \<and> stack c' = stack c
     \<and> list_all (\<lambda>r. r \<in> set clob \<or> regs c' r = (if r \<in> set ins then last (traps c') r else regs c r))
         [BX, CX, DX, SI, DI, BP, R8, R9, R10, R11]"

definition order64 :: "reg list" where "order64 = [AX, DI, SI, DX, R10, R8, R9]"
definition order32 :: "reg list" where "order32 = [AX, BX, CX, DX, SI, DI, BP]"

text \<open>\<open>__syscall_clobber\<close> of the 64-bit macros; the 32-bit macros declare memory only.\<close>

definition syscall_clobber :: "reg list" where "syscall_clobber = [R11, CX]"

lemmas abi_eval = entered_def order64_def order32_def syscall_clobber_def load_def via_ebx_def Let_def

text \<open>
  C31.  All system call macros, with zero to six arguments and in their fast form, enter the kernel exactly once and
  keep the stack.  At the entry the 64-bit macros have the call number in \<open>rax\<close> and the arguments, in order, in \<open>rdi\<close>,
  \<open>rsi\<close>, \<open>rdx\<close>, \<open>r10\<close>, \<open>r8\<close> and \<open>r9\<close>; the 32-bit macros have the number in \<open>eax\<close> and the arguments in \<open>ebx\<close>, \<open>ecx\<close>,
  \<open>edx\<close>, \<open>esi\<close>, \<open>edi\<close> and \<open>ebp\<close>.  Their blocks change no register the compiler is not told of: besides the accumulator
  only the declared ones (\<open>rcx\<close>, \<open>r11\<close>, and for more than three arguments \<open>r10\<close>, \<open>r8\<close>, \<open>r9\<close>; none for 32 bits, where
  \<open>ebx\<close> and \<open>ebp\<close> are put back); a register of an input operand still holds the operand.
\<close>

theorem macros_pass_arguments:
  "(entered order64 [] syscall_clobber kern [nr] c (syscall0_64 kern junk nr c)
   \<and> entered order64 [DI] syscall_clobber kern [nr, a1] c (syscall1_64 kern junk nr a1 c)
   \<and> entered order64 [DI, SI] syscall_clobber kern [nr, a1, a2] c (syscall2_64 kern junk nr a1 a2 c)
   \<and> entered order64 [DI, SI, DX] syscall_clobber kern [nr, a1, a2, a3] c (syscall3_64 kern junk nr a1 a2 a3 c)
   \<and> entered order64 [DI, SI, DX] (syscall_clobber @ [R10]) kern [nr, a1, a2, a3, a4] c (syscall4_64 kern junk nr a1 a2 a3 a4 c)
   \<and> entered order64 [DI, SI, DX] (syscall_clobber @ [R8, R10]) kern [nr, a1, a2, a3, a4, a5] c (syscall5_64 kern junk nr a1 a2 a3 a4 a5 c)
   \<and> entered order64 [DI, SI, DX] (syscall_clobber @ [R8, R10, R9]) kern [nr, a1, a2, a3, a4, a5, a6] c (syscall6_64 kern junk nr a1 a2 a3 a4 a5 a6 c)
   \<and> entered order64 [] syscall_clobber kern [nr] c (fst (fast_syscall0_64 kern junk nr c))
   \<and> entered order64 [DI] syscall_clobber kern [nr, a1] c (fst (fast_syscall1_64 kern junk nr a1 c)))
   \<and> (entered order32 [] [] kern' [nr'] d (syscall0_32 kern' nr' d)
   \<and> entered order32 [] [] kern' [nr', b1] d (syscall1_32 kern' nr' b1 d)
   \<and> entered order32 [CX] [] kern' [nr', b1, b2] d (syscall2_32 kern' nr' b1 b2 d)
   \<and> entered order32 [CX, DX] [] kern' [nr', b1, b2, b3] d (syscall3_32 kern' nr' b1 b2 b3 d)
   \<and> entered order32 [CX, DX, SI] [] kern' [nr', b1, b2, b3, b4] d (syscall4_32 kern' nr' b1 b2 b3 b4 d)
   \<and> entered order32 [CX, DX, SI, DI] [] kern' [nr', b1, b2, b3, b4, b5] d (syscall5_32 kern' nr' b1 b2 b3 b4 b5 d)
   \<and> entered order32 [CX, DX, SI, DI] [] kern' [nr', b1, b2, b3, b4, b5, b6] d (syscall6_32 kern' nr' s_addr b1 b2 b3 b4 b5 b6 d)
   \<and> entered order32 [] [] kern' [nr'] d (fst (fast_syscall0_32 kern' nr' d))
   \<and> entered order32 [] [] kern' [nr', b1] d (fst (fast_syscall1_32 kern' nr' b1 d)))"
  by (intro conjI)
    (simp_all add: abi_eval syscall0_64_def syscall1_64_def syscall2_64_def syscall3_64_def syscall4_64_def
      syscall5_64_def syscall6_64_def fast_syscall0_64_def fast_syscall1_64_def
      syscall0_32_def syscall1_32_def syscall2_32_def syscall3_32_def syscall4_32_def
      syscall5_32_def syscall6_32_def fast_syscall0_32_def fast_syscall1_32_def)

lemma minus_le_minus_word:
  fixes a b :: "'w::len word"
  assumes "a \<noteq> 0" and "b \<noteq> 0"
  shows "- a \<le> - b \<longleftrightarrow> b \<le> a"
proof -
  have "uint (- x) = 2 ^ LENGTH('w) - uint x" if "x \<noteq> 0" for x :: "'w word"
    using that uint_lt2p [of x] uint_ge_0 [of x] by (simp add: uint_word_ariths zmod_zminus1_eq_if uint_0_iff)
  then show ?thesis using assms by (simp add: word_le_def)
qed

text \<open>
  C32.  What a program learns of an error number \<open>e\<close> between 1 and 4095, the range the kernel
  reports: the 64-bit macros turn it into -1 with \<open>errno\<close> set up to 127 and hand the negative
  number through above that, leaving \<open>errno\<close> alone; the 32-bit macros do the same with the limit
  129 and never set \<open>errno\<close>.
\<close>

theorem error_returns:
  assumes "1 \<le> e" and "e \<le> 4095" and "1 \<le> e'" and "e' \<le> 4095"
  shows "(if e \<le> 127 then syscall_return64 (- e) errno = (- 1, ucast e) else syscall_return64 (- e) errno = (- e, errno))
    \<and> (if e' \<le> 129 then syscall_return32 (- e') = - 1 else syscall_return32 (- e') = - e')"
proof -
  have n: "e \<noteq> 0" "e' \<noteq> 0" using assms by auto
  have "(- 127 \<le> - e) = (e \<le> 127)" "(- 129 \<le> - e') = (e' \<le> 129)"
    using minus_le_minus_word [of 127 e] minus_le_minus_word [of 129 e'] n by simp_all
  then show ?thesis by (simp add: syscall_return64_def syscall_return32_def)
qed

lemma error_returns_witness:
  "syscall_return64 (- 22) 7 = (- 1, 22) \<and> syscall_return32 (- 200) = - 200"
  using error_returns [of 22 200 7] by simp

end
