(* ===== verification/Syscall_Table.thy ===== *)
theory Syscall_Table
  imports Syscall_Abi Spin_Loops
begin

text \<open>
  Which system call a program reaches: the numbers and stubs of \<open>cpu_control_syscalls.c\<close>, the
  numbers the kernel patches give their calls for 64-bit and for 32-bit programs, and the stubs built from
  the macros of \<open>Syscall_Abi\<close>.
\<close>

section \<open>The program's side\<close>

datatype sysname = Cpu_halt | Mwmon_kernel_init | Mwmon_kernel_sleep | Mwmon_kernel_notify
  | Mwmon_kernel_finalize | Mwmon_user_sleep | Mwmon_mmap_sleep | Mwmon_mmap_sleep2
  | Mwmon_mmap_spin_while_greater

datatype kernel_version = KERNEL_2_6_13_1 | KERNEL_2_6_24_2

fun NR :: "kernel_version \<Rightarrow> sysname \<Rightarrow> u64 option" where
  "NR KERNEL_2_6_13_1 Cpu_halt = Some 256"
| "NR KERNEL_2_6_13_1 Mwmon_kernel_init = Some 257"
| "NR KERNEL_2_6_13_1 Mwmon_kernel_sleep = Some 258"
| "NR KERNEL_2_6_13_1 Mwmon_kernel_notify = Some 259"
| "NR KERNEL_2_6_13_1 Mwmon_kernel_finalize = Some 260"
| "NR KERNEL_2_6_13_1 Mwmon_user_sleep = Some 261"
| "NR KERNEL_2_6_13_1 Mwmon_mmap_sleep = Some 262"
| "NR KERNEL_2_6_13_1 Mwmon_mmap_spin_while_greater = Some 263"
| "NR KERNEL_2_6_24_2 Cpu_halt = Some 286"
| "NR KERNEL_2_6_24_2 Mwmon_mmap_sleep = Some 287"
| "NR KERNEL_2_6_24_2 Mwmon_mmap_sleep2 = Some 288"
| "NR _ _ = None"

text \<open>The stubs without an argument, and those with one.\<close>

fun stubs0 :: "kernel_version \<Rightarrow> sysname list" where
  "stubs0 KERNEL_2_6_24_2 = [Cpu_halt, Mwmon_mmap_sleep, Mwmon_mmap_sleep2]"
| "stubs0 KERNEL_2_6_13_1 = [Cpu_halt, Mwmon_mmap_sleep, Mwmon_kernel_init, Mwmon_kernel_sleep,
     Mwmon_kernel_notify, Mwmon_kernel_finalize]"

fun stubs1 :: "kernel_version \<Rightarrow> sysname list" where
  "stubs1 KERNEL_2_6_24_2 = []"
| "stubs1 KERNEL_2_6_13_1 = [Mwmon_user_sleep, Mwmon_mmap_spin_while_greater]"

text \<open>A call of a stub, normal or fast: \<open>None\<close> where no such stub is compiled.\<close>

definition call_stub ::
  "kernel_version \<Rightarrow> ((reg \<Rightarrow> u64) \<Rightarrow> u64) \<Rightarrow> (reg \<Rightarrow> u64) \<Rightarrow> sysname \<Rightarrow> u64 \<Rightarrow> u64 acore \<Rightarrow> u64 acore option" where
  "call_stub ver kern junk name a c = (case NR ver name of
     None \<Rightarrow> None
   | Some nr \<Rightarrow>
       if name \<in> set (stubs0 ver) then Some (syscall0_64 kern junk nr c)
       else if name \<in> set (stubs1 ver) then Some (syscall1_64 kern junk nr a c)
       else None)"

definition call_fast_stub ::
  "kernel_version \<Rightarrow> ((reg \<Rightarrow> u64) \<Rightarrow> u64) \<Rightarrow> (reg \<Rightarrow> u64) \<Rightarrow> sysname \<Rightarrow> u64 \<Rightarrow> u64 acore \<Rightarrow> (u64 acore \<times> u64) option" where
  "call_fast_stub ver kern junk name a c = (case NR ver name of
     None \<Rightarrow> None
   | Some nr \<Rightarrow>
       if name \<in> set (stubs0 ver) then Some (fast_syscall0_64 kern junk nr c)
       else if name \<in> set (stubs1 ver) then Some (fast_syscall1_64 kern junk nr a c)
       else None)"

text \<open>The same stubs compiled for 32 bits: the numbers do not depend on \<open>CPU_BITS\<close>.\<close>

definition call_stub32 ::
  "kernel_version \<Rightarrow> ((reg \<Rightarrow> u32) \<Rightarrow> u32) \<Rightarrow> sysname \<Rightarrow> u32 \<Rightarrow> u32 acore \<Rightarrow> u32 acore option" where
  "call_stub32 ver kern name a c = (case NR ver name of
     None \<Rightarrow> None
   | Some nr \<Rightarrow>
       if name \<in> set (stubs0 ver) then Some (syscall0_32 kern (ucast nr) c)
       else if name \<in> set (stubs1 ver) then Some (syscall1_32 kern (ucast nr) a c)
       else None)"

section \<open>The kernel's side\<close>

datatype patch = One_package_2_6_13_1 | Two_packages_2_6_13_1 | Two_packages_2_6_24_2

text \<open>The calls a patch adds to \<open>include/asm-x86_64/unistd.h\<close> (\<open>asm-x86/unistd_64.h\<close>), from a number up.\<close>

fun added_calls :: "patch \<Rightarrow> nat \<times> sysname list" where
  "added_calls One_package_2_6_13_1 = (256, [Cpu_halt, Mwmon_kernel_init, Mwmon_kernel_sleep,
     Mwmon_kernel_notify, Mwmon_kernel_finalize, Mwmon_user_sleep, Mwmon_mmap_sleep,
     Mwmon_mmap_spin_while_greater])"
| "added_calls Two_packages_2_6_13_1 = (256, [Cpu_halt, Mwmon_kernel_init, Mwmon_kernel_sleep,
     Mwmon_kernel_notify, Mwmon_kernel_finalize, Mwmon_user_sleep, Mwmon_mmap_sleep,
     Mwmon_mmap_sleep2, Mwmon_mmap_spin_while_greater])"
| "added_calls Two_packages_2_6_24_2 = (286, [Cpu_halt, Mwmon_mmap_sleep, Mwmon_mmap_sleep2])"

text \<open>
  The calls a patch adds for 32-bit programs, in \<open>asm-i386/unistd.h\<close> and \<open>asm-x86_64/ia32_unistd.h\<close>; the patch of
  2.6.24.2 adds none.
\<close>

fun added_calls32 :: "patch \<Rightarrow> nat \<times> sysname list" where
  "added_calls32 One_package_2_6_13_1 = (294, snd (added_calls One_package_2_6_13_1))"
| "added_calls32 Two_packages_2_6_13_1 = (294, snd (added_calls Two_packages_2_6_13_1))"
| "added_calls32 Two_packages_2_6_24_2 = (0, [])"

definition entry_of :: "nat \<times> sysname list \<Rightarrow> nat \<Rightarrow> sysname option" where
  "entry_of tab nr = (let (base, calls) = tab; k = nr - base in
     if base \<le> nr \<and> k < length calls then Some (calls ! k) else None)"

definition dispatch32 :: "patch \<Rightarrow> u32 \<Rightarrow> sysname option" where
  "dispatch32 p nr = entry_of (added_calls32 p) (unat nr)"

definition dispatch :: "patch \<Rightarrow> u64 \<Rightarrow> sysname option" where
  "dispatch p nr = entry_of (added_calls p) (unat nr)"

lemmas dispatch_defs = dispatch_def dispatch32_def entry_of_def

section \<open>Properties\<close>

text \<open>
  C33.  The stubs and the fast stubs compiled for 64 bits and for a kernel version reach the system call of their
  own name, on the one-package patch of 2.6.13.1 and on the patch of 2.6.24.2.  On the two-package
  patch of 2.6.13.1 all do except \<open>mwmon_mmap_spin_while_greater\<close>, which puts its caller to sleep
  in \<open>mwmon_mmap_sleep2\<close>, and no stub reaches the real call.  Compiled for 32 bits, where the kernels number
  the calls differently, no stub reaches any added call on any of the kernels.
\<close>

definition reached :: "patch \<Rightarrow> kernel_version \<Rightarrow> (reg \<Rightarrow> u64) \<Rightarrow> sysname \<Rightarrow> u64 \<Rightarrow> u64 acore \<Rightarrow> sysname option list" where
  "reached p ver junk name a c =
     map (\<lambda>c'. dispatch p (last (traps c') AX))
       [the (call_stub ver (\<lambda>_. 0) junk name a c), fst (the (call_fast_stub ver (\<lambda>_. 0) junk name a c))]"

definition reached32 :: "patch \<Rightarrow> kernel_version \<Rightarrow> sysname \<Rightarrow> u32 \<Rightarrow> u32 acore \<Rightarrow> sysname option" where
  "reached32 p ver name a c = dispatch32 p (last (traps (the (call_stub32 ver (\<lambda>_. 0) name a c))) AX)"

theorem stubs_reach_their_calls:
  "(\<forall>name \<in> set (stubs0 KERNEL_2_6_13_1 @ stubs1 KERNEL_2_6_13_1).
      reached One_package_2_6_13_1 KERNEL_2_6_13_1 junk name a c = [Some name, Some name]
      \<and> reached Two_packages_2_6_13_1 KERNEL_2_6_13_1 junk name a c =
          (if name = Mwmon_mmap_spin_while_greater then [Some Mwmon_mmap_sleep2, Some Mwmon_mmap_sleep2]
           else [Some name, Some name]))
   \<and> (\<forall>name \<in> set (stubs0 KERNEL_2_6_24_2).
        reached Two_packages_2_6_24_2 KERNEL_2_6_24_2 junk name a c = [Some name, Some name])
   \<and> (\<forall>ver. \<forall>name \<in> set (stubs0 ver @ stubs1 ver). reached32 p ver name a' d = None)"
  (is "?a \<and> ?b \<and> ?c")
proof (intro conjI)
  show ?a and ?b
    by (simp_all add: reached_def call_stub_def call_fast_stub_def dispatch_defs syscall0_64_def syscall1_64_def
        fast_syscall0_64_def fast_syscall1_64_def load_def Let_def)
  have "reached32 p ver name a' d = None" if "name \<in> set (stubs0 ver @ stubs1 ver)" for ver name
    using that by (cases ver; cases p)
      (auto simp: reached32_def call_stub32_def dispatch_defs syscall0_32_def syscall1_32_def via_ebx_def load_def Let_def)
  then show ?c by blast
qed

lemma stubs_reach_their_calls_witness:
  "reached Two_packages_2_6_13_1 KERNEL_2_6_13_1 (\<lambda>_. 0) Mwmon_mmap_spin_while_greater 5
     \<lparr>regs = (\<lambda>_. 0), stack = [], traps = []\<rparr> = [Some Mwmon_mmap_sleep2, Some Mwmon_mmap_sleep2]"
  using stubs_reach_their_calls [of "\<lambda>_. 0" 5 "\<lparr>regs = (\<lambda>_. 0), stack = [], traps = []\<rparr>"] by simp

text \<open>
  C34.  Every system call that the four loops with the hard-coded number 256 make, two of \<open>synch.h\<close> and two of
  \<open>spin.h\<close>, is \<open>cpu_halt\<close> on the kernels 2.6.13.1, and none of the calls the patch adds on the kernel 2.6.24.2, where
  the program's own number for \<open>cpu_halt\<close> is another one.
\<close>

theorem cpuhalt_loops_kernel:
  assumes "prog \<in> {spin_on_condition_cpuhalt, spin_on_condition_ineq_cpuhalt, SPIN_ON_CONDITION_INEQ_CPUHALT,
      SPIN_ON_CONDITION_INEQ_CPUHALT_CNT}"
    and "nr \<in> set (syscalls (obs_run kret prog (v :: 'w::len word) core_entry ms))"
  shows "dispatch One_package_2_6_13_1 nr = Some Cpu_halt \<and> dispatch Two_packages_2_6_13_1 nr = Some Cpu_halt
    \<and> dispatch Two_packages_2_6_24_2 nr = None \<and> NR KERNEL_2_6_24_2 Cpu_halt \<noteq> Some nr"
proof -
  have "\<exists>counts. halt_log 256 counts (obs_run kret prog v core_entry ms)"
    using assms(1) halt_log_run [of prog CE False 256 CNE core_entry kret v ms]
      halt_log_run [of prog CGE False 256 CLE core_entry kret v ms]
      halt_log_run [of prog CGE True 256 CLE core_entry kret v ms]
    by (elim insertE emptyE) (auto simp: loop_shapes halt_log_entry)
  then have "set (syscalls (obs_run kret prog v core_entry ms)) \<subseteq> {256}"
    by (auto simp: halt_log_def)
  then have "nr = 256" using assms(2) by blast
  then show ?thesis by (simp add: dispatch_defs)
qed

lemma cpuhalt_loops_kernel_witness:
  "syscalls (obs_run (\<lambda>_. 0) spin_on_condition_cpuhalt (1 :: u32) core_entry (replicate 5 0)) = [256]
   \<and> dispatch Two_packages_2_6_24_2 256 = None"
proof -
  have c: "syscalls (obs_run (\<lambda>_. 0) spin_on_condition_cpuhalt (1 :: u32) core_entry (replicate 5 0)) = [256]"
    by (simp add: numeral_eq_Suc spin_on_condition_cpuhalt_def x86_step_def core_entry_def next_pc_def
        set_flags_def Let_def)
  then show ?thesis
    using cpuhalt_loops_kernel [of spin_on_condition_cpuhalt 256 "\<lambda>_. 0" "1 :: u32" "replicate 5 0"] by simp
qed

end
