(* ===== verification/Cpu_Topology.thy ===== *)
theory Cpu_Topology
  imports Ht_Prelude
begin

text \<open>
  \<open>cpu.c\<close> and \<open>cpu.h\<close>: the processor configurations, the search for the package of a processor,
  and the processor masks that pin threads.  The directory \<open>mwait_barrier\<close> has a version of its
  own, with package numbers and with error handling around the affinity calls; the other three
  directories share one version.
\<close>

unbundle bit_operations_syntax

section \<open>Data\<close>

definition MAX_PACKAGES :: nat where "MAX_PACKAGES = 2"
definition MAX_SIBLINGS :: nat where "MAX_SIBLINGS = 2"

record sibling_t =
  cpu_number :: u32

record package_t =
  sib :: "sibling_t list"
  nsiblings :: nat

text \<open>The package of \<open>mwait_barrier/cpu.h\<close>; \<open>memnode_number\<close> exists only when \<open>NUMA\<close> is defined.\<close>

record mb_package_t = package_t +
  pkg_id :: u32
  memnode_number :: "u32 option"

record 'p cpus_t =
  pk :: "'p list"
  npackages :: nat

datatype cpu_config = CPU_XEON | CPU_CORE | CPU_CORE_SINGLE | CPU_AMD | CPU_P6

text \<open>Array elements without an initialiser are zero, as C has it for static objects.\<close>

definition siblings :: "u32 list \<Rightarrow> sibling_t list" where
  "siblings ns = map (\<lambda>n. \<lparr>cpu_number = n\<rparr>) (ns @ replicate (MAX_SIBLINGS - length ns) 0)"

definition package :: "u32 list \<Rightarrow> package_t" where
  "package ns = \<lparr>sib = siblings ns, nsiblings = length ns\<rparr>"

definition mb_package :: "u32 \<Rightarrow> u32 option \<Rightarrow> u32 list \<Rightarrow> mb_package_t" where
  "mb_package i node ns = \<lparr>sib = siblings ns, nsiblings = length ns, pkg_id = i, memnode_number = node\<rparr>"

fun cpus :: "cpu_config \<Rightarrow> package_t cpus_t" where
  "cpus CPU_XEON = \<lparr>pk = [package [0, 2], package [1, 3]], npackages = 2\<rparr>"
| "cpus CPU_CORE = \<lparr>pk = [package [0, 1], package [2, 3]], npackages = 2\<rparr>"
| "cpus CPU_CORE_SINGLE = \<lparr>pk = [package [0, 1], package []], npackages = 1\<rparr>"
| "cpus CPU_AMD = \<lparr>pk = [package [0, 1], package [2, 3]], npackages = 2\<rparr>"
| "cpus CPU_P6 = \<lparr>pk = [package [0], package [1]], npackages = 2\<rparr>"

text \<open>
  The tables of \<open>mwait_barrier/cpu.c\<close>.  On the AMD machine both packages are written with the
  fields \<open>memnode_number\<close> and \<open>id\<close>.
\<close>

fun mb_cpus :: "bool \<Rightarrow> cpu_config \<Rightarrow> mb_package_t cpus_t" where
  "mb_cpus numa CPU_XEON =
     (let z = (if numa then Some 0 else None) in
      \<lparr>pk = [mb_package 0 z [0, 2], mb_package 1 z [1, 3]], npackages = 2\<rparr>)"
| "mb_cpus numa CPU_CORE =
     (let z = (if numa then Some 0 else None) in
      \<lparr>pk = [mb_package 0 z [0, 1], mb_package 1 z [2, 3]], npackages = 2\<rparr>)"
| "mb_cpus numa CPU_CORE_SINGLE =
     (let z = (if numa then Some 0 else None) in
      \<lparr>pk = [mb_package 0 z [0, 1], mb_package 0 z []], npackages = 1\<rparr>)"
| "mb_cpus numa CPU_AMD =
     \<lparr>pk = [mb_package 0 (if numa then Some 0 else None) [0, 1],
            mb_package 1 (if numa then Some 1 else None) [2, 3]], npackages = 2\<rparr>"
| "mb_cpus numa CPU_P6 =
     (let z = (if numa then Some 0 else None) in
      \<lparr>pk = [mb_package 0 z [0], mb_package 1 z [1]], npackages = 2\<rparr>)"

fun NUM_CPUS :: "cpu_config \<Rightarrow> nat" where
  "NUM_CPUS CPU_AMD = 4"
| "NUM_CPUS CPU_XEON = 4"
| "NUM_CPUS CPU_CORE = 4"
| "NUM_CPUS CPU_CORE_SINGLE = 2"
| "NUM_CPUS CPU_P6 = 2"

section \<open>The package of a processor\<close>

text \<open>The two loops of \<open>get_pkid\<close>, from given indices on.\<close>

function pkid_siblings :: "u32 \<Rightarrow> 'p package_t_scheme \<Rightarrow> nat \<Rightarrow> bool" where
  "pkid_siblings n p j =
     (if j < nsiblings p then (if n = cpu_number (sib p ! j) then True else pkid_siblings n p (Suc j)) else False)"
  by pat_completeness auto
termination by (relation "measure (\<lambda>(n, p, j). nsiblings p - j)") auto

function pkid_packages :: "u32 \<Rightarrow> mb_package_t cpus_t \<Rightarrow> nat \<Rightarrow> u32" where
  "pkid_packages n c i =
     (if i < npackages c
      then (if pkid_siblings n (pk c ! i) 0 then pkg_id (pk c ! i) else pkid_packages n c (Suc i))
      else - 1)"
  by pat_completeness auto
termination by (relation "measure (\<lambda>(n, c, i). npackages c - i)") auto

declare pkid_siblings.simps [simp del] pkid_packages.simps [simp del]

definition get_pkid :: "u32 \<Rightarrow> mb_package_t cpus_t \<Rightarrow> u32" where
  "get_pkid n c = pkid_packages n c 0"

lemma pkid_siblings_iff:
  "pkid_siblings n p j \<longleftrightarrow> (\<exists>k. j \<le> k \<and> k < nsiblings p \<and> cpu_number (sib p ! k) = n)"
proof (induction n p j rule: pkid_siblings.induct)
  case (1 n p j)
  show ?case
  proof (cases "j < nsiblings p \<and> n \<noteq> cpu_number (sib p ! j)")
    case True
    then have "pkid_siblings n p j = pkid_siblings n p (Suc j)"
      by (subst pkid_siblings.simps) simp
    also have "\<dots> \<longleftrightarrow> (\<exists>k. Suc j \<le> k \<and> k < nsiblings p \<and> cpu_number (sib p ! k) = n)"
      using "1.IH" True by blast
    also have "\<dots> \<longleftrightarrow> (\<exists>k. j \<le> k \<and> k < nsiblings p \<and> cpu_number (sib p ! k) = n)"
      using True by (metis Suc_leD not_less_eq_eq order_antisym)
    finally show ?thesis .
  next
    case False
    then show ?thesis
      by (subst pkid_siblings.simps) (auto simp: not_less)
  qed
qed

lemma pkid_packages_found:
  assumes "i \<le> k" and "k < npackages c" and "pkid_siblings n (pk c ! k) 0"
    and "\<And>m. m < npackages c \<Longrightarrow> pkid_siblings n (pk c ! m) 0 \<Longrightarrow> m = k"
  shows "pkid_packages n c i = pkg_id (pk c ! k)"
  using assms
proof (induction n c i rule: pkid_packages.induct)
  case (1 n c i)
  show ?case
  proof (cases "i = k")
    case True
    then show ?thesis using 1(3,4) by (subst pkid_packages.simps) simp
  next
    case False
    then have i: "Suc i \<le> k" "i < npackages c" using "1.prems"(1,2) by simp_all
    have no: "\<not> pkid_siblings n (pk c ! i) 0" using "1.prems"(4) [OF i(2)] False by blast
    then have "pkid_packages n c i = pkid_packages n c (Suc i)"
      using i by (subst pkid_packages.simps) simp
    also have "\<dots> = pkg_id (pk c ! k)"
      by (rule "1.IH" [OF i(2) no i(1) "1.prems"(2,3)]) (fact "1.prems"(4))
    finally show ?thesis .
  qed
qed

lemma pkid_packages_none:
  assumes "\<And>m. m < npackages c \<Longrightarrow> \<not> pkid_siblings n (pk c ! m) 0"
  shows "pkid_packages n c i = - 1"
  using assms
proof (induction n c i rule: pkid_packages.induct)
  case (1 n c i)
  show ?case
  proof (cases "i < npackages c")
    case True
    then have "pkid_packages n c i = pkid_packages n c (Suc i)"
      using "1.prems" by (subst pkid_packages.simps) simp
    also have "\<dots> = - 1"
      by (rule "1.IH" [OF True "1.prems" [OF True]]) (fact "1.prems")
    finally show ?thesis .
  qed (subst pkid_packages.simps, simp)
qed

text \<open>
  The processors a table lists, package by package, and a table without holes: the counts fit the
  arrays and no processor is listed twice.
\<close>

definition listed :: "'p package_t_scheme cpus_t \<Rightarrow> u32 list" where
  "listed c = concat (map (\<lambda>p. map cpu_number (take (nsiblings p) (sib p))) (take (npackages c) (pk c)))"

definition table_ok :: "'p package_t_scheme cpus_t \<Rightarrow> bool" where
  "table_ok c \<longleftrightarrow> npackages c \<le> length (pk c) \<and> length (pk c) \<le> MAX_PACKAGES
     \<and> list_all (\<lambda>p. nsiblings p \<le> length (sib p) \<and> length (sib p) \<le> MAX_SIBLINGS) (pk c)
     \<and> distinct (listed c)"

lemma pkid_siblings_set:
  assumes "nsiblings p \<le> length (sib p)"
  shows "pkid_siblings n p 0 \<longleftrightarrow> n \<in> set (map cpu_number (take (nsiblings p) (sib p)))"
  using assms by (auto simp: pkid_siblings_iff nth_image [symmetric])

lemma distinct_concat_index:
  assumes "distinct (concat xs)" and "i < length xs" and "j < length xs"
    and "x \<in> set (xs ! i)" and "x \<in> set (xs ! j)"
  shows "i = j"
  using assms
proof (induction xs arbitrary: i j)
  case (Cons a xs)
  have apart: "x \<notin> set a" if "x \<in> set (xs ! m)" "m < length xs" for m
  proof -
    have "xs ! m \<in> set xs" using that(2) by simp
    then have "x \<in> \<Union> (set ` set xs)" using that(1) by blast
    then show ?thesis using Cons.prems(1) by auto
  qed
  show ?case
    using Cons.prems apart Cons.IH by (cases i; cases j) (simp_all, blast+)
qed simp

lemma table_ok_siblings:
  "table_ok c \<Longrightarrow> i < npackages c \<Longrightarrow> nsiblings (pk c ! i) \<le> length (sib (pk c ! i))"
  by (auto simp: table_ok_def list_all_length)

lemma listed_iff:
  assumes "table_ok c"
  shows "n \<in> set (listed c) \<longleftrightarrow> (\<exists>i<npackages c. pkid_siblings n (pk c ! i) 0)"
proof -
  have len: "npackages c \<le> length (pk c)" using assms by (simp add: table_ok_def)
  have "n \<in> set (listed c) \<longleftrightarrow>
      (\<exists>p\<in>set (take (npackages c) (pk c)). n \<in> set (map cpu_number (take (nsiblings p) (sib p))))"
    by (auto simp: listed_def)
  also have "\<dots> \<longleftrightarrow> (\<exists>i<npackages c. pkid_siblings n (pk c ! i) 0)"
    using len table_ok_siblings [OF assms]
    by (simp add: in_set_conv_nth [of _ "take (npackages c) (pk c)"] Bex_def pkid_siblings_set)
      (metis (no_types, lifting) nth_take pkid_siblings_set set_map)
  finally show ?thesis .
qed

lemma listed_unique:
  assumes "table_ok c" and "i < npackages c" and "k < npackages c"
    and "pkid_siblings n (pk c ! i) 0" and "pkid_siblings n (pk c ! k) 0"
  shows "i = k"
proof -
  let ?xs = "map (\<lambda>p. map cpu_number (take (nsiblings p) (sib p))) (take (npackages c) (pk c))"
  have len: "length ?xs = npackages c" using assms(1) by (simp add: table_ok_def)
  have nth: "m < npackages c \<Longrightarrow> pkid_siblings n (pk c ! m) 0 \<Longrightarrow> n \<in> set (?xs ! m)" for m
    using len table_ok_siblings [OF assms(1), of m] by (simp add: pkid_siblings_set)
  show ?thesis
    by (rule distinct_concat_index [of ?xs])
      (use assms len nth in \<open>simp_all only: table_ok_def listed_def\<close>)
qed

lemma get_pkid_found:
  assumes "table_ok c" and i: "i < npackages c" and found: "pkid_siblings n (pk c ! i) 0"
  shows "get_pkid n c = pkg_id (pk c ! i)"
  unfolding get_pkid_def
  by (rule pkid_packages_found [OF _ i found]) (use listed_unique [OF assms(1) _ i _ found] in auto)

lemma get_pkid_listed:
  assumes "table_ok c"
  shows "\<forall>i<npackages c. \<forall>j<nsiblings (pk c ! i).
    get_pkid (cpu_number (sib (pk c ! i) ! j)) c = pkg_id (pk c ! i)"
proof (intro allI impI)
  fix i j assume ij: "i < npackages c" "j < nsiblings (pk c ! i)"
  have "pkid_siblings (cpu_number (sib (pk c ! i) ! j)) (pk c ! i) 0"
    using ij(2) by (auto simp: pkid_siblings_iff)
  then show "get_pkid (cpu_number (sib (pk c ! i) ! j)) c = pkg_id (pk c ! i)"
    by (rule get_pkid_found [OF assms ij(1)])
qed

lemma get_pkid_unlisted:
  assumes "table_ok c"
  shows "\<forall>n. n \<notin> set (listed c) \<longrightarrow> get_pkid n c = - 1"
  unfolding get_pkid_def by (intro allI impI pkid_packages_none) (auto simp: listed_iff [OF assms])

lemma get_pkid_minus_one:
  assumes "table_ok c"
  shows "(\<forall>i<npackages c. pkg_id (pk c ! i) \<noteq> - 1) \<longrightarrow> (\<forall>n. get_pkid n c = - 1 \<longleftrightarrow> n \<notin> set (listed c))"
  using get_pkid_unlisted [OF assms] get_pkid_found [OF assms] listed_iff [OF assms] by metis

text \<open>Every configuration of the program is such a table, and lists the processors 0 to \<open>NUM_CPUS\<close> - 1.\<close>

lemmas table_defs = Let_def package_def mb_package_def siblings_def MAX_PACKAGES_def MAX_SIBLINGS_def

lemma mb_table_ok: "table_ok (mb_cpus numa m)"
  by (cases m) (simp_all add: table_ok_def listed_def table_defs)

lemma mb_pkg_ids: "\<forall>i<npackages (mb_cpus numa m). pkg_id (pk (mb_cpus numa m) ! i) \<noteq> - 1"
  by (cases m) (auto simp: table_defs less_Suc_eq numeral_2_eq_2)

lemma table_ok_cpus: "table_ok (cpus m)"
  by (cases m) (simp_all add: table_ok_def listed_def table_defs)

lemma listed_cpus: "set (listed (cpus m)) = word_of_nat ` {0..<NUM_CPUS m}"
  by (cases m) (auto simp: listed_def table_defs atLeastLessThan_nat_numeral numeral_2_eq_2 numeral_eq_Suc
      atLeastLessThanSuc)

text \<open>
  C35: on a well-formed table \<open>get_pkid\<close> returns the number of the package a processor is listed in, and -1 for every
  processor the table does not list; when no package has the number -1, it returns -1 for those only.  The tables of
  the program are well-formed and have the numbers 0 and 1, so on them -1 means exactly that the processor is not listed.
\<close>

theorem get_pkid_correct:
  assumes "table_ok c"
  shows "(\<forall>i<npackages c. \<forall>j<nsiblings (pk c ! i).
            get_pkid (cpu_number (sib (pk c ! i) ! j)) c = pkg_id (pk c ! i))
       \<and> (\<forall>n. n \<notin> set (listed c) \<longrightarrow> get_pkid n c = - 1)
       \<and> ((\<forall>i<npackages c. pkg_id (pk c ! i) \<noteq> - 1) \<longrightarrow> (\<forall>n. get_pkid n c = - 1 \<longleftrightarrow> n \<notin> set (listed c)))
       \<and> table_ok (mb_cpus numa m) \<and> (\<forall>n. get_pkid n (mb_cpus numa m) = - 1 \<longleftrightarrow> n \<notin> set (listed (mb_cpus numa m)))"
  using get_pkid_listed [OF assms] get_pkid_unlisted [OF assms] get_pkid_minus_one [OF assms]
    get_pkid_minus_one [OF mb_table_ok [of numa m]] mb_pkg_ids [of numa m] mb_table_ok [of numa m] by blast

theorem get_pkid_correct_witness:
  "get_pkid 3 (mb_cpus True CPU_AMD) = 1 \<and> get_pkid 4 (mb_cpus True CPU_AMD) = - 1"
proof
  note correct = get_pkid_correct [OF mb_table_ok [of True CPU_AMD]]
  show "get_pkid 3 (mb_cpus True CPU_AMD) = 1"
    using correct [THEN conjunct1, rule_format, of 1 1] by (simp add: table_defs)
  show "get_pkid 4 (mb_cpus True CPU_AMD) = - 1"
    using correct [THEN conjunct2, THEN conjunct1, rule_format, of 4] by (simp add: table_defs listed_def)
qed

section \<open>Processor masks\<close>

definition MY_CPU_SETSIZE :: nat where "MY_CPU_SETSIZE = 8 * 8"

definition MY_CPU_ZERO :: "u64 \<Rightarrow> u64" where
  "MY_CPU_ZERO cpuset = 0"

text \<open>
  \<open>1 << cpu_no\<close> is a shift of an \<open>int\<close>, whose result is sign-extended to the mask; it is undefined
  for a count outside 0 to 31 (\<open>None\<close>).
\<close>

definition MY_CPU_SET :: "int \<Rightarrow> u64 \<Rightarrow> u64 option" where
  "MY_CPU_SET cpu_no cpuset =
     (if 0 \<le> cpu_no \<and> cpu_no < 32 then Some (cpuset OR scast (push_bit (nat cpu_no) (1 :: u32))) else None)"

text \<open>Here the shift has 64 bits, and the result is cut to an \<open>int\<close>.\<close>

definition MY_CPU_ISSET :: "int \<Rightarrow> u64 \<Rightarrow> u32 option" where
  "MY_CPU_ISSET cpu_no cpuset =
     (if 0 \<le> cpu_no \<and> cpu_no < 64 then Some (ucast (push_bit (nat cpu_no) (1 :: u64) AND cpuset)) else None)"

lemma MY_CPU_SET_bit:
  assumes "0 \<le> cpu_no" and "cpu_no < 31"
  obtains t where "MY_CPU_SET cpu_no s = Some t"
    and "\<And>n. n < 64 \<Longrightarrow> bit t n \<longleftrightarrow> bit s n \<or> n = nat cpu_no"
proof
  show "MY_CPU_SET cpu_no s = Some (s OR scast (push_bit (nat cpu_no) (1 :: u32)))"
    using assms by (simp add: MY_CPU_SET_def)
  fix n :: nat assume "n < 64"
  then show "bit (s OR scast (push_bit (nat cpu_no) (1 :: u32)) :: u64) n \<longleftrightarrow> bit s n \<or> n = nat cpu_no"
    using assms by (auto simp: bit_simps bit_signed_iff min_def)
qed

lemma MY_CPU_ISSET_bit:
  assumes "0 \<le> cpu_no" and "cpu_no < 32"
  obtains r where "MY_CPU_ISSET cpu_no s = Some r" and "r \<noteq> 0 \<longleftrightarrow> bit s (nat cpu_no)"
proof
  let ?r = "ucast (push_bit (nat cpu_no) (1 :: u64) AND s) :: u32"
  show "MY_CPU_ISSET cpu_no s = Some ?r" using assms by (simp add: MY_CPU_ISSET_def)
  have r: "bit ?r n \<longleftrightarrow> n = nat cpu_no \<and> bit s n" for n
    using assms by (auto simp: bit_simps)
  show "?r \<noteq> 0 \<longleftrightarrow> bit s (nat cpu_no)"
    unfolding bit_eq_iff [of ?r] using assms by (subst r) auto
qed

text \<open>
  Putting a processor below 31 into a mask makes \<open>MY_CPU_ISSET\<close> report it, and
  leaves what \<open>MY_CPU_ISSET\<close> reports of every other processor below 32 as it was.
\<close>

lemma cpu_mask_set_isset:
  assumes "0 \<le> cpu_no" and "cpu_no < 31"
  shows "\<exists>t. MY_CPU_SET cpu_no s = Some t
     \<and> (\<exists>r. MY_CPU_ISSET cpu_no t = Some r \<and> r \<noteq> 0)
     \<and> (\<forall>other r. 0 \<le> other \<and> other < 32 \<and> other \<noteq> cpu_no \<and> MY_CPU_ISSET other s = Some r
          \<longrightarrow> (\<exists>r'. MY_CPU_ISSET other t = Some r' \<and> (r' \<noteq> 0 \<longleftrightarrow> r \<noteq> 0)))"
proof -
  obtain t where t: "MY_CPU_SET cpu_no s = Some t"
    "\<And>n. n < 64 \<Longrightarrow> bit t n \<longleftrightarrow> bit s n \<or> n = nat cpu_no"
    using MY_CPU_SET_bit [OF assms] by blast
  have own: "\<exists>r. MY_CPU_ISSET cpu_no t = Some r \<and> r \<noteq> 0"
  proof -
    obtain r where "MY_CPU_ISSET cpu_no t = Some r" "r \<noteq> 0 \<longleftrightarrow> bit t (nat cpu_no)"
      using MY_CPU_ISSET_bit [of cpu_no t] assms by auto
    then show ?thesis using t(2) [of "nat cpu_no"] assms by auto
  qed
  have same: "\<exists>r'. MY_CPU_ISSET other t = Some r' \<and> (r' \<noteq> 0 \<longleftrightarrow> r \<noteq> 0)"
    if o: "0 \<le> other" "other < 32" "other \<noteq> cpu_no" and r: "MY_CPU_ISSET other s = Some r" for other r
  proof -
    obtain r' where r': "MY_CPU_ISSET other t = Some r'" "r' \<noteq> 0 \<longleftrightarrow> bit t (nat other)"
      using MY_CPU_ISSET_bit [OF o(1,2)] by blast
    obtain r2 where "MY_CPU_ISSET other s = Some r2" "r2 \<noteq> 0 \<longleftrightarrow> bit s (nat other)"
      using MY_CPU_ISSET_bit [OF o(1,2)] by blast
    then have "r \<noteq> 0 \<longleftrightarrow> bit s (nat other)" using r by simp
    moreover have "bit t (nat other) \<longleftrightarrow> bit s (nat other)"
      using t(2) [of "nat other"] o assms by auto
    ultimately show ?thesis using r' by blast
  qed
  show ?thesis using t(1) own same by blast
qed

text \<open>
  The limits of the two functions.  The mask has 64 bits, but processor 31 sets bits 31 to 63
  because \<open>1 << 31\<close> is a negative \<open>int\<close>, setting a processor from 32 on is undefined, and
  \<open>MY_CPU_ISSET\<close>, cut to an \<open>int\<close>, returns 0 for every processor from 32 on, whatever the mask.
\<close>

lemma cpu_mask_far:
  assumes "32 \<le> cpu_no" and "cpu_no < int MY_CPU_SETSIZE"
  shows "MY_CPU_SET 31 (MY_CPU_ZERO s) = Some (mask 64 - mask 31)
     \<and> MY_CPU_SET cpu_no s = None \<and> MY_CPU_ISSET cpu_no s = Some 0"
proof (intro conjI)
  show "MY_CPU_SET 31 (MY_CPU_ZERO s) = Some (mask 64 - mask 31)"
    by (simp add: MY_CPU_SET_def MY_CPU_ZERO_def mask_eq_exp_minus_1)
  show "MY_CPU_SET cpu_no s = None" using assms by (simp add: MY_CPU_SET_def)
  have "ucast (push_bit (nat cpu_no) (1 :: u64) AND s) = (0 :: u32)"
    using assms by (intro bit_word_eqI) (auto simp: bit_simps)
  then show "MY_CPU_ISSET cpu_no s = Some 0"
    using assms by (simp add: MY_CPU_ISSET_def MY_CPU_SETSIZE_def)
qed

text \<open>
  C36: putting a processor below 31 into a mask makes \<open>MY_CPU_ISSET\<close> report it and leaves what
  \<open>MY_CPU_ISSET\<close> reports of every other processor below 32 as it was.  Beyond that the two functions fail: the mask
  has 64 bits, but processor 31 sets bits 31 to 63 because \<open>1 << 31\<close> is a negative \<open>int\<close>, setting a processor from 32
  on is undefined, and \<open>MY_CPU_ISSET\<close>, cut to an \<open>int\<close>, returns 0 for every processor from 32 on, whatever the mask.
\<close>

theorem cpu_mask_roundtrip:
  assumes "0 \<le> cpu_no" and "cpu_no < 31" and "32 \<le> far" and "far < int MY_CPU_SETSIZE"
  shows "(\<exists>t. MY_CPU_SET cpu_no s = Some t
        \<and> (\<exists>r. MY_CPU_ISSET cpu_no t = Some r \<and> r \<noteq> 0)
        \<and> (\<forall>other r. 0 \<le> other \<and> other < 32 \<and> other \<noteq> cpu_no \<and> MY_CPU_ISSET other s = Some r
             \<longrightarrow> (\<exists>r'. MY_CPU_ISSET other t = Some r' \<and> (r' \<noteq> 0 \<longleftrightarrow> r \<noteq> 0))))
     \<and> MY_CPU_SET 31 (MY_CPU_ZERO s) = Some (mask 64 - mask 31)
     \<and> MY_CPU_SET far s = None \<and> MY_CPU_ISSET far s = Some 0"
  using cpu_mask_set_isset [OF assms(1,2)] cpu_mask_far [OF assms(3,4)] by blast

theorem cpu_mask_roundtrip_witness:
  "(\<exists>t. MY_CPU_SET 3 (MY_CPU_ZERO 77) = Some t \<and> (\<exists>r. MY_CPU_ISSET 3 t = Some r \<and> r \<noteq> 0))
   \<and> MY_CPU_ISSET 40 (MY_CPU_ZERO 77) = Some 0 \<and> MY_CPU_SET 40 (MY_CPU_ZERO 77) = None"
  using cpu_mask_roundtrip [of 3 40 "MY_CPU_ZERO 77"] by (auto simp: MY_CPU_SETSIZE_def)

section \<open>Affinity\<close>

text \<open>
  The system calls are parameters: \<open>sched\<close> maps process, length and mask to the result and the
  mask it leaves.  The version of \<open>mwait_barrier\<close> prints and exits with status 1 (\<open>Inl\<close>) on -1.
\<close>

definition my_sched_affinity :: "(u32 \<Rightarrow> u32 \<Rightarrow> u64 \<Rightarrow> u32 \<times> u64) \<Rightarrow> u32 \<Rightarrow> u64 \<Rightarrow> u64 \<Rightarrow> u32 \<times> u64" where
  "my_sched_affinity sched pid cpuset_size cpuset = sched pid (ucast cpuset_size) cpuset"

definition my_sched_setaffinity :: "(u32 \<Rightarrow> u32 \<Rightarrow> u64 \<Rightarrow> u32 \<times> u64) \<Rightarrow> u32 \<Rightarrow> u64 \<Rightarrow> u64 \<Rightarrow> u32 \<times> u64" where
  "my_sched_setaffinity = my_sched_affinity"

definition my_sched_getaffinity :: "(u32 \<Rightarrow> u32 \<Rightarrow> u64 \<Rightarrow> u32 \<times> u64) \<Rightarrow> u32 \<Rightarrow> u64 \<Rightarrow> u64 \<Rightarrow> u32 \<times> u64" where
  "my_sched_getaffinity = my_sched_affinity"

definition EXIT_FAILURE :: int where "EXIT_FAILURE = 1"

definition mb_sched_setaffinity ::
  "(u32 \<Rightarrow> u32 \<Rightarrow> u64 \<Rightarrow> u32 \<times> u64) \<Rightarrow> u32 \<Rightarrow> u64 \<Rightarrow> u64 \<Rightarrow> int + u32 \<times> u64" where
  "mb_sched_setaffinity sched pid cpuset_size cpuset =
     (let (res, cpuset') = sched pid (ucast cpuset_size) cpuset in
      if res = - 1 then Inl EXIT_FAILURE else Inr (res, cpuset'))"

definition mb_sched_getaffinity ::
  "(u32 \<Rightarrow> u32 \<Rightarrow> u64 \<Rightarrow> u32 \<times> u64) \<Rightarrow> u32 \<Rightarrow> u64 \<Rightarrow> u64 \<Rightarrow> int + u32 \<times> u64" where
  "mb_sched_getaffinity sched pid cpuset_size cpuset =
     (let (res, cpuset') = sched pid (ucast cpuset_size) cpuset in
      if res = - 1 then Inl EXIT_FAILURE else Inr (res, cpuset'))"

end
