(* ===== verification/Timer.thy ===== *)
theory Timer
  imports Ht_Prelude
begin

text \<open>
  The time-stamp timers of \<open>btimer_rdtsc32.h\<close> and \<open>btimer_rdtsc64.h\<close>.  The 32-bit timer keeps every
  count in two words and adds and subtracts them with carry and borrow; the 64-bit timer has one word
  for each.  The reference is the 64-bit one: the 32-bit timer simulates it, stamp for stamp.
\<close>

unbundle bit_operations_syntax

section \<open>The time-stamp counter\<close>

text \<open>
  \<open>rdtsc\<close> puts the low half of the counter into \<open>EAX\<close> and the high half into \<open>EDX\<close>, with the upper halves
  of the 64-bit registers cleared.
\<close>

definition rdtsc_eax :: "u64 \<Rightarrow> u32" where "rdtsc_eax tsc = ucast tsc"
definition rdtsc_edx :: "u64 \<Rightarrow> u32" where "rdtsc_edx tsc = ucast (drop_bit 32 tsc)"

definition rdtsc64 :: "u64 \<Rightarrow> u64" where
  "rdtsc64 tsc =
     (let x = ucast (rdtsc_eax tsc); hi = ucast (rdtsc_edx tsc) in x OR push_bit 32 hi)"

type_synonym pair32 = "u32 \<times> u32" \<comment> \<open>element 0, the low word, and element 1\<close>

definition rdtsc32 :: "u64 \<Rightarrow> pair32" where
  "rdtsc32 tsc = (rdtsc_eax tsc, rdtsc_edx tsc)"

section \<open>The 64-bit timer\<close>

record timer64 =
  start64 :: u64
  stop64 :: u64
  total64 :: u64
  loops64 :: u64

definition TIMER_CLEAR64 :: "timer64 \<Rightarrow> timer64" where
  "TIMER_CLEAR64 t = t\<lparr>loops64 := 0, total64 := 0\<rparr>"

definition TIMER_START64 :: "u64 \<Rightarrow> timer64 \<Rightarrow> timer64" where
  "TIMER_START64 tsc t = t\<lparr>start64 := rdtsc64 tsc\<rparr>"

definition TIMER_STOP64 :: "u64 \<Rightarrow> timer64 \<Rightarrow> timer64" where
  "TIMER_STOP64 tsc t =
     (let t = t\<lparr>stop64 := rdtsc64 tsc\<rparr>;
          t = t\<lparr>total64 := total64 t + (stop64 t - start64 t)\<rparr>
      in t\<lparr>loops64 := loops64 t + 1\<rparr>)"

definition TIMER_STARTED64 :: "timer64 \<Rightarrow> u64" where "TIMER_STARTED64 t = start64 t"
definition TIMER_STOPPED64 :: "timer64 \<Rightarrow> u64" where "TIMER_STOPPED64 t = stop64 t"

definition rdtsc_shift64 :: "u64 \<Rightarrow> nat \<Rightarrow> u64" where
  "rdtsc_shift64 x shift = drop_bit shift x"

section \<open>The 32-bit timer\<close>

record timer32 =
  start32 :: pair32
  stop32 :: pair32
  total32 :: pair32
  loops32 :: u32

text \<open>
  The four instructions of \<open>TIMER_STOP\<close>: each gives the new destination and the carry flag.
\<close>

definition subl :: "u32 \<Rightarrow> u32 \<Rightarrow> u32 \<times> bool" where
  "subl src dst = (dst - src, dst < src)"

definition sbbl :: "bool \<Rightarrow> u32 \<Rightarrow> u32 \<Rightarrow> u32 \<times> bool" where
  "sbbl cf src dst = (dst - (src + of_bool cf), uint dst < uint src + of_bool cf)"

definition addl :: "u32 \<Rightarrow> u32 \<Rightarrow> u32 \<times> bool" where
  "addl src dst = (dst + src, 2 ^ 32 \<le> uint dst + uint src)"

definition adcl :: "bool \<Rightarrow> u32 \<Rightarrow> u32 \<Rightarrow> u32 \<times> bool" where
  "adcl cf src dst = (dst + src + of_bool cf, 2 ^ 32 \<le> uint dst + uint src + of_bool cf)"

definition TIMER_CLEAR32 :: "timer32 \<Rightarrow> timer32" where
  "TIMER_CLEAR32 t = t\<lparr>loops32 := 0, total32 := (0, 0)\<rparr>"

definition TIMER_START32 :: "u64 \<Rightarrow> timer32 \<Rightarrow> timer32" where
  "TIMER_START32 tsc t = t\<lparr>start32 := rdtsc32 tsc\<rparr>"

text \<open>The registers \<open>%4\<close> and \<open>%5\<close> hold the stop stamp, \<open>%2\<close> and \<open>%3\<close> the start stamp, \<open>%0\<close> and \<open>%1\<close> the total.\<close>

definition TIMER_STOP32 :: "u64 \<Rightarrow> timer32 \<Rightarrow> timer32" where
  "TIMER_STOP32 tsc t =
     (let t = t\<lparr>stop32 := rdtsc32 tsc\<rparr>;
          (r0, r1) = total32 t; (r2, r3) = start32 t; (r4, r5) = stop32 t;
          (r4, cf) = subl r2 r4;
          (r5, cf) = sbbl cf r3 r5;
          (r0, cf) = addl r4 r0;
          (r1, cf) = adcl cf r5 r1;
          t = t\<lparr>total32 := (r0, r1)\<rparr>
      in t\<lparr>loops32 := loops32 t + 1\<rparr>)"

definition TIMER_STARTED32 :: "timer32 \<Rightarrow> u32" where "TIMER_STARTED32 t = fst (start32 t)"
definition TIMER_STOPPED32 :: "timer32 \<Rightarrow> u32" where "TIMER_STOPPED32 t = fst (stop32 t)"

section \<open>Two words as one\<close>

lemma uint_range32: "0 \<le> uint (x :: u32)" "uint x < 4294967296"
  using unsigned_less [of x, where ?'a=int] by simp_all

lemma mod_add_once:
  "0 \<le> a \<Longrightarrow> a < n \<Longrightarrow> 0 \<le> b \<Longrightarrow> b < n \<Longrightarrow> (a + b) mod n = a + b - (if n \<le> a + b then n else 0)"
  for a b n :: int
  using mod_pos_pos_trivial [of "a + b - n" n] mod_pos_pos_trivial [of "a + b" n] by simp

lemma mod_sub_once:
  "0 \<le> a \<Longrightarrow> a < n \<Longrightarrow> 0 \<le> b \<Longrightarrow> b < n \<Longrightarrow> (a - b) mod n = a - b + (if a < b then n else 0)"
  for a b n :: int
  using mod_pos_pos_trivial [of "a - b + n" n] mod_pos_pos_trivial [of "a - b" n] by simp

lemma uint_add32: "uint (x + y :: u32) = uint x + uint y - (if 2 ^ 32 \<le> uint x + uint y then 2 ^ 32 else 0)"
  using mod_add_once [OF uint_range32 uint_range32, of x y] by (simp add: uint_word_ariths)

lemma uint_sub32: "uint (x - y :: u32) = uint x - uint y + (if x < y then 2 ^ 32 else 0)"
  using mod_sub_once [OF uint_range32 uint_range32, of x y] by (simp add: uint_word_ariths word_less_def)

lemma of_int_uint64: "(of_int (uint (x :: u32)) :: u64) = ucast x" by simp

lemma ucast_add64: "(ucast (x + y :: u32) :: u64) = ucast x + ucast y - (if 2 ^ 32 \<le> uint x + uint y then 2 ^ 32 else 0)"
  unfolding of_int_uint64 [symmetric] by (subst uint_add32) simp

lemma ucast_sub64: "(ucast (x - y :: u32) :: u64) = ucast x - ucast y + (if x < y then 2 ^ 32 else 0)"
  unfolding of_int_uint64 [symmetric] by (subst uint_sub32) simp

text \<open>The count a pair of words stands for.\<close>

definition join :: "pair32 \<Rightarrow> u64" where
  "join p = word_cat (snd p) (fst p)"

lemma join_sum: "join (lo, hi) = ucast lo + 4294967296 * ucast hi"
  by (simp add: join_def word_cat_eq push_bit_eq_mult)

lemma two64: "(18446744073709551616 :: u64) = 0" by simp

lemma high_add: "(4294967296 :: u64) * ucast (x + y :: u32) = 4294967296 * ucast x + 4294967296 * ucast y"
  by (simp add: ucast_add64 algebra_simps two64)

lemma high_sub: "(4294967296 :: u64) * ucast (x - y :: u32) = 4294967296 * ucast x - 4294967296 * ucast y"
  by (simp add: ucast_sub64 algebra_simps two64)

lemma ucast_of_bool: "(ucast (of_bool b :: u32) :: u64) = of_bool b"
  by (cases b) simp_all

lemma join_sub: "join (x - a, y - (b + of_bool (x < a))) = join (x, y) - join (a, b)"
  by (simp add: join_sum high_add high_sub ucast_of_bool ucast_sub64)

lemma join_add: "join (x + a, y + b + of_bool (2 ^ 32 \<le> uint x + uint a)) = join (x, y) + join (a, b)"
  by (simp add: join_sum high_add high_sub ucast_of_bool ucast_add64)

lemma join_stamp: "join (ucast tsc, ucast (drop_bit 32 tsc)) = tsc"
  by (rule bit_word_eqI) (auto simp: join_def bit_simps)
lemma join_rdtsc32: "join (rdtsc32 tsc) = tsc"
  by (simp add: rdtsc32_def rdtsc_eax_def rdtsc_edx_def join_stamp)

lemma rdtsc64_stamp: "rdtsc64 tsc = tsc"
  unfolding rdtsc64_def rdtsc_eax_def rdtsc_edx_def Let_def
  by (rule bit_word_eqI) (auto simp: bit_simps)

lemma TIMER_STOP32_total:
  "join (total32 (TIMER_STOP32 tsc t)) = join (total32 t) + (tsc - join (start32 t))"
proof -
  obtain r0 r1 r2 r3 s n where t: "t = \<lparr>start32 = (r2, r3), stop32 = s, total32 = (r0, r1), loops32 = n\<rparr>"
    by (cases t) force
  let ?lo = "rdtsc_eax tsc" and ?hi = "rdtsc_edx tsc"
  have "join (total32 (TIMER_STOP32 tsc t)) =
      join (r0 + (?lo - r2), r1 + (?hi - (r3 + of_bool (?lo < r2))) + of_bool (2 ^ 32 \<le> uint r0 + uint (?lo - r2)))"
    by (simp only: TIMER_STOP32_def t rdtsc32_def subl_def sbbl_def addl_def adcl_def Let_def prod.case
        timer32.simps)
  also have "\<dots> = join (r0, r1) + (join (?lo, ?hi) - join (r2, r3))"
    by (simp only: join_add join_sub)
  also have "join (?lo, ?hi) = tsc"
    using join_rdtsc32 [of tsc] by (simp only: rdtsc32_def)
  finally show ?thesis by (simp only: t timer32.simps)
qed

section \<open>The contract of a timer\<close>

text \<open>
  What the programs that use a timer rely on; \<open>width\<close> is the number of bits of the loop counter.
\<close>

locale stamp_timer =
  fixes clear :: "'t \<Rightarrow> 't"
    and start :: "u64 \<Rightarrow> 't \<Rightarrow> 't"
    and stop :: "u64 \<Rightarrow> 't \<Rightarrow> 't"
    and started :: "'t \<Rightarrow> u64"
    and total :: "'t \<Rightarrow> u64"
    and loops :: "'t \<Rightarrow> nat"
    and width :: nat
  assumes clear_total: "total (clear t) = 0"
    and clear_loops: "loops (clear t) = 0"
    and start_started: "started (start tsc t) = tsc"
    and start_total: "total (start tsc t) = total t"
    and start_loops: "loops (start tsc t) = loops t"
    and stop_total: "total (stop tsc t) = total t + (tsc - started t)"
    and stop_loops: "loops (stop tsc t) = Suc (loops t) mod 2 ^ width"
begin

definition intervals :: "(u64 \<times> u64) list \<Rightarrow> 't \<Rightarrow> 't" where
  "intervals xs t = fold (\<lambda>(a, b) t. stop b (start a t)) xs t"

lemma intervals_total:
  "total (intervals xs t) = total t + sum_list (map (\<lambda>(a, b). b - a) xs)"
  by (induction xs arbitrary: t)
    (auto simp: intervals_def stop_total start_total start_started algebra_simps)

lemma intervals_loops:
  "xs \<noteq> [] \<or> loops t < 2 ^ width \<Longrightarrow> loops (intervals xs t) = (loops t + length xs) mod 2 ^ width"
proof (induction xs arbitrary: t)
  case (Cons x xs)
  obtain a b where x: "x = (a, b)" by force
  have "loops (intervals xs (stop b (start a t))) = (loops (stop b (start a t)) + length xs) mod 2 ^ width"
    by (rule Cons.IH) (simp add: stop_loops)
  also have "\<dots> = (loops t + length (x # xs)) mod 2 ^ width"
    by (simp add: stop_loops start_loops mod_simps)
  finally show ?case by (simp add: intervals_def x)
qed (simp add: intervals_def)

lemma measures:
  "total (intervals xs (clear t)) = sum_list (map (\<lambda>(a, b). b - a) xs)
   \<and> loops (intervals xs (clear t)) = length xs mod 2 ^ width"
  using intervals_total [of xs "clear t"] intervals_loops [of xs "clear t"]
  by (simp add: clear_total clear_loops)

end

interpretation t64: stamp_timer TIMER_CLEAR64 TIMER_START64 TIMER_STOP64 start64 total64 "unat \<circ> loops64" 64
  by unfold_locales
    (simp_all add: TIMER_CLEAR64_def TIMER_START64_def TIMER_STOP64_def rdtsc64_stamp Let_def
      unat_word_ariths)

interpretation t32: stamp_timer TIMER_CLEAR32 TIMER_START32 TIMER_STOP32 "join \<circ> start32" "join \<circ> total32"
    "unat \<circ> loops32" 32
proof unfold_locales
  show "(join \<circ> total32) (TIMER_STOP32 tsc t) = (join \<circ> total32) t + (tsc - (join \<circ> start32) t)" for tsc t
    by (simp add: TIMER_STOP32_total)
  show "(unat \<circ> loops32) (TIMER_STOP32 tsc t) = Suc ((unat \<circ> loops32) t) mod 2 ^ 32" for tsc t
    by (simp add: TIMER_STOP32_def Let_def split_beta unat_word_ariths)
qed (simp_all add: TIMER_CLEAR32_def TIMER_START32_def join_rdtsc32 join_sum)

section \<open>Properties\<close>

definition timed32 :: "(u64 \<times> u64) list \<Rightarrow> timer32 \<Rightarrow> timer32" where
  "timed32 xs t = fold (\<lambda>(a, b) t. TIMER_STOP32 b (TIMER_START32 a t)) xs (TIMER_CLEAR32 t)"

definition timed64 :: "(u64 \<times> u64) list \<Rightarrow> timer64 \<Rightarrow> timer64" where
  "timed64 xs t = fold (\<lambda>(a, b) t. TIMER_STOP64 b (TIMER_START64 a t)) xs (TIMER_CLEAR64 t)"

text \<open>
  C37: whatever a timer held before, clearing it and timing a list of intervals, each given by
  the counter when it starts and when it stops, leaves the sum of their lengths modulo 2^64 in \<open>total\<close> and their
  number, modulo the width of the word, in \<open>loops\<close>; with the pair of words of the 32-bit timer as well, whatever
  borrows and carries pass between the two.
\<close>

theorem timer_total:
  "total64 (timed64 xs t) = sum_list (map (\<lambda>(a, b). b - a) xs)
   \<and> unat (loops64 (timed64 xs t)) = length xs mod 2 ^ 64
   \<and> join (total32 (timed32 xs u)) = sum_list (map (\<lambda>(a, b). b - a) xs)
   \<and> unat (loops32 (timed32 xs u)) = length xs mod 2 ^ 32"
  using t64.measures [of xs t] t32.measures [of xs u]
  by (simp_all add: t64.intervals_def t32.intervals_def timed32_def timed64_def)

datatype timer_op = Clear | Start u64 | Stop u64

fun timer_op64 :: "timer_op \<Rightarrow> timer64 \<Rightarrow> timer64" where
  "timer_op64 Clear = TIMER_CLEAR64"
| "timer_op64 (Start tsc) = TIMER_START64 tsc"
| "timer_op64 (Stop tsc) = TIMER_STOP64 tsc"

fun timer_op32 :: "timer_op \<Rightarrow> timer32 \<Rightarrow> timer32" where
  "timer_op32 Clear = TIMER_CLEAR32"
| "timer_op32 (Start tsc) = TIMER_START32 tsc"
| "timer_op32 (Stop tsc) = TIMER_STOP32 tsc"

text \<open>The 64-bit timer a 32-bit timer stands for; only the loop counter has fewer bits.\<close>

definition agrees :: "timer32 \<Rightarrow> timer64 \<Rightarrow> bool" where
  "agrees t u \<longleftrightarrow> join (start32 t) = start64 u \<and> join (stop32 t) = stop64 u
     \<and> join (total32 t) = total64 u \<and> loops32 t = ucast (loops64 u)"

lemma agrees_step: "agrees t u \<Longrightarrow> agrees (timer_op32 c t) (timer_op64 c u)"
proof (cases c)
  case (Stop tsc)
  assume a: "agrees t u"
  have "loops32 (TIMER_STOP32 tsc t) = loops32 t + 1" "stop32 (TIMER_STOP32 tsc t) = rdtsc32 tsc"
    "start32 (TIMER_STOP32 tsc t) = start32 t"
    by (simp_all add: TIMER_STOP32_def Let_def split_beta)
  moreover have "(ucast (w + 1) :: u32) = ucast w + 1" for w :: u64
  proof -
    have cut: "(v mod 18446744073709551616 + 1) mod 4294967296 = (v + 1) mod 4294967296" for v :: int
      by (rule mod_add_cong [OF mod_mod_cancel refl]) simp
    show ?thesis by transfer (simp add: take_bit_eq_mod cut mod_mod_cancel)
  qed
  ultimately show ?thesis
    using a TIMER_STOP32_total [of tsc t]
    by (simp add: Stop agrees_def TIMER_STOP64_def Let_def join_rdtsc32 rdtsc64_stamp)
qed (auto simp: agrees_def TIMER_CLEAR32_def TIMER_CLEAR64_def TIMER_START32_def TIMER_START64_def
    join_rdtsc32 rdtsc64_stamp join_sum)

text \<open>
  C38: from timers that agree, any sequence of clearing, starting and stopping leaves timers
  that agree, and the stamp the 32-bit timer reports as its start is the low half of the 64-bit one.
\<close>

theorem timer32_simulates:
  assumes "agrees t u"
  shows "agrees (fold timer_op32 cs t) (fold timer_op64 cs u)
     \<and> TIMER_STARTED32 (fold timer_op32 cs t) = ucast (TIMER_STARTED64 (fold timer_op64 cs u))"
proof
  show a: "agrees (fold timer_op32 cs t) (fold timer_op64 cs u)"
    using assms by (induction cs arbitrary: t u) (simp_all add: agrees_step)
  have "fst p = ucast (join p)" for p
    by (rule bit_word_eqI) (auto simp: join_def bit_simps)
  with a show "TIMER_STARTED32 (fold timer_op32 cs t) = ucast (TIMER_STARTED64 (fold timer_op64 cs u))"
    by (simp add: agrees_def TIMER_STARTED32_def TIMER_STARTED64_def)
qed

text \<open>The low words of the two stamps alone are 1 and \<open>0xFFFFFFFF\<close>: the subtraction borrows.\<close>

theorem timer32_simulates_witness:
  "join (total32 (fold timer_op32 [Start 0x1FFFFFFFF, Stop 0x300000001]
     \<lparr>start32 = (0, 0), stop32 = (0, 0), total32 = (0, 0), loops32 = 0\<rparr>)) = 0x100000002"
proof -
  have "agrees \<lparr>start32 = (0, 0), stop32 = (0, 0), total32 = (0, 0), loops32 = 0\<rparr>
      \<lparr>start64 = 0, stop64 = 0, total64 = 0, loops64 = 0\<rparr>"
    by (simp add: agrees_def join_sum)
  from timer32_simulates [OF this, of "[Start 0x1FFFFFFFF, Stop 0x300000001]"] show ?thesis
    by (simp add: agrees_def TIMER_START64_def TIMER_STOP64_def rdtsc64_stamp)
qed

end
