(* ===== verification/Kmem_Mapper.thy ===== *)
theory Kmem_Mapper
  imports Mwait_Kernel
begin

text \<open>
  The driver \<open>kmem_mapper.c\<close>: it reserves the block of kernel memory with the two monitored regions and
  maps it to user space.  The kernel's own functions are parameters: what \<open>register_chrdev_region\<close>,
  \<open>cdev_add\<close>, \<open>kmalloc\<close> and \<open>remap_pfn_range\<close> return, and \<open>virt_to_phys\<close>.  Every call of them is
  recorded in a trace, so that one can ask what the module still holds.
\<close>

section \<open>State\<close>

definition PAGE_SIZE :: u64 where "PAGE_SIZE = 4096"
definition PAGE_SHIFT :: nat where "PAGE_SHIFT = 12"
definition LEN :: u64 where "LEN = 4096"
definition MONITORED_REGIONS_DISTANCE :: u64 where "MONITORED_REGIONS_DISTANCE = 512"

type_synonym dev_t = "nat \<times> nat"

definition KMEM_MAPPER_MAJOR :: nat where "KMEM_MAPPER_MAJOR = 201"
definition kmem_mapper_minor :: nat where "kmem_mapper_minor = 0"

record vm_area =
  vm_start :: addr
  vm_end :: addr

datatype kcall =
    Register_region dev_t int       \<comment> \<open>with what it returned\<close>
  | Unregister_region dev_t
  | Cdev_init
  | Cdev_add dev_t int
  | Cdev_del
  | Kmalloc u64 addr
  | Kfree addr
  | Set_reserved addr               \<comment> \<open>\<open>SetPageReserved(virt_to_page(a))\<close>\<close>
  | Clear_reserved addr
  | Remap_pfn_range addr u64 u64

record mapper =
  areas :: kglobals
  kmalloc_ptr :: addr
  virt_addr :: addr
  mwmon_lint_var_addr :: addr
  kmem :: memory
  trace :: "kcall list"

record kernel =
  register_ret :: int
  cdev_add_ret :: int
  kmalloc_fn :: "u64 \<Rightarrow> addr"
  remap_ret :: int
  virt_to_phys :: "addr \<Rightarrow> u64"

definition calls :: "kcall list \<Rightarrow> mapper \<Rightarrow> mapper" where
  "calls cs s = s\<lparr>trace := trace s @ cs\<rparr>"

section \<open>Operations\<close>

text \<open>
  The loop that stores the original value in the first 10 bytes of both regions: its stores in their order, and their
  effect on the memory.
\<close>

definition init_stores :: "kglobals \<Rightarrow> (addr \<times> u8) list" where
  "init_stores g = concat (map (\<lambda>i. [(mwmon_mmap_area g + word_of_nat i, MWMON_ORIGINAL_VAL),
     (mwmon_mmap_area2 g + word_of_nat i, MWMON_ORIGINAL_VAL)]) [0..<10])"

definition store_all :: "(addr \<times> u8) list \<Rightarrow> memory \<Rightarrow> memory" where
  "store_all xs m = fold (\<lambda>(a, v) m. m(a := v)) xs m"

definition init_regions :: "mapper \<Rightarrow> mapper" where
  "init_regions s = s\<lparr>kmem := store_all (init_stores (areas s)) (kmem s)\<rparr>"

definition kmem_mapper_open :: "mapper \<Rightarrow> int \<times> mapper" where
  "kmem_mapper_open s = (0, init_regions s)"

definition kmem_mapper_release :: "mapper \<Rightarrow> int \<times> mapper" where
  "kmem_mapper_release s = (0, s)"

definition EAGAIN :: int where "EAGAIN = 11"

definition kmem_mapper_mmap :: "kernel \<Rightarrow> vm_area \<Rightarrow> mapper \<Rightarrow> int \<times> mapper" where
  "kmem_mapper_mmap k vma s =
     (let s = calls [Remap_pfn_range (vm_start vma)
               (drop_bit PAGE_SHIFT (virt_to_phys k (mwmon_mmap_area (areas s))))
               (vm_end vma - vm_start vma)] s in
      if remap_ret k \<noteq> 0 then (- EAGAIN, s) else (0, s))"

text \<open>
  The loops over the pages of the block, \<open>for (v = first; v < limit; v += PAGE_SIZE)\<close>, on unsigned
  longs: they may not end when \<open>limit\<close> is in the last page of the address space.
\<close>

partial_function (option) page_loop ::
  "(addr \<Rightarrow> kcall) \<Rightarrow> addr \<Rightarrow> mapper \<Rightarrow> mapper option" where
  "page_loop op limit s =
     (if virt_addr s < limit
      then page_loop op limit ((calls [op (virt_addr s)] s)\<lparr>virt_addr := virt_addr s + PAGE_SIZE\<rparr>)
      else Some s)"

definition over_pages :: "(addr \<Rightarrow> kcall) \<Rightarrow> mapper \<Rightarrow> mapper option" where
  "over_pages op s =
     (let a = mwmon_mmap_area (areas s) in page_loop op (a + LEN) (s\<lparr>virt_addr := a\<rparr>))"

text \<open>\<open>k13\<close>: compiled for \<open>KERNEL_2_6_13_1\<close>.  \<open>PAGE_MASK\<close> is the complement of \<open>PAGE_SIZE - 1\<close>.\<close>

definition kmem_mapper_init :: "bool \<Rightarrow> kernel \<Rightarrow> mapper \<Rightarrow> (int \<times> mapper) option" where
  "kmem_mapper_init k13 k s =
     (let devno = (KMEM_MAPPER_MAJOR, kmem_mapper_minor);
          ret = register_ret k; s = calls [Register_region devno ret] s in
      if ret < 0 then Some (ret, calls [Unregister_region devno] s)
      else
        let s = calls [Cdev_init] s; ret = cdev_add_ret k; s = calls [Cdev_add devno ret] s in
        if ret < 0 then Some (ret, s)
        else
          let p = kmalloc_fn k (LEN + 2 * PAGE_SIZE);
              s = (calls [Kmalloc (LEN + 2 * PAGE_SIZE) p] s)\<lparr>kmalloc_ptr := p\<rparr> in
          if p = 0 then Some (- 1, s)
          else
            let a = (p + PAGE_SIZE - 1) AND NOT (PAGE_SIZE - 1);
                s = s\<lparr>areas := (areas s)\<lparr>mwmon_mmap_area := a,
                        mwmon_mmap_area2 := a + MONITORED_REGIONS_DISTANCE\<rparr>\<rparr> in
            case over_pages Set_reserved s of
              None \<Rightarrow> None
            | Some s \<Rightarrow>
                let s = init_regions s;
                    s = (if k13 then s\<lparr>mwmon_lint_var_addr := mwmon_mmap_area (areas s) + MWMON_LINT_VAR_OFFSET\<rparr>
                         else s)
                in Some (0, s))"

definition kmem_mapper_exit :: "mapper \<Rightarrow> mapper option" where
  "kmem_mapper_exit s =
     (let devno = (KMEM_MAPPER_MAJOR, kmem_mapper_minor) in
      case over_pages Clear_reserved s of
        None \<Rightarrow> None
      | Some s \<Rightarrow> Some (calls [Kfree (kmalloc_ptr s), Cdev_del, Unregister_region devno] s))"

text \<open>
  \<open>virt_to_kseg\<close> walks the kernel's page table; the kernel's macros are parameters.
\<close>

record page_table =
  pgd_none :: "addr \<Rightarrow> bool"
  pmd_none :: "addr \<Rightarrow> bool"
  pte_present :: "addr \<Rightarrow> bool"
  page_address :: "addr \<Rightarrow> addr"

definition virt_to_kseg :: "page_table \<Rightarrow> addr \<Rightarrow> addr" where
  "virt_to_kseg pt va =
     (if \<not> pgd_none pt va then
        if \<not> pmd_none pt va then
          if pte_present pt va then page_address pt va OR (va AND (PAGE_SIZE - 1)) else 0
        else 0
      else 0)"

section \<open>What the module holds\<close>

datatype resource = Region dev_t | Device | Block addr | Reserved_page addr

text \<open>A failed call acquires nothing.  The second component lists releases of what was not held.\<close>

fun hold :: "kcall \<Rightarrow> resource set \<times> resource list \<Rightarrow> resource set \<times> resource list" where
  "hold (Register_region d r) (R, bad) = (if r < 0 then R else insert (Region d) R, bad)"
| "hold (Unregister_region d) (R, bad) = (R - {Region d}, if Region d \<in> R then bad else bad @ [Region d])"
| "hold Cdev_init (R, bad) = (R, bad)"
| "hold (Cdev_add d r) (R, bad) = (if r < 0 then R else insert Device R, bad)"
| "hold Cdev_del (R, bad) = (R - {Device}, if Device \<in> R then bad else bad @ [Device])"
| "hold (Kmalloc sz p) (R, bad) = (if p = 0 then R else insert (Block p) R, bad)"
| "hold (Kfree p) (R, bad) = (R - {Block p}, if Block p \<in> R then bad else bad @ [Block p])"
| "hold (Set_reserved a) (R, bad) = (insert (Reserved_page a) R, bad)"
| "hold (Clear_reserved a) (R, bad) =
     (R - {Reserved_page a}, if Reserved_page a \<in> R then bad else bad @ [Reserved_page a])"
| "hold (Remap_pfn_range v f n) (R, bad) = (R, bad)"

definition held :: "mapper \<Rightarrow> resource set \<times> resource list" where
  "held s = fold hold (trace s) ({}, [])"

lemmas kmem_consts = PAGE_SIZE_def LEN_def MONITORED_REGIONS_DISTANCE_def

lemma calls_simps [simp]:
  "trace (calls cs s) = trace s @ cs" "areas (calls cs s) = areas s" "kmem (calls cs s) = kmem s"
  "kmalloc_ptr (calls cs s) = kmalloc_ptr s"
  by (simp_all add: calls_def)

lemma init_regions_simps [simp]:
  "trace (init_regions s) = trace s" "areas (init_regions s) = areas s"
  "kmalloc_ptr (init_regions s) = kmalloc_ptr s"
  by (simp_all add: init_regions_def)

section \<open>The loops\<close>

lemma in_first_bytes:
  "x \<in> (\<lambda>i. a + word_of_nat i) ` {0..<n} \<longleftrightarrow> unat (x - a) < n" if "n < 2 ^ 64" for a x :: u64
proof
  assume "x \<in> (\<lambda>i. a + word_of_nat i) ` {0..<n}"
  then obtain i where "i < n" "x = a + word_of_nat i" by auto
  then show "unat (x - a) < n" using that by (simp add: unsigned_of_nat take_bit_nat_eq_self)
next
  assume "unat (x - a) < n"
  moreover have "x = a + word_of_nat (unat (x - a))" by simp
  ultimately show "x \<in> (\<lambda>i. a + word_of_nat i) ` {0..<n}" by (metis atLeastLessThan_iff imageI le0)
qed

lemma store_all_pairs:
  "store_all (concat (map (\<lambda>i. [(f i, v), (g i, v)]) xs)) m x = (if x \<in> f ` set xs \<union> g ` set xs then v else m x)"
  by (induction xs arbitrary: m) (auto simp: store_all_def)

text \<open>The loop over the bytes writes the first ten bytes of both regions and nothing else.\<close>

lemma init_regions_mem:
  "kmem (init_regions s) x =
     (if unat (x - mwmon_mmap_area (areas s)) < 10 \<or> unat (x - mwmon_mmap_area2 (areas s)) < 10
      then MWMON_ORIGINAL_VAL else kmem s x)"
  by (simp add: init_regions_def init_stores_def store_all_pairs in_first_bytes del: upt_rec_numeral)

text \<open>A block of one page that does not reach the end of the address space takes one turn of a loop over pages.\<close>

lemma over_pages_once:
  assumes "unat (mwmon_mmap_area (areas s)) + 4096 < 2 ^ 64"
  shows "over_pages op s = Some (s\<lparr>virt_addr := mwmon_mmap_area (areas s) + 4096,
      trace := trace s @ [op (mwmon_mmap_area (areas s))]\<rparr>)"
proof -
  let ?a = "mwmon_mmap_area (areas s)"
  have "?a < ?a + 4096" using assms by (simp add: word_less_nat_alt unat_word_ariths)
  then show ?thesis
    by (simp add: over_pages_def Let_def kmem_consts page_loop.simps [of op "?a + 4096"] calls_def)
qed

section \<open>Loading the module\<close>

definition page_up :: "addr \<Rightarrow> addr" where
  "page_up p = (p + PAGE_SIZE - 1) AND NOT (PAGE_SIZE - 1)"

lemma page_up_bounds:
  assumes "unat p + 4096 \<le> 2 ^ 64"
  shows "4096 dvd unat (page_up p)" "unat p \<le> unat (page_up p)" "unat (page_up p) \<le> unat p + 4095"
proof -
  have "page_up p = align_up (2 ^ 12) p" by (simp add: page_up_def align_up_def PAGE_SIZE_def)
  then show "4096 dvd unat (page_up p)" "unat p \<le> unat (page_up p)" "unat (page_up p) \<le> unat p + 4095"
    using align_up_bounds [of 12 p] assms by simp_all
qed

lemma block_room:
  assumes "allocator f" and "f 12288 \<noteq> 0"
  shows "unat (f 12288) + 12288 < 2 ^ 64"
  using assms by (auto simp: allocator_def)

definition devno :: dev_t where "devno = (KMEM_MAPPER_MAJOR, kmem_mapper_minor)"

text \<open>The four ways \<open>kmem_mapper_init\<close> ends.\<close>

lemma init_register_fails:
  "register_ret k < 0 \<Longrightarrow> kmem_mapper_init k13 k s =
     Some (register_ret k, calls [Register_region devno (register_ret k), Unregister_region devno] s)"
  by (simp add: kmem_mapper_init_def Let_def devno_def calls_def)

lemma init_cdev_fails:
  "0 \<le> register_ret k \<Longrightarrow> cdev_add_ret k < 0 \<Longrightarrow> kmem_mapper_init k13 k s =
     Some (cdev_add_ret k, calls [Register_region devno (register_ret k), Cdev_init, Cdev_add devno (cdev_add_ret k)] s)"
  by (simp add: kmem_mapper_init_def Let_def devno_def calls_def)

lemma init_kmalloc_fails:
  "0 \<le> register_ret k \<Longrightarrow> 0 \<le> cdev_add_ret k \<Longrightarrow> kmalloc_fn k 12288 = 0 \<Longrightarrow> kmem_mapper_init k13 k s =
     Some (- 1, (calls [Register_region devno (register_ret k), Cdev_init, Cdev_add devno (cdev_add_ret k),
       Kmalloc 12288 0] s)\<lparr>kmalloc_ptr := 0\<rparr>)"
  by (simp add: kmem_mapper_init_def Let_def devno_def calls_def kmem_consts)

lemma init_succeeds:
  assumes "0 \<le> register_ret k" and "0 \<le> cdev_add_ret k"
    and p: "kmalloc_fn k 12288 = p" "p \<noteq> 0" "unat p + 12288 < 2 ^ 64"
  obtains s' where "kmem_mapper_init k13 k s = Some (0, s')"
    and "mwmon_mmap_area (areas s') = page_up p" and "mwmon_mmap_area2 (areas s') = page_up p + 512"
    and "kmalloc_ptr s' = p" and "k13 \<Longrightarrow> mwmon_lint_var_addr s' = page_up p + 128"
    and "trace s' = trace s @ [Register_region devno (register_ret k), Cdev_init, Cdev_add devno (cdev_add_ret k),
        Kmalloc 12288 p, Set_reserved (page_up p)]"
    and "\<And>x. kmem s' x = (if unat (x - page_up p) < 10 \<or> unat (x - (page_up p + 512)) < 10
        then MWMON_ORIGINAL_VAL else kmem s x)"
proof -
  let ?s1 = "(calls [Kmalloc 12288 p] (calls [Cdev_add devno (cdev_add_ret k)] (calls [Cdev_init]
      (calls [Register_region devno (register_ret k)] s))))\<lparr>kmalloc_ptr := p\<rparr>"
  let ?s2 = "?s1\<lparr>areas := (areas ?s1)\<lparr>mwmon_mmap_area := page_up p, mwmon_mmap_area2 := page_up p + 512\<rparr>\<rparr>"
  have "unat (mwmon_mmap_area (areas ?s2)) + 4096 < 2 ^ 64"
    using page_up_bounds [of p] p(3) by simp
  note pages = over_pages_once [OF this, of Set_reserved]
  let ?s3 = "init_regions (?s2\<lparr>virt_addr := page_up p + 4096, trace := trace ?s2 @ [Set_reserved (page_up p)]\<rparr>)"
  let ?s' = "if k13 then ?s3\<lparr>mwmon_lint_var_addr := page_up p + 128\<rparr> else ?s3"
  have "kmem_mapper_init k13 k s = Some (0, ?s')"
    using assms pages
    by (simp add: kmem_mapper_init_def Let_def kmem_consts page_up_def devno_def MWMON_LINT_VAR_OFFSET_def)
  from that [OF this] show thesis
    by (simp add: init_regions_mem)
qed

text \<open>What is known of a load that returned 0.\<close>

lemma init_zero:
  assumes "allocator (kmalloc_fn k)" and "kmem_mapper_init k13 k s = Some (0, s')"
  defines "p \<equiv> kmalloc_fn k 12288"
  shows "0 \<le> register_ret k" and "0 \<le> cdev_add_ret k" and "p \<noteq> 0" and "unat p + 12288 < 2 ^ 64"
    and "kmalloc_ptr s' = p" and "mwmon_mmap_area (areas s') = page_up p"
    and "mwmon_mmap_area2 (areas s') = page_up p + 512"
    and "k13 \<Longrightarrow> mwmon_lint_var_addr s' = page_up p + 128"
    and "trace s' = trace s @ [Register_region devno (register_ret k), Cdev_init, Cdev_add devno (cdev_add_ret k),
        Kmalloc 12288 p, Set_reserved (page_up p)]"
    and "\<And>x. kmem s' x = (if unat (x - page_up p) < 10 \<or> unat (x - (page_up p + 512)) < 10
        then MWMON_ORIGINAL_VAL else kmem s x)"
proof -
  show r: "0 \<le> register_ret k"
    using init_register_fails [of k k13 s] assms(2) by (cases "register_ret k < 0") auto
  show c: "0 \<le> cdev_add_ret k"
    using init_cdev_fails [OF r, of k13 s] assms(2) by (cases "cdev_add_ret k < 0") auto
  show p: "p \<noteq> 0"
    using init_kmalloc_fails [OF r c, of k13 s] assms(2) by (auto simp: p_def)
  show room: "unat p + 12288 < 2 ^ 64"
    using block_room [OF assms(1)] p by (simp add: p_def)
  obtain s2 where i: "kmem_mapper_init k13 k s = Some (0, s2)"
    and s2: "mwmon_mmap_area (areas s2) = page_up p" "mwmon_mmap_area2 (areas s2) = page_up p + 512"
      "kmalloc_ptr s2 = p" "k13 \<Longrightarrow> mwmon_lint_var_addr s2 = page_up p + 128"
      "trace s2 = trace s @ [Register_region devno (register_ret k), Cdev_init, Cdev_add devno (cdev_add_ret k),
        Kmalloc 12288 p, Set_reserved (page_up p)]"
      "\<And>x. kmem s2 x = (if unat (x - page_up p) < 10 \<or> unat (x - (page_up p + 512)) < 10
        then MWMON_ORIGINAL_VAL else kmem s x)"
    using init_succeeds [OF r c p_def [THEN meta_eq_to_obj_eq, symmetric] p room, of k13 s] by blast
  have "s' = s2" using i assms(2) by simp
  then show "kmalloc_ptr s' = p" "mwmon_mmap_area (areas s') = page_up p"
    "mwmon_mmap_area2 (areas s') = page_up p + 512" "k13 \<Longrightarrow> mwmon_lint_var_addr s' = page_up p + 128"
    "trace s' = trace s @ [Register_region devno (register_ret k), Cdev_init, Cdev_add devno (cdev_add_ret k),
        Kmalloc 12288 p, Set_reserved (page_up p)]"
    "\<And>x. kmem s' x = (if unat (x - page_up p) < 10 \<or> unat (x - (page_up p + 512)) < 10
        then MWMON_ORIGINAL_VAL else kmem s x)"
    using s2 by simp_all
qed

section \<open>Properties\<close>

lemma lines_apart:
  assumes "4096 dvd unat a" and "unat a + 4096 < 2 ^ 64"
  shows "\<not> same_line a (a + 512)" "\<not> same_line a (a + 128)" "\<not> same_line (a + 512) (a + 128)"
    "unat (a + 512) = unat a + 512" "unat (a + 128) = unat a + 128"
proof -
  show u: "unat (a + 512) = unat a + 512" "unat (a + 128) = unat a + 128"
    using assms(2) by (simp_all add: unat_word_ariths)
  obtain q where "unat a = 64 * q" using dvd_trans [of 64 4096 "unat a"] assms(1) by (auto elim: dvdE)
  then show "\<not> same_line a (a + 512)" "\<not> same_line a (a + 128)" "\<not> same_line (a + 512) (a + 128)"
    by (simp_all add: same_line_def u MWMON_MONITORED_MEM_BYTES_def)
qed

text \<open>
  C16: after a successful load the first region starts at a page boundary, that page lies
  inside the block \<open>kmalloc\<close> gave, the second region is 512 bytes behind and in the same page, the
  two regions and the shared counter of the 2.6.13.1 kernels are on three different lines, so that storing to
  one wakes nobody who monitors another, and exactly the first ten bytes of both regions have been
  given the original value.
\<close>

theorem kmem_init_layout:
  assumes "allocator (kmalloc_fn k)" and "kmem_mapper_init k13 k s = Some (0, s')"
  defines "a \<equiv> mwmon_mmap_area (areas s')" and "b \<equiv> mwmon_mmap_area2 (areas s')"
  shows "4096 dvd unat a \<and> unat (kmalloc_ptr s') \<le> unat a
      \<and> unat a + unat LEN \<le> unat (kmalloc_ptr s') + unat (LEN + 2 * PAGE_SIZE)
      \<and> unat b = unat a + 512 \<and> \<not> same_line a b
      \<and> (k13 \<longrightarrow> (let c = mwmon_lint_var_addr s' in unat c = unat a + 128 \<and> \<not> same_line a c \<and> \<not> same_line b c))
      \<and> (\<forall>x. kmem s' x = (if unat (x - a) < 10 \<or> unat (x - b) < 10 then MWMON_ORIGINAL_VAL else kmem s x))"
proof -
  let ?p = "kmalloc_fn k 12288"
  note z = init_zero [OF assms(1,2)]
  have pg: "4096 dvd unat (page_up ?p)" "unat ?p \<le> unat (page_up ?p)" "unat (page_up ?p) \<le> unat ?p + 4095"
    using page_up_bounds [of ?p] z(4) by simp_all
  have "unat (page_up ?p) + 4096 < 2 ^ 64" using pg(3) z(4) by simp
  note apart = lines_apart [OF pg(1) this]
  have "unat a + unat LEN \<le> unat (kmalloc_ptr s') + unat (LEN + 2 * PAGE_SIZE)"
    using pg(3) by (simp add: a_def z(5,6) kmem_consts)
  moreover have "k13 \<longrightarrow> (let c = mwmon_lint_var_addr s' in unat c = unat a + 128 \<and> \<not> same_line a c \<and> \<not> same_line b c)"
    using apart by (simp add: a_def b_def z(6,7,8))
  moreover have "kmem s' x = (if unat (x - a) < 10 \<or> unat (x - b) < 10 then MWMON_ORIGINAL_VAL else kmem s x)" for x
    by (simp add: a_def b_def z(6,7,10))
  ultimately show ?thesis
    using pg(1,2) apart by (simp add: a_def b_def z(5-7))
qed

definition willing_kernel :: kernel where
  "willing_kernel = \<lparr>register_ret = 0, cdev_add_ret = 0, kmalloc_fn = \<lambda>sz. if sz = 12288 then 10000 else 0, remap_ret = 0,
     virt_to_phys = \<lambda>a. a\<rparr>"

definition unloaded :: mapper where
  "unloaded = \<lparr>areas = g0, kmalloc_ptr = 0, virt_addr = 0, mwmon_lint_var_addr = 0, kmem = \<lambda>_. 0, trace = []\<rparr>"

lemma willing_kernel_allocator: "allocator (kmalloc_fn willing_kernel)"
  by (simp add: willing_kernel_def allocator_def)

lemma willing_kernel_inits: "\<exists>s'. kmem_mapper_init k13 willing_kernel unloaded = Some (0, s') \<and> mwmon_mmap_area (areas s') = 12288"
  using init_succeeds [of willing_kernel 10000 k13 unloaded] by (simp add: willing_kernel_def page_up_def PAGE_SIZE_def) blast

theorem kmem_init_layout_witness:
  "\<exists>s'. kmem_mapper_init True willing_kernel unloaded = Some (0, s') \<and> mwmon_mmap_area (areas s') = 12288
     \<and> kmem s' 12297 = MWMON_ORIGINAL_VAL \<and> kmem s' 12298 = 0"
proof -
  obtain s' where i: "kmem_mapper_init True willing_kernel unloaded = Some (0, s')" "mwmon_mmap_area (areas s') = 12288"
    using willing_kernel_inits by blast
  have "unat (mwmon_mmap_area2 (areas s')) = 12800"
    using kmem_init_layout [OF willing_kernel_allocator i(1)] i(2) by (simp add: willing_kernel_def)
  then have "mwmon_mmap_area2 (areas s') = 12800" by (simp add: word_unat_eq_iff)
  then show ?thesis
    using kmem_init_layout [OF willing_kernel_allocator i(1)] i by (simp add: willing_kernel_def unloaded_def)
qed

text \<open>
  C39: how \<open>kmem_mapper_init\<close> ends, with what it returns, what the module holds
  afterwards and which releases it made of things it did not hold.  It always returns.  If the major number is
  taken, it unregisters a region that is not its own; if \<open>cdev_add\<close> fails, the region stays registered;
  if \<open>kmalloc\<close> fails, the region and the device stay registered although the module is not loaded.
\<close>

theorem kmem_init_outcomes:
  assumes "allocator (kmalloc_fn k)" and "trace s = []"
  defines "p \<equiv> kmalloc_fn k (LEN + 2 * PAGE_SIZE)"
  shows "\<exists>r s'. kmem_mapper_init k13 k s = Some (r, s')
    \<and> (r, held s') =
       (if register_ret k < 0 then (register_ret k, {}, [Region devno])
        else if cdev_add_ret k < 0 then (cdev_add_ret k, {Region devno}, [])
        else if p = 0 then (- 1, {Region devno, Device}, [])
        else (0, {Region devno, Device, Block p, Reserved_page (mwmon_mmap_area (areas s'))}, []))"
proof -
  have p: "p = kmalloc_fn k 12288" by (simp add: p_def kmem_consts)
  consider "register_ret k < 0" | "0 \<le> register_ret k" "cdev_add_ret k < 0"
    | "0 \<le> register_ret k" "0 \<le> cdev_add_ret k" "p = 0" | "0 \<le> register_ret k" "0 \<le> cdev_add_ret k" "p \<noteq> 0"
    by linarith
  then show ?thesis
  proof cases
    case 1
    then show ?thesis by (simp add: init_register_fails held_def assms(2))
  next
    case 2
    then show ?thesis by (simp add: init_cdev_fails held_def assms(2))
  next
    case 3
    then show ?thesis by (auto simp: init_kmalloc_fails held_def assms(2) p)
  next
    case 4
    obtain s' where "kmem_mapper_init k13 k s = Some (0, s')" "mwmon_mmap_area (areas s') = page_up p"
      "trace s' = [Register_region devno (register_ret k), Cdev_init, Cdev_add devno (cdev_add_ret k),
        Kmalloc 12288 p, Set_reserved (page_up p)]"
      using init_succeeds [OF 4(1,2) p [symmetric] 4(3), of k13 s] block_room [OF assms(1)] 4(3) assms(2)
      unfolding p by (metis append_Nil)
    then show ?thesis using 4 by (auto simp: held_def)
  qed
qed

theorem kmem_init_outcomes_witness:
  "\<exists>s'. kmem_mapper_init False (willing_kernel\<lparr>register_ret := - 16\<rparr>) unloaded = Some (- 16, s') \<and> held s' = ({}, [Region devno])"
  using kmem_init_outcomes [of "willing_kernel\<lparr>register_ret := - 16\<rparr>" unloaded False] willing_kernel_allocator
  by (auto simp: unloaded_def willing_kernel_def)

text \<open>The file operations a loaded module answers, in any order.\<close>

datatype fop = F_open | F_release | F_mmap vm_area

fun file_op :: "kernel \<Rightarrow> fop \<Rightarrow> mapper \<Rightarrow> mapper" where
  "file_op k F_open s = snd (kmem_mapper_open s)"
| "file_op k F_release s = snd (kmem_mapper_release s)"
| "file_op k (F_mmap vma) s = snd (kmem_mapper_mmap k vma s)"

lemma file_op_keeps:
  "areas (file_op k f s) = areas s" "kmalloc_ptr (file_op k f s) = kmalloc_ptr s" "held (file_op k f s) = held s"
proof -
  show "areas (file_op k f s) = areas s" "kmalloc_ptr (file_op k f s) = kmalloc_ptr s"
    by (cases f; simp add: kmem_mapper_open_def kmem_mapper_release_def kmem_mapper_mmap_def Let_def)+
  obtain R bad where h: "fold hold (trace s) ({}, []) = (R, bad)" by fastforce
  show "held (file_op k f s) = held s"
    by (cases f) (simp_all add: kmem_mapper_open_def kmem_mapper_release_def kmem_mapper_mmap_def Let_def
        held_def h)
qed

lemma file_ops_keep:
  "areas (fold (file_op k) fs s) = areas s" "kmalloc_ptr (fold (file_op k) fs s) = kmalloc_ptr s"
  "held (fold (file_op k) fs s) = held s"
  by (induction fs arbitrary: s) (simp_all add: file_op_keeps)

text \<open>
  C17: after a successful load and any sequence of opens, closes and mappings of the
  device, unloading returns, releases everything the module acquired, and releases nothing else.
\<close>

theorem kmem_load_unload:
  assumes "allocator (kmalloc_fn k)" and "trace s = []" and "kmem_mapper_init k13 k s = Some (0, s')"
  shows "\<exists>s''. kmem_mapper_exit (fold (file_op k) fs s') = Some s'' \<and> held s'' = ({}, [])"
proof -
  let ?p = "kmalloc_fn k 12288"
  note z = init_zero [OF assms(1,3)]
  let ?t = "fold (file_op k) fs s'"
  have "held s' = ({Region devno, Device, Block ?p, Reserved_page (page_up ?p)}, [])"
    using z(1-3) by (auto simp: held_def z(9) assms(2))
  then have h: "fold hold (trace ?t) ({}, []) = ({Region devno, Device, Block ?p, Reserved_page (page_up ?p)}, [])"
    using file_ops_keep(3) [of k fs s'] by (simp add: held_def)
  have "unat (mwmon_mmap_area (areas ?t)) + 4096 < 2 ^ 64"
    using page_up_bounds [of ?p] z(4) by (simp add: file_ops_keep z(6))
  note pages = over_pages_once [OF this, of Clear_reserved]
  have e: "kmem_mapper_exit ?t = Some (calls [Kfree ?p, Cdev_del, Unregister_region devno]
      (?t\<lparr>virt_addr := page_up ?p + 4096, trace := trace ?t @ [Clear_reserved (page_up ?p)]\<rparr>))"
    using pages by (simp add: kmem_mapper_exit_def devno_def file_ops_keep z(5,6))
  have "fold hold [Clear_reserved (page_up ?p), Kfree ?p, Cdev_del, Unregister_region devno]
      ({Region devno, Device, Block ?p, Reserved_page (page_up ?p)}, []) = ({}, [])"
    by auto
  then show ?thesis using e h by (simp add: held_def)
qed

theorem kmem_load_unload_witness:
  "\<exists>s' s''. kmem_mapper_init True willing_kernel unloaded = Some (0, s')
     \<and> kmem_mapper_exit (fold (file_op willing_kernel) [F_open, F_mmap \<lparr>vm_start = 0, vm_end = 4096\<rparr>, F_release] s') = Some s''
     \<and> held s'' = ({}, [])"
proof -
  obtain s' where i: "kmem_mapper_init True willing_kernel unloaded = Some (0, s')"
    using willing_kernel_inits by blast
  show ?thesis
    using kmem_load_unload [OF willing_kernel_allocator _ i, of "[F_open, F_mmap \<lparr>vm_start = 0, vm_end = 4096\<rparr>, F_release]"] i
    by (fastforce simp: unloaded_def)
qed

section \<open>Opening the device while somebody sleeps\<close>

lemma run_stores_unarmed:
  assumes "armed (slp s) = None"
  shows "run (sleep_step p) s (map (\<lambda>(a, v). SStore a v) xs) = Some (s\<lparr>smem := store_all xs (smem s)\<rparr>)"
  using assms
proof (induction xs arbitrary: s)
  case (Cons x xs)
  have "sleep_step p s (SStore (fst x) (snd x)) = Some (s\<lparr>smem := (smem s)(fst x := snd x)\<rparr>)"
    using Cons.prems by (simp add: sleep_step_def saw_store_def)
  then show ?case using Cons.IH [of "s\<lparr>smem := (smem s)(fst x := snd x)\<rparr>"] Cons.prems
    by (simp add: split_beta store_all_def fun_upd_def)
qed (simp add: store_all_def)

text \<open>The stores of \<open>kmem_mapper_open\<close> are those of its loop.\<close>

lemma open_by_stores: "store_all (init_stores (areas d)) (kmem d) = kmem (snd (kmem_mapper_open d))"
  by (simp add: kmem_mapper_open_def init_regions_def)

text \<open>
  C40: \<open>kmem_mapper_open\<close> resets the regions of programs that are already using
  the device.  A thread sleeps in \<open>mwmon_mmap_sleep\<close> or \<open>mwmon_mmap_sleep2\<close> and is notified; before its processor looks at
  the byte, another process opens the device.  Whatever stores make up the change of memory that \<open>kmem_mapper_open\<close>
  makes, after them the notification is gone and the sleeper goes back to sleep.
\<close>

theorem open_erases_notification:
  assumes "(call, p) \<in> {(sys_mwmon_mmap_sleep (areas d), mwmon_mmap_area (areas d)),
      (sys_mwmon_mmap_sleep2 (areas d), mwmon_mmap_area2 (areas d))}"
    and "spc (slp s) = Asleep" and "armed (slp s) = Some p"
    and "kmem d = (smem s)(p := MWMON_NOTIFIED_VAL)"
    and "store_all xs (kmem d) = kmem (snd (kmem_mapper_open d))"
  shows "\<exists>t. run call s (SStore p MWMON_NOTIFIED_VAL # map (\<lambda>(a, v). SStore a v) xs @ replicate 6 SCpu) = Some t
      \<and> spc (slp t) = Asleep \<and> smem t p = MWMON_ORIGINAL_VAL"
proof -
  have c: "call = sleep_step p" and p: "p \<in> {mwmon_mmap_area (areas d), mwmon_mmap_area2 (areas d)}"
    using assms(1) by (auto simp: sys_mwmon_mmap_sleep_def sys_mwmon_mmap_sleep2_def)
  define u where "u = \<lparr>smem = kmem d, slp = (slp s)\<lparr>armed := None, spc := Recheck\<rparr>\<rparr>"
  have u: "sleep_step p s (SStore p MWMON_NOTIFIED_VAL) = Some u"
    using assms(2-4) by (simp add: sleep_step_def saw_store_def wake_def u_def)
  define v where "v = u\<lparr>smem := kmem (snd (kmem_mapper_open d))\<rparr>"
  have v: "run (sleep_step p) u (map (\<lambda>(a, v). SStore a v) xs) = Some v"
    using run_stores_unarmed [of u p xs] by (simp add: u_def v_def assms(5))
  have m: "smem v p = MWMON_ORIGINAL_VAL"
    using p by (auto simp: v_def kmem_mapper_open_def init_regions_mem)
  have "spc (slp v) = Recheck" by (simp add: v_def u_def)
  then have "\<exists>t. run (sleep_step p) v (replicate 6 SCpu) = Some t \<and> spc (slp t) = Asleep \<and> smem t p = MWMON_ORIGINAL_VAL"
    using m by (simp add: numeral_eq_Suc sleep_step_def sleep_cpu_def)
  then show ?thesis using u v by (simp add: c run_append)
qed

theorem open_erases_notification_witness:
  "\<exists>s t. run (sys_mwmon_mmap_sleep g0) (sleep_start (\<lambda>_. MWMON_ORIGINAL_VAL) None) (replicate 5 SCpu) = Some s
     \<and> run (sys_mwmon_mmap_sleep g0) s
        (SStore 4096 MWMON_NOTIFIED_VAL # map (\<lambda>(a, v). SStore a v) (init_stores g0) @ replicate 6 SCpu) = Some t
     \<and> spc (slp t) = Asleep"
proof -
  obtain s where s: "run (sys_mwmon_mmap_sleep g0) (sleep_start (\<lambda>_. MWMON_ORIGINAL_VAL) None) (replicate 5 SCpu) = Some s"
    "spc (slp s) = Asleep" "armed (slp s) = Some 4096"
    by (simp add: numeral_eq_Suc sys_mwmon_mmap_sleep_def sleep_eval)
  let ?d = "unloaded\<lparr>kmem := (smem s)(4096 := MWMON_NOTIFIED_VAL)\<rparr>"
  have g: "areas ?d = g0" "mwmon_mmap_area g0 = 4096" by (simp_all add: unloaded_def g0_def)
  show ?thesis
    using open_erases_notification [of "sys_mwmon_mmap_sleep g0" 4096 ?d s "init_stores g0"] s(2,3) g
      open_by_stores [of ?d] s(1) by auto
qed

end
