(* ===== verification/Thread_Programs.thy ===== *)
theory Thread_Programs
  imports Mwait_Kernel Cpu_Topology "HOL-Library.Sublist"
begin

text \<open>
  How the threads of a test program run together.  A thread is the list of what it still has to do; the calls
  that sleep in the kernel are executed statement by statement with the definitions of \<open>Mwait_Kernel\<close>,
  on a memory all threads share, and every store is seen by the processors that monitor its line.  Between the steps
  of the threads there may be interrupts, and stores of others to bytes nobody waits for.

  The sense barrier is taken at the level its own theorems give it (\<open>kmon_barrier_rounds\<close>,
  \<open>kmon_barrier_never_deadlocks\<close> of \<open>Barrier_Locked\<close>): a thread arrives, and passes when all have
  arrived as often as it has.
\<close>

section \<open>Threads and their steps\<close>

datatype kact =
    K_idle                      \<comment> \<open>printing, \<open>sleep(1)\<close>, a call the kernel does not know\<close>
  | K_mask_zero                 \<comment> \<open>\<open>MY_CPU_ZERO(&ta->cpuset)\<close>\<close>
  | K_mask_set int              \<comment> \<open>\<open>MY_CPU_SET(n, &ta->cpuset)\<close>\<close>
  | K_set_affinity
  | K_get_affinity
  | K_sleep addr                \<comment> \<open>a sleeping system call that watches this byte\<close>
  | K_wait addr bool u64        \<comment> \<open>\<open>sys_mwmon_mmap_spin_while_greater\<close>\<close>
  | K_store addr u8
  | K_lint u64                  \<comment> \<open>a store to the shared counter\<close>
  | K_switch addr               \<comment> \<open>the report on the value of a byte\<close>
  | K_barrier

record thread =
  todo :: "kact list"
  cpu :: sleeper          \<comment> \<open>\<open>spc\<close> is \<open>Done\<close> outside of a sleeping call\<close>
  waitpc :: wpc           \<comment> \<open>\<open>W_Done\<close> outside of \<open>sys_mwmon_mmap_spin_while_greater\<close>\<close>
  cpuset :: u64
  runs_on :: u64
  came :: nat             \<comment> \<open>arrivals at the barrier\<close>
  at_bar :: bool
  reports :: "u8 list"

record psys =
  pmem :: memory
  plint :: u64
  thr :: "nat \<Rightarrow> thread"

datatype plabel = PThread nat | PIrq nat bool | PStore addr u8

text \<open>What the processor of a thread makes of another's store, and of an interrupt.\<close>

definition woken :: "wpc \<Rightarrow> wpc" where
  "woken w = (if w = W_Asleep then W_Test else w)"

definition sees :: "addr \<Rightarrow> thread \<Rightarrow> thread" where
  "sees a th = (case armed (cpu th) of
     None \<Rightarrow> th
   | Some q \<Rightarrow> if same_line a q then th\<lparr>cpu := saw_store a (cpu th), waitpc := woken (waitpc th)\<rparr> else th)"

definition interrupted :: "bool \<Rightarrow> thread \<Rightarrow> thread" where
  "interrupted disarms th =
     th\<lparr>cpu := took_irq (disarms \<or> waitpc th = W_Asleep) (cpu th), waitpc := woken (waitpc th)\<rparr>"

definition put :: "nat \<Rightarrow> thread \<Rightarrow> psys \<Rightarrow> psys" where
  "put t th s = s\<lparr>thr := (thr s)(t := th)\<rparr>"

text \<open>A store by thread \<open>t\<close>, which all the others see.\<close>

definition stores :: "nat \<Rightarrow> addr \<Rightarrow> u8 \<Rightarrow> psys \<Rightarrow> psys" where
  "stores t a v s = s\<lparr>pmem := (pmem s)(a := v), thr := \<lambda>u. if u = t then thr s u else sees a (thr s u)\<rparr>"

text \<open>
  One step of a sleeping call, up to its return, and the same for the waiting call.  The only store of both is
  the last one, of the original value.
\<close>

definition sleep_in :: "nat \<Rightarrow> addr \<Rightarrow> kact list \<Rightarrow> psys \<Rightarrow> psys option" where
  "sleep_in t p rest s =
     (let th = thr s t in
      if spc (cpu th) = Done then Some (put t (th\<lparr>cpu := (cpu th)\<lparr>spc := Irq_Off, irqs := True\<rparr>\<rparr>) s)
      else case sleep_cpu p (pmem s) (cpu th) of
        None \<Rightarrow> None
      | Some (m, c) \<Rightarrow>
          if spc c = Done then Some (stores t p (m p) (put t (th\<lparr>cpu := c, todo := rest\<rparr>) s))
          else Some (put t (th\<lparr>cpu := c\<rparr>) s))"

definition wait_in :: "nat \<Rightarrow> addr \<Rightarrow> bool \<Rightarrow> u64 \<Rightarrow> kact list \<Rightarrow> psys \<Rightarrow> psys option" where
  "wait_in t p early bound rest s =
     (let th = thr s t in
      if waitpc th = W_Done then Some (put t (th\<lparr>waitpc := W_Test, cpu := (cpu th)\<lparr>irqs := True\<rparr>\<rparr>) s)
      else case wait_cpu early p bound \<lparr>wmem = pmem s, lint = plint s, wpc = waitpc th,
          warmed = armed (cpu th), wirqs = irqs (cpu th)\<rparr> of
        None \<Rightarrow> None
      | Some w \<Rightarrow>
          let th = th\<lparr>waitpc := wpc w, cpu := (cpu th)\<lparr>armed := warmed w, irqs := wirqs w\<rparr>\<rparr> in
          if wpc w = W_Done then Some (stores t p (wmem w p) (put t (th\<lparr>todo := rest\<rparr>) s))
          else Some (put t th s))"

text \<open>The barrier initialized for \<open>n\<close>: the threads 0 to \<open>n\<close> - 1 have to arrive, so a count above the number of threads
  never lets anybody pass.\<close>

definition barrier_in :: "nat \<Rightarrow> nat \<Rightarrow> kact list \<Rightarrow> psys \<Rightarrow> psys option" where
  "barrier_in n t rest s =
     (let th = thr s t in
      if \<not> at_bar th then Some (put t (th\<lparr>at_bar := True, came := came th + 1\<rparr>) s)
      else if list_all (\<lambda>u. came th \<le> came (thr s u)) [0..<n]
      then Some (put t (th\<lparr>at_bar := False, todo := rest\<rparr>) s)
      else None)"

text \<open>A thread's next step, with a barrier for \<open>n\<close> threads.\<close>

definition act_step :: "nat \<Rightarrow> nat \<Rightarrow> psys \<Rightarrow> psys option" where
  "act_step n t s =
     (let th = thr s t in case todo th of
        [] \<Rightarrow> None
      | a # rest \<Rightarrow>
          let th' = th\<lparr>todo := rest\<rparr> in
          (case a of
             K_idle \<Rightarrow> Some (put t th' s)
           | K_mask_zero \<Rightarrow> Some (put t (th'\<lparr>cpuset := MY_CPU_ZERO (cpuset th)\<rparr>) s)
           | K_mask_set c \<Rightarrow> map_option (\<lambda>m. put t (th'\<lparr>cpuset := m\<rparr>) s) (MY_CPU_SET c (cpuset th))
           | K_set_affinity \<Rightarrow> Some (put t (th'\<lparr>runs_on := cpuset th\<rparr>) s)
           | K_get_affinity \<Rightarrow> Some (put t (th'\<lparr>cpuset := runs_on th\<rparr>) s)
           | K_sleep p \<Rightarrow> sleep_in t p rest s
           | K_wait p early bound \<Rightarrow> wait_in t p early bound rest s
           | K_store p v \<Rightarrow> Some (stores t p v (put t th' s))
           | K_lint v \<Rightarrow> Some ((put t th' s)\<lparr>plint := v\<rparr>)
           | K_switch p \<Rightarrow> Some (put t (th'\<lparr>reports := reports th @ [pmem s p]\<rparr>) s)
           | K_barrier \<Rightarrow> barrier_in n t rest s))"

text \<open>
  A step of a program with \<open>n\<close> threads and a barrier that was initialized for \<open>b\<close>.  \<open>w\<close> lists the bytes that only the
  program itself writes: stores of others (a second open of the device, \<open>notify_memory\<close>) go to other bytes.
\<close>

definition prog_step :: "nat \<Rightarrow> nat \<Rightarrow> addr list \<Rightarrow> psys \<Rightarrow> plabel \<Rightarrow> psys option" where
  "prog_step b n w s l = (case l of
     PThread t \<Rightarrow> if t < n then act_step b t s else None
   | PIrq t disarms \<Rightarrow>
       if t < n \<and> irqs (cpu (thr s t)) then Some (put t (interrupted disarms (thr s t)) s) else None
   | PStore a v \<Rightarrow>
       if a \<in> set w then None else Some (s\<lparr>pmem := (pmem s)(a := v), thr := \<lambda>u. sees a (thr s u)\<rparr>))"

text \<open>The same where the barrier is for all the threads of the program.\<close>

definition psys_step :: "nat \<Rightarrow> addr list \<Rightarrow> psys \<Rightarrow> plabel \<Rightarrow> psys option" where
  "psys_step n = prog_step n n"

lemmas psys_defs = psys_step_def prog_step_def

text \<open>Threads as they are created, with the masks \<open>main\<close> may have given them.\<close>

definition new_thread :: "kact list \<Rightarrow> u64 \<Rightarrow> u64 \<Rightarrow> thread" where
  "new_thread prog mask0 all =
     \<lparr>todo = prog, cpu = \<lparr>spc = Done, armed = None, irqs = True\<rparr>, waitpc = W_Done, cpuset = mask0, runs_on = all,
      came = 0, at_bar = False, reports = []\<rparr>"

definition launch :: "memory \<Rightarrow> u64 \<Rightarrow> kact list list \<Rightarrow> u64 list \<Rightarrow> u64 \<Rightarrow> psys" where
  "launch m l progs masks all =
     \<lparr>pmem = m, plint = l,
      thr = \<lambda>t. if t < length progs then new_thread (progs ! t) (masks ! t) all else new_thread [] 0 all\<rparr>"

definition all_done :: "nat \<Rightarrow> psys \<Rightarrow> bool" where
  "all_done n s \<longleftrightarrow> (\<forall>t<n. todo (thr s t) = [])"

end
