(* ===== verification/Thread_Progress.thy ===== *)
theory Thread_Progress
  imports Thread_Programs
begin

text \<open>
  What holds of every test program whose notifications are paired with its sleeping calls: no interleaving
  brings it into a state it cannot finish from, and its reports are what they should be.  The condition on the
  programs (\<open>well_paired\<close>) is computed.
\<close>

section \<open>The steps of a thread by their effect\<close>

lemma sees_keeps [simp]:
  "todo (sees a th) = todo th" "came (sees a th) = came th" "at_bar (sees a th) = at_bar th"
  "reports (sees a th) = reports th" "cpuset (sees a th) = cpuset th" "runs_on (sees a th) = runs_on th"
  by (simp_all add: sees_def split: option.split)

lemma interrupted_keeps [simp]:
  "todo (interrupted d th) = todo th" "came (interrupted d th) = came th" "at_bar (interrupted d th) = at_bar th"
  "reports (interrupted d th) = reports th" "cpuset (interrupted d th) = cpuset th"
  "runs_on (interrupted d th) = runs_on th"
  by (simp_all add: interrupted_def)

lemma put_simps [simp]:
  "pmem (put t th s) = pmem s" "plint (put t th s) = plint s" "thr (put t th s) = (thr s)(t := th)"
  by (simp_all add: put_def)

lemma stores_simps [simp]:
  "pmem (stores t a v s) = (pmem s)(a := v)" "plint (stores t a v s) = plint s"
  "thr (stores t a v s) u = (if u = t then thr s u else sees a (thr s u))"
  by (simp_all add: stores_def)

text \<open>A thread is in a call only while that call is the next thing it has to do.\<close>

definition th_ok :: "memory \<Rightarrow> thread \<Rightarrow> bool" where
  "th_ok m th \<longleftrightarrow>
     (spc (cpu th) \<noteq> Done \<longrightarrow> (\<exists>p rest. todo th = K_sleep p # rest \<and> sleep_inv p \<lparr>smem = m, slp = cpu th\<rparr>))
   \<and> (waitpc th \<noteq> W_Done \<longrightarrow> (\<exists>p e c rest. todo th = K_wait p e c # rest)
        \<and> (waitpc th \<in> {W_Check, W_Mwait, W_Asleep} \<longrightarrow> irqs (cpu th)))
   \<and> (at_bar th \<longrightarrow> (\<exists>rest. todo th = K_barrier # rest))"

definition stays :: "thread \<Rightarrow> thread \<Rightarrow> bool" where
  "stays th th' \<longleftrightarrow> todo th' = todo th \<and> reports th' = reports th
     \<and> (came th' = came th \<and> at_bar th' = at_bar th
        \<or> \<not> at_bar th \<and> at_bar th' \<and> came th' = Suc (came th) \<and> (\<exists>rest. todo th = K_barrier # rest))"

definition goes :: "kact \<Rightarrow> nat \<Rightarrow> psys \<Rightarrow> thread \<Rightarrow> thread \<Rightarrow> bool" where
  "goes a n s th th' \<longleftrightarrow> todo th = a # todo th' \<and> came th' = came th \<and> \<not> at_bar th'
     \<and> reports th' = (case a of K_switch p \<Rightarrow> reports th @ [pmem s p] | _ \<Rightarrow> reports th)
     \<and> (if a = K_barrier then at_bar th \<and> (\<forall>u<n. came th \<le> came (thr s u)) else \<not> at_bar th)"

fun is_giver :: "kact \<Rightarrow> bool" where
  "is_giver (K_store p v) = True"
| "is_giver (K_lint v) = True"
| "is_giver _ = False"

fun is_taker :: "kact \<Rightarrow> bool" where
  "is_taker (K_sleep p) = True"
| "is_taker (K_wait p e c) = True"
| "is_taker _ = False"

lemma th_ok_done:
  "spc (cpu th) = Done \<Longrightarrow> waitpc th = W_Done \<Longrightarrow> \<not> at_bar th \<Longrightarrow> th_ok m th"
  by (simp add: th_ok_def)

lemma th_ok_heads:
  assumes "th_ok m th" and "todo th = a # rest"
  shows "(\<forall>p. a \<noteq> K_sleep p) \<Longrightarrow> spc (cpu th) = Done" and "(\<forall>p e c. a \<noteq> K_wait p e c) \<Longrightarrow> waitpc th = W_Done"
    and "a \<noteq> K_barrier \<Longrightarrow> \<not> at_bar th"
  using assms by (auto simp: th_ok_def)

lemma sleep_in_result:
  assumes "sleep_in t p rest s = Some s'" and "th_ok (pmem s) (thr s t)" and "todo (thr s t) = K_sleep p # rest"
  shows "(\<exists>c. s' = put t ((thr s t)\<lparr>cpu := c\<rparr>) s \<and> sleep_inv p \<lparr>smem = pmem s, slp = c\<rparr>)
    \<or> (\<exists>c. s' = stores t p MWMON_ORIGINAL_VAL (put t ((thr s t)\<lparr>cpu := c, todo := rest\<rparr>) s)
         \<and> spc c = Done \<and> spc (cpu (thr s t)) = Restore)"
proof (cases "spc (cpu (thr s t)) = Done")
  case True
  then show ?thesis using assms(1) by (auto simp: sleep_in_def sleep_inv_def Let_def)
next
  case False
  have i: "sleep_inv p \<lparr>smem = pmem s, slp = cpu (thr s t)\<rparr>"
    using False assms(2,3) by (auto simp: th_ok_def)
  obtain m c where mc: "sleep_cpu p (pmem s) (cpu (thr s t)) = Some (m, c)"
    using assms(1) False by (auto simp: sleep_in_def Let_def split: option.splits)
  have i': "sleep_inv p \<lparr>smem = m, slp = c\<rparr>"
    by (rule sleep_inv_step [OF i, of SCpu]) (simp add: sleep_step_def mc)
  show ?thesis
  proof (cases "spc c = Done")
    case True
    then have "spc (cpu (thr s t)) = Restore \<and> m p = MWMON_ORIGINAL_VAL"
      using mc False by (cases "spc (cpu (thr s t))") (auto simp: sleep_cpu_def split: if_splits)
    then show ?thesis using assms(1) False mc True by (auto simp: sleep_in_def Let_def)
  next
    case nd: False
    then have "m = pmem s" using mc False by (cases "spc (cpu (thr s t))") (auto simp: sleep_cpu_def)
    then show ?thesis using assms(1) False mc nd i' by (auto simp: sleep_in_def Let_def)
  qed
qed

lemma wait_cpu_inside:
  assumes "wait_cpu e p b ws = Some w" and "wpc ws \<notin> {W_Restore, W_Done}"
    and "wpc ws \<in> {W_Check, W_Mwait, W_Asleep} \<longrightarrow> wirqs ws"
  shows "wpc w \<noteq> W_Done \<and> (wpc w \<in> {W_Check, W_Mwait, W_Asleep} \<longrightarrow> wirqs w)"
  using assms by (cases "wpc ws") (auto simp: wait_cpu_def split: if_splits)

lemma wait_in_result:
  assumes "wait_in t p e b rest s = Some s'" and "waitpc (thr s t) \<in> {W_Check, W_Mwait, W_Asleep} \<longrightarrow> irqs (cpu (thr s t))"
  shows "(\<exists>c w. s' = put t ((thr s t)\<lparr>waitpc := w, cpu := c\<rparr>) s \<and> spc c = spc (cpu (thr s t))
        \<and> (w \<in> {W_Check, W_Mwait, W_Asleep} \<longrightarrow> irqs c))
    \<or> (\<exists>c. s' = stores t p MWMON_ORIGINAL_VAL (put t ((thr s t)\<lparr>waitpc := W_Done, cpu := c, todo := rest\<rparr>) s)
         \<and> spc c = spc (cpu (thr s t)))"
proof -
  let ?ws = "\<lparr>wmem = pmem s, lint = plint s, wpc = waitpc (thr s t), warmed = armed (cpu (thr s t)),
    wirqs = irqs (cpu (thr s t))\<rparr>"
  consider "waitpc (thr s t) = W_Restore" | "waitpc (thr s t) = W_Done" | "waitpc (thr s t) \<notin> {W_Restore, W_Done}"
    by auto
  then show ?thesis
  proof cases
    case 1
    then have "s' = stores t p MWMON_ORIGINAL_VAL (put t ((thr s t)\<lparr>waitpc := W_Done,
        cpu := (cpu (thr s t))\<lparr>armed := armed (cpu (thr s t)), irqs := irqs (cpu (thr s t))\<rparr>, todo := rest\<rparr>) s)"
      using assms(1) by (simp add: wait_in_def wait_cpu_def Let_def)
    then show ?thesis by (intro disjI2 exI conjI) simp_all
  next
    case 2
    then have "s' = put t ((thr s t)\<lparr>waitpc := W_Test, cpu := (cpu (thr s t))\<lparr>irqs := True\<rparr>\<rparr>) s"
      using assms(1) by (simp add: wait_in_def Let_def)
    then show ?thesis
      by (intro disjI1 exI [of _ "(cpu (thr s t))\<lparr>irqs := True\<rparr>"] exI [of _ W_Test]) simp
  next
    case 3
    obtain w where w: "wait_cpu e p b ?ws = Some w"
      using assms(1) 3 by (auto simp: wait_in_def Let_def split: option.splits)
    have i: "wpc w \<noteq> W_Done \<and> (wpc w \<in> {W_Check, W_Mwait, W_Asleep} \<longrightarrow> wirqs w)"
      by (rule wait_cpu_inside [OF w]) (use 3 assms(2) in auto)
    then have "s' = put t ((thr s t)\<lparr>waitpc := wpc w, cpu := (cpu (thr s t))\<lparr>armed := warmed w, irqs := wirqs w\<rparr>\<rparr>) s"
      using assms(1) 3 w by (auto simp: wait_in_def Let_def)
    then show ?thesis using i
      by (intro disjI1 exI [of _ "(cpu (thr s t))\<lparr>armed := warmed w, irqs := wirqs w\<rparr>"] exI [of _ "wpc w"]) simp
  qed
qed

lemma th_ok_returned:
  assumes "th_ok m th" and "todo th = a # rest" and "spc c = Done" and "w = W_Done" and "a \<noteq> K_barrier"
  shows "th_ok m' (th\<lparr>waitpc := w, cpu := c, todo := rest\<rparr>)"
  using assms th_ok_heads(3) [OF assms(1,2)] by (simp add: th_ok_def)

text \<open>What a step of thread \<open>t\<close> is: private, a store that the others see, or a store to the counter.\<close>

lemma act_step_result:
  assumes "act_step n t s = Some s'" and ok: "th_ok (pmem s) (thr s t)"
  obtains (own) th' where "s' = put t th' s" and "th_ok (pmem s) th'"
      and "stays (thr s t) th' \<or> (\<exists>a. goes a n s (thr s t) th' \<and> \<not> is_giver a \<and> \<not> is_taker a)"
    | (store) th' p v a where "s' = stores t p v (put t th' s)" and "\<And>m. th_ok m th'" and "goes a n s (thr s t) th'"
      and "a = K_store p v \<or> v = MWMON_ORIGINAL_VAL \<and>
          (a = K_sleep p \<and> spc (cpu (thr s t)) = Restore \<or> (\<exists>e c. a = K_wait p e c))"
    | (lint) th' v where "s' = (put t th' s)\<lparr>plint := v\<rparr>" and "th_ok (pmem s) th'" and "goes (K_lint v) n s (thr s t) th'"
proof -
  let ?th = "thr s t"
  obtain a rest where todo: "todo ?th = a # rest"
    using assms(1) by (auto simp: act_step_def Let_def split: list.splits)
  note heads = th_ok_heads [OF ok todo]
  have simple: thesis if "s' = put t th' s" "todo th' = rest" "came th' = came ?th" "at_bar th' = at_bar ?th"
      "spc (cpu th') = spc (cpu ?th)" "waitpc th' = waitpc ?th" "\<not> is_giver a" "\<not> is_taker a" "a \<noteq> K_barrier"
      "reports th' = (case a of K_switch p \<Rightarrow> reports ?th @ [pmem s p] | _ \<Rightarrow> reports ?th)" for th'
  proof (rule own [OF that(1)])
    have h: "spc (cpu ?th) = Done" "waitpc ?th = W_Done" "\<not> at_bar ?th"
      using heads that(7-9) by (cases a; simp)+
    then show "th_ok (pmem s) th'" using that(2-6) by (intro th_ok_done) simp_all
    show "stays ?th th' \<or> (\<exists>a. goes a n s ?th th' \<and> \<not> is_giver a \<and> \<not> is_taker a)"
      using that h todo by (auto simp: goes_def intro!: disjI2 exI [of _ a])
  qed
  note e = assms(1)[unfolded act_step_def Let_def todo, simplified]
  show thesis
  proof (cases a)
    case K_idle then show ?thesis using e by (intro simple [of "?th\<lparr>todo := rest\<rparr>"]) auto
  next
    case K_mask_zero then show ?thesis using e by (intro simple [of "?th\<lparr>todo := rest, cpuset := MY_CPU_ZERO (cpuset ?th)\<rparr>"]) auto
  next
    case (K_mask_set c)
    then obtain m where "s' = put t (?th\<lparr>todo := rest, cpuset := m\<rparr>) s" using e by auto
    then show ?thesis using K_mask_set by (intro simple [of "?th\<lparr>todo := rest, cpuset := m\<rparr>"]) auto
  next
    case K_set_affinity then show ?thesis using e by (intro simple [of "?th\<lparr>todo := rest, runs_on := cpuset ?th\<rparr>"]) auto
  next
    case K_get_affinity then show ?thesis using e by (intro simple [of "?th\<lparr>todo := rest, cpuset := runs_on ?th\<rparr>"]) auto
  next
    case (K_switch p) then show ?thesis using e by (intro simple [of "?th\<lparr>todo := rest, reports := reports ?th @ [pmem s p]\<rparr>"]) auto
  next
    case (K_sleep p)
    have h: "waitpc ?th = W_Done" "\<not> at_bar ?th" using heads K_sleep by auto
    have "sleep_in t p rest s = Some s'" using e K_sleep by simp
    from sleep_in_result [OF this ok todo [unfolded K_sleep]] show ?thesis
    proof (elim disjE exE conjE)
      fix c assume "s' = put t (?th\<lparr>cpu := c\<rparr>) s" "sleep_inv p \<lparr>smem = pmem s, slp = c\<rparr>"
      then show ?thesis using h todo K_sleep by (intro own [of "?th\<lparr>cpu := c\<rparr>"]) (auto simp: th_ok_def stays_def)
    next
      fix c assume c: "s' = stores t p MWMON_ORIGINAL_VAL (put t (?th\<lparr>cpu := c, todo := rest\<rparr>) s)" "spc c = Done"
        "spc (cpu ?th) = Restore"
      show ?thesis
      proof (rule store [OF c(1), of a])
        show "th_ok m (?th\<lparr>cpu := c, todo := rest\<rparr>)" for m using c(2) h by (intro th_ok_done) simp_all
      qed (use K_sleep todo h c(3) in \<open>auto simp: goes_def\<close>)
    qed
  next
    case (K_wait p eb b)
    have h: "spc (cpu ?th) = Done" "\<not> at_bar ?th" using heads K_wait by auto
    have w: "wait_in t p eb b rest s = Some s'" using e K_wait by simp
    have "waitpc ?th \<in> {W_Check, W_Mwait, W_Asleep} \<longrightarrow> irqs (cpu ?th)"
      using ok by (auto simp: th_ok_def)
    from wait_in_result [OF w this] show ?thesis
    proof (elim disjE exE conjE)
      fix c w assume "s' = put t (?th\<lparr>waitpc := w, cpu := c\<rparr>) s" "spc c = spc (cpu ?th)"
        "w \<in> {W_Check, W_Mwait, W_Asleep} \<longrightarrow> irqs c"
      then show ?thesis using h todo K_wait by (intro own [of "?th\<lparr>waitpc := w, cpu := c\<rparr>"]) (auto simp: th_ok_def stays_def)
    next
      fix c assume c: "s' = stores t p MWMON_ORIGINAL_VAL (put t (?th\<lparr>waitpc := W_Done, cpu := c, todo := rest\<rparr>) s)"
        "spc c = spc (cpu ?th)"
      show ?thesis
      proof (rule store [OF c(1), of a])
        show "th_ok m (?th\<lparr>waitpc := W_Done, cpu := c, todo := rest\<rparr>)" for m
          using c(2) h by (intro th_ok_done) simp_all
      qed (use K_wait todo h in \<open>auto simp: goes_def\<close>)
    qed
  next
    case (K_store p v)
    have h: "spc (cpu ?th) = Done" "waitpc ?th = W_Done" "\<not> at_bar ?th" using heads K_store by auto
    show ?thesis
    proof (rule store [of p v "?th\<lparr>todo := rest\<rparr>" a])
      show "th_ok m (?th\<lparr>todo := rest\<rparr>)" for m using h by (intro th_ok_done) simp_all
    qed (use K_store todo h e in \<open>auto simp: goes_def\<close>)
  next
    case (K_lint v)
    have h: "spc (cpu ?th) = Done" "waitpc ?th = W_Done" "\<not> at_bar ?th" using heads K_lint by auto
    show ?thesis
    proof (rule lint [of v "?th\<lparr>todo := rest\<rparr>"])
      show "th_ok (pmem s) (?th\<lparr>todo := rest\<rparr>)" using h by (intro th_ok_done) simp_all
    qed (use K_lint todo h e in \<open>auto simp: goes_def\<close>)
  next
    case K_barrier
    have h: "spc (cpu ?th) = Done" "waitpc ?th = W_Done" using heads K_barrier by auto
    have b: "barrier_in n t rest s = Some s'" using e K_barrier by simp
    show ?thesis
    proof (cases "at_bar ?th")
      case False
      then have "s' = put t (?th\<lparr>at_bar := True, came := came ?th + 1\<rparr>) s" using b by (simp add: barrier_in_def Let_def)
      then show ?thesis using h todo K_barrier False
        by (intro own [of "?th\<lparr>at_bar := True, came := came ?th + 1\<rparr>"]) (auto simp: th_ok_def stays_def)
    next
      case True
      then have "s' = put t (?th\<lparr>at_bar := False, todo := rest\<rparr>) s" "\<forall>u<n. came ?th \<le> came (thr s u)"
        using b by (auto simp: barrier_in_def Let_def list_all_iff split: if_splits)
      then show ?thesis using h todo K_barrier True
        by (intro own [of "?th\<lparr>at_bar := False, todo := rest\<rparr>"])
          (auto simp: th_ok_def goes_def intro!: disjI2 exI [of _ K_barrier])
    qed
  qed
qed

section \<open>Programs whose notifications are paired\<close>

definition nbar :: "kact list \<Rightarrow> nat" where
  "nbar xs = count_list xs K_barrier"

text \<open>Every action with the number of barriers behind it: the round it belongs to, from the end.\<close>

fun marks :: "kact list \<Rightarrow> (kact \<times> nat) list" where
  "marks [] = []"
| "marks (a # xs) = (a, nbar xs) # marks xs"

fun slept_on :: "kact \<Rightarrow> addr list" where
  "slept_on (K_sleep p) = [p]"
| "slept_on _ = []"

fun lint_of :: "kact \<Rightarrow> u64 list" where
  "lint_of (K_lint v) = [v]"
| "lint_of _ = []"

definition sleeps :: "kact list \<Rightarrow> addr list" where
  "sleeps xs = concat (map slept_on xs)"

definition lints :: "kact list \<Rightarrow> u64 list" where
  "lints xs = concat (map lint_of xs)"

text \<open>
  No byte is slept on twice; all threads meet at the same number of barriers; nobody both gives and takes;
  for every sleep there is a store of the notified value in the same round and in no earlier one, and no
  waiting call, which resets the byte, in the same round or an earlier one; where a call waits for the counter,
  somebody raises it, to a value that ends the wait, and not in an earlier round; only the program stores to the
  bytes it sleeps on.
\<close>

definition mark_ok :: "addr list \<Rightarrow> kact list list \<Rightarrow> (kact \<times> nat) list \<Rightarrow> kact \<times> nat \<Rightarrow> bool" where
  "mark_ok w progs ms = (\<lambda>(a, b). case a of
     K_sleep p \<Rightarrow> p \<in> set w \<and> list_ex (\<lambda>(a', b'). a' = K_store p MWMON_NOTIFIED_VAL \<and> b' = b) ms
       \<and> list_all (\<lambda>(a', b'). case a' of K_store q v \<Rightarrow> q = p \<longrightarrow> v = MWMON_NOTIFIED_VAL \<and> b' \<ge> b
           | K_wait q e c \<Rightarrow> b' < b | _ \<Rightarrow> True) ms
   | K_wait q e c \<Rightarrow> list_ex (\<lambda>xs. lints xs \<noteq> []) progs
       \<and> list_all (\<lambda>xs. lints xs \<noteq> [] \<longrightarrow> sint c \<le> sint (last (lints xs))) progs
       \<and> list_all (\<lambda>(a', b'). case a' of K_lint v \<Rightarrow> b' \<ge> b | _ \<Rightarrow> True) ms
   | K_mask_set c \<Rightarrow> 0 \<le> c \<and> c < 32
   | _ \<Rightarrow> True)"

definition well_paired :: "addr list \<Rightarrow> kact list list \<Rightarrow> bool" where
  "well_paired w progs \<longleftrightarrow>
     distinct (sleeps (concat progs))
   \<and> list_all (\<lambda>xs. nbar xs = nbar (hd progs)) progs
   \<and> list_all (\<lambda>xs. list_all (Not \<circ> is_giver) xs \<or> list_all (Not \<circ> is_taker) xs) progs
   \<and> (let ms = concat (map marks progs) in list_all (mark_ok w progs ms) ms)"

lemma nbar_simps [simp]:
  "nbar [] = 0" "nbar (a # xs) = of_bool (a = K_barrier) + nbar xs" "nbar (xs @ ys) = nbar xs + nbar ys"
  by (simp_all add: nbar_def)

lemma lints_simps [simp]: "lints [] = []" "lints (a # xs) = lint_of a @ lints xs" "lints (xs @ ys) = lints xs @ lints ys"
  by (simp_all add: lints_def)

lemma sleeps_simps [simp]:
  "sleeps [] = []" "sleeps (a # xs) = slept_on a @ sleeps xs" "sleeps (xs @ ys) = sleeps xs @ sleeps ys"
  by (simp_all add: sleeps_def)

lemma in_slept_on [simp]: "p \<in> set (slept_on a) \<longleftrightarrow> a = K_sleep p"
  by (cases a) auto

lemma in_lint_of [simp]: "v \<in> set (lint_of a) \<longleftrightarrow> a = K_lint v"
  by (cases a) auto

lemma set_sleeps: "p \<in> set (sleeps xs) \<longleftrightarrow> K_sleep p \<in> set xs"
  by (induction xs) auto

lemma set_lints: "v \<in> set (lints xs) \<longleftrightarrow> K_lint v \<in> set xs"
  by (induction xs) auto

lemma marks_append: "set (marks ys) \<subseteq> set (marks (xs @ ys))"
  by (induction xs) auto

lemma suffix_marks: "suffix ys xs \<Longrightarrow> set (marks ys) \<subseteq> set (marks xs)"
  using marks_append by (auto simp: suffix_def)

lemma marks_fst: "a \<in> set xs \<longleftrightarrow> (\<exists>b. (a, b) \<in> set (marks xs))"
  by (induction xs) auto

lemma marks_le: "(a, b) \<in> set (marks xs) \<Longrightarrow> b \<le> nbar xs"
  by (induction xs) auto

lemma marks_le_barrier: "(a, b) \<in> set (marks (K_barrier # xs)) \<Longrightarrow> a \<noteq> K_barrier \<Longrightarrow> Suc b \<le> nbar (K_barrier # xs)"
  using marks_le [of a b xs] by auto

lemma suffix_lints: "suffix ys xs \<Longrightarrow> lints ys \<noteq> [] \<Longrightarrow> last (lints ys) = last (lints xs)"
  by (auto simp: suffix_def)

lemma suffix_tl: "suffix (a # ys) xs \<Longrightarrow> suffix ys xs"
  by (metis append_Cons append_assoc append_Nil suffix_def)

text \<open>Whether programs are well paired depends on their actions other than \<open>K_idle\<close> only.\<close>

definition essence :: "kact list \<Rightarrow> kact list" where
  "essence xs = filter (\<lambda>a. a \<noteq> K_idle) xs"

lemma essence_simps [simp]:
  "essence [] = []" "essence (a # xs) = (if a = K_idle then essence xs else a # essence xs)"
  "essence (xs @ ys) = essence xs @ essence ys"
  by (simp_all add: essence_def)

lemma essence_same [simp]:
  "nbar (essence xs) = nbar xs" "sleeps (essence xs) = sleeps xs" "lints (essence xs) = lints xs"
  by (induction xs) simp_all

lemma essence_all: "\<not> P K_idle \<Longrightarrow> list_all (Not \<circ> P) (essence xs) = list_all (Not \<circ> P) xs"
  by (auto simp: essence_def list_all_iff)

lemma essence_mark: "m \<in> set (marks (essence xs)) \<longleftrightarrow> m \<in> set (marks xs) \<and> fst m \<noteq> K_idle"
proof (induction xs)
  case (Cons a xs)
  then show ?case by (cases "a = K_idle"; cases m) auto
qed simp

lemma essence_marks: "set (marks (essence xs)) = {m \<in> set (marks xs). fst m \<noteq> K_idle}"
  using essence_mark by blast

lemma sleeps_concat: "sleeps (concat progs) = concat (map sleeps progs)"
  by (induction progs) simp_all

lemma mark_ok_essence:
  assumes "{m \<in> set ms. fst m \<noteq> K_idle} = {m \<in> set ms'. fst m \<noteq> K_idle}"
    and "map lints progs = map lints progs'" and "mark_ok w progs ms m"
  shows "mark_ok w progs' ms' m"
proof -
  have all: "list_all P ms \<Longrightarrow> (\<And>b. P (K_idle, b)) \<Longrightarrow> list_all P ms'" for P
    using assms(1) unfolding list_all_iff by (metis (mono_tags, lifting) mem_Collect_eq prod.collapse)
  have ex: "list_ex P ms \<Longrightarrow> (\<And>b. \<not> P (K_idle, b)) \<Longrightarrow> list_ex P ms'" for P
    using assms(1) unfolding list_ex_iff by (metis (mono_tags, lifting) mem_Collect_eq prod.collapse)
  have l: "list_ex (\<lambda>xs. lints xs \<noteq> []) progs = list_ex (\<lambda>xs. lints xs \<noteq> []) progs'"
    "list_all (\<lambda>xs. lints xs \<noteq> [] \<longrightarrow> sint c \<le> sint (last (lints xs))) progs
      = list_all (\<lambda>xs. lints xs \<noteq> [] \<longrightarrow> sint c \<le> sint (last (lints xs))) progs'" for c
  proof -
    have "set (map lints progs) = set (map lints progs')" using assms(2) by simp
    then have s: "lints ` set progs = lints ` set progs'" by simp
    show "list_ex (\<lambda>xs. lints xs \<noteq> []) progs = list_ex (\<lambda>xs. lints xs \<noteq> []) progs'"
      unfolding list_ex_iff using s by (metis (no_types, lifting) image_iff)
    show "list_all (\<lambda>xs. lints xs \<noteq> [] \<longrightarrow> sint c \<le> sint (last (lints xs))) progs
      = list_all (\<lambda>xs. lints xs \<noteq> [] \<longrightarrow> sint c \<le> sint (last (lints xs))) progs'"
      unfolding list_all_iff using s by (metis (no_types, lifting) image_iff)
  qed
  obtain a b where m: "m = (a, b)" by force
  show ?thesis
  proof (cases a)
    case (K_sleep p)
    then show ?thesis using assms(3) m all ex by (simp add: mark_ok_def)
  next
    case (K_wait q e c)
    then have w: "list_ex (\<lambda>xs. lints xs \<noteq> []) progs"
      "list_all (\<lambda>xs. lints xs \<noteq> [] \<longrightarrow> sint c \<le> sint (last (lints xs))) progs"
      "list_all (\<lambda>(a', b'). case a' of K_lint v \<Rightarrow> b \<le> b' | _ \<Rightarrow> True) ms"
      using assms(3) m by (simp_all add: mark_ok_def)
    show ?thesis
      using w(1)[unfolded l(1)] w(2)[unfolded l(2)] all [OF w(3)] by (simp add: K_wait m mark_ok_def)
  qed (use assms(3) m in \<open>simp_all add: mark_ok_def\<close>)
qed

lemma well_paired_essence:
  assumes "well_paired w (map essence progs)" and "progs \<noteq> []"
  shows "well_paired w progs"
proof -
  let ?ms = "concat (map marks progs)" and ?ms' = "concat (map marks (map essence progs))"
  have same: "{m \<in> set ?ms'. fst m \<noteq> K_idle} = {m \<in> set ?ms. fst m \<noteq> K_idle}"
    by (auto simp: essence_marks)
  have l: "map lints (map essence progs) = map lints progs" by simp
  have "list_all (mark_ok w progs ?ms) ?ms"
    unfolding list_all_iff
  proof
    fix m assume m: "m \<in> set ?ms"
    show "mark_ok w progs ?ms m"
    proof (cases "fst m = K_idle")
      case True
      then show ?thesis by (cases m) (simp add: mark_ok_def)
    next
      case False
      then have "m \<in> set ?ms'" using m same by blast
      then have "mark_ok w (map essence progs) ?ms' m"
        using assms(1) unfolding well_paired_def Let_def list_all_iff by blast
      then show ?thesis by (rule mark_ok_essence [OF same l])
    qed
  qed
  moreover have "distinct (sleeps (concat progs))"
    using assms(1) by (simp add: well_paired_def sleeps_concat o_def)
  moreover have "list_all (\<lambda>xs. nbar xs = nbar (hd progs)) progs"
    using assms by (simp add: well_paired_def list.pred_map o_def hd_map)
  moreover have "list_all (\<lambda>xs. list_all (Not \<circ> is_giver) xs \<or> list_all (Not \<circ> is_taker) xs) progs"
    using assms(1) essence_all [of is_giver] essence_all [of is_taker]
    by (simp add: well_paired_def list_all_iff)
  ultimately show ?thesis by (simp add: well_paired_def)
qed

section \<open>The invariant\<close>

definition coming :: "nat \<Rightarrow> memory \<Rightarrow> (nat \<Rightarrow> kact list) \<Rightarrow> bool" where
  "coming n m td \<longleftrightarrow> (\<forall>t<n. \<forall>p. K_sleep p \<in> set (td t) \<longrightarrow>
     m p = MWMON_NOTIFIED_VAL \<or> (\<exists>u<n. \<exists>v. K_store p v \<in> set (td u)))"

definition rising :: "nat \<Rightarrow> u64 \<Rightarrow> (nat \<Rightarrow> kact list) \<Rightarrow> bool" where
  "rising n l td \<longleftrightarrow> (\<exists>u<n. lints (td u) \<noteq> [])
     \<or> (\<forall>t<n. \<forall>p e c. K_wait p e c \<in> set (td t) \<longrightarrow> sint c \<le> sint l)"

definition rounds_ok :: "kact list list \<Rightarrow> (nat \<Rightarrow> thread) \<Rightarrow> bool" where
  "rounds_ok progs th \<longleftrightarrow>
     (\<forall>t<length progs. suffix (todo (th t)) (progs ! t)
        \<and> came (th t) + nbar (todo (th t)) = nbar (progs ! t) + of_bool (at_bar (th t)))
   \<and> (\<forall>t<length progs. \<forall>u<length progs. came (th t) \<le> came (th u) + of_bool (at_bar (th t)))"

definition pinv :: "kact list list \<Rightarrow> psys \<Rightarrow> bool" where
  "pinv progs s \<longleftrightarrow> (\<forall>t<length progs. th_ok (pmem s) (thr s t)) \<and> rounds_ok progs (thr s)
     \<and> coming (length progs) (pmem s) (\<lambda>u. todo (thr s u)) \<and> rising (length progs) (plint s) (\<lambda>u. todo (thr s u))"

lemma th_ok_sees: "th_ok m th \<Longrightarrow> th_ok (m(a := v)) (sees a th)"
proof -
  assume ok: "th_ok m th"
  have wk: "saw_store a (cpu th) = cpu (sees a th)"
    by (simp add: sees_def saw_store_def split: option.split)
  have i: "sleep_inv p \<lparr>smem = m(a := v), slp = cpu (sees a th)\<rparr>" if "sleep_inv p \<lparr>smem = m, slp = cpu th\<rparr>" for p
    by (rule sleep_inv_step [OF that, of "SStore a v"]) (simp add: sleep_step_def wk)
  have d: "spc (cpu (sees a th)) \<noteq> Done \<Longrightarrow> spc (cpu th) \<noteq> Done"
    by (auto simp: sees_def saw_store_def wake_def split: option.splits if_splits)
  have w: "waitpc (sees a th) \<in> {waitpc th, woken (waitpc th)}" "irqs (cpu (sees a th)) = irqs (cpu th)"
    by (simp_all add: sees_def saw_store_def wake_def split: option.splits if_splits)
  show ?thesis
    using ok i d w unfolding th_ok_def sees_keeps by (auto simp: woken_def split: if_splits)
qed

lemma th_ok_interrupted:
  assumes "th_ok m th" and "irqs (cpu th)"
  shows "th_ok m (interrupted d th)"
proof -
  let ?d = "d \<or> waitpc th = W_Asleep"
  have i: "sleep_inv p \<lparr>smem = m, slp = took_irq ?d (cpu th)\<rparr>" if "sleep_inv p \<lparr>smem = m, slp = cpu th\<rparr>" for p
    by (rule sleep_inv_step [OF that, of "SIrq ?d"]) (simp add: sleep_step_def assms(2))
  have d: "spc (took_irq ?d (cpu th)) \<noteq> Done \<Longrightarrow> spc (cpu th) \<noteq> Done" "irqs (took_irq ?d (cpu th))"
    using assms(2) by (auto simp: took_irq_def wake_def split: if_splits)
  show ?thesis
    using assms(1) i d unfolding th_ok_def interrupted_def by (auto simp: woken_def split: if_splits)
qed

subsection \<open>What well-paired programs give\<close>

lemma in_all_marks: "x \<in> set (concat (map marks progs)) \<longleftrightarrow> (\<exists>u<length progs. x \<in> set (marks (progs ! u)))"
proof -
  have "x \<in> set (concat (map marks progs)) \<longleftrightarrow> (\<exists>xs\<in>set progs. x \<in> set (marks xs))" by simp
  also have "\<dots> \<longleftrightarrow> (\<exists>u<length progs. x \<in> set (marks (progs ! u)))"
    by (metis in_set_conv_nth)
  finally show ?thesis .
qed

lemma well_paired_mark:
  "well_paired w progs \<Longrightarrow> t < length progs \<Longrightarrow> (a, b) \<in> set (marks (progs ! t)) \<Longrightarrow>
     mark_ok w progs (concat (map marks progs)) (a, b)"
  unfolding well_paired_def Let_def list_all_iff using in_all_marks by blast

lemma paired_sleep:
  assumes "well_paired w progs" and "t < length progs" and "(K_sleep p, b) \<in> set (marks (progs ! t))"
  shows "p \<in> set w" and "\<exists>u<length progs. (K_store p MWMON_NOTIFIED_VAL, b) \<in> set (marks (progs ! u))"
    and "u < length progs \<Longrightarrow> (K_store p v, b') \<in> set (marks (progs ! u)) \<Longrightarrow> v = MWMON_NOTIFIED_VAL \<and> b \<le> b'"
    and "u < length progs \<Longrightarrow> (K_wait q e c, b') \<in> set (marks (progs ! u)) \<Longrightarrow> b' < b"
proof -
  let ?ms = "concat (map marks progs)"
  have m: "p \<in> set w" "list_ex (\<lambda>(a', b'). a' = K_store p MWMON_NOTIFIED_VAL \<and> b' = b) ?ms"
    "list_all (\<lambda>(a', b'). case a' of K_store q v \<Rightarrow> q = p \<longrightarrow> v = MWMON_NOTIFIED_VAL \<and> b' \<ge> b
           | K_wait q e c \<Rightarrow> b' < b | _ \<Rightarrow> True) ?ms"
    using well_paired_mark [OF assms] by (simp_all add: mark_ok_def)
  show "p \<in> set w" by (rule m(1))
  show "\<exists>u<length progs. (K_store p MWMON_NOTIFIED_VAL, b) \<in> set (marks (progs ! u))"
    using m(2) in_all_marks unfolding list_ex_iff by blast
  show "v = MWMON_NOTIFIED_VAL \<and> b \<le> b'" if "u < length progs" "(K_store p v, b') \<in> set (marks (progs ! u))"
    using m(3) that in_all_marks [of "(K_store p v, b')" progs] unfolding list_all_iff by fastforce
  show "b' < b" if "u < length progs" "(K_wait q e c, b') \<in> set (marks (progs ! u))"
    using m(3) that in_all_marks [of "(K_wait q e c, b')" progs] unfolding list_all_iff by fastforce
qed

lemma paired_wait:
  assumes "well_paired w progs" and "t < length progs" and "(K_wait q e c, b) \<in> set (marks (progs ! t))"
  shows "\<exists>u<length progs. lints (progs ! u) \<noteq> []"
    and "u < length progs \<Longrightarrow> lints (progs ! u) \<noteq> [] \<Longrightarrow> sint c \<le> sint (last (lints (progs ! u)))"
    and "u < length progs \<Longrightarrow> (K_lint v, b') \<in> set (marks (progs ! u)) \<Longrightarrow> b \<le> b'"
proof -
  let ?ms = "concat (map marks progs)"
  have m: "list_ex (\<lambda>xs. lints xs \<noteq> []) progs"
    "list_all (\<lambda>xs. lints xs \<noteq> [] \<longrightarrow> sint c \<le> sint (last (lints xs))) progs"
    "list_all (\<lambda>(a', b'). case a' of K_lint v \<Rightarrow> b' \<ge> b | _ \<Rightarrow> True) ?ms"
    using well_paired_mark [OF assms] by (simp_all add: mark_ok_def)
  show "\<exists>u<length progs. lints (progs ! u) \<noteq> []"
    using m(1) by (auto simp: list_ex_iff in_set_conv_nth)
  show "sint c \<le> sint (last (lints (progs ! u)))" if "u < length progs" "lints (progs ! u) \<noteq> []"
    using m(2) that by (auto simp: list_all_length)
  show "b \<le> b'" if "u < length progs" "(K_lint v, b') \<in> set (marks (progs ! u))"
    using m(3) that in_all_marks [of "(K_lint v, b')" progs] unfolding list_all_iff by fastforce
qed

lemma paired_mask:
  assumes "well_paired w progs" and "t < length progs" and "K_mask_set c \<in> set (progs ! t)"
  shows "0 \<le> c \<and> c < 32"
proof -
  obtain b where "(K_mask_set c, b) \<in> set (marks (progs ! t))" using assms(3) marks_fst by blast
  from well_paired_mark [OF assms(1,2) this] show ?thesis by (simp add: mark_ok_def)
qed

lemma paired_bars: "well_paired w progs \<Longrightarrow> t < length progs \<Longrightarrow> u < length progs \<Longrightarrow> nbar (progs ! t) = nbar (progs ! u)"
  by (auto simp: well_paired_def list_all_length)

lemma paired_roles:
  assumes "well_paired w progs" and "t < length progs" and "a \<in> set (progs ! t)" and "b \<in> set (progs ! t)"
    and "is_giver a"
  shows "\<not> is_taker b"
proof -
  have "list_all (Not \<circ> is_giver) (progs ! t) \<or> list_all (Not \<circ> is_taker) (progs ! t)"
    using assms(1,2) by (simp add: well_paired_def list_all_length)
  then show ?thesis using assms(3-5) by (auto simp: list_all_iff)
qed

lemma paired_once:
  assumes "well_paired w progs" and "t < length progs" and "u < length progs"
    and "suffix (K_sleep p # rest) (progs ! t)"
  shows "K_sleep p \<notin> set rest" and "u \<noteq> t \<Longrightarrow> K_sleep p \<notin> set (progs ! u)"
proof -
  have d: "distinct (concat (map sleeps progs))"
    using assms(1) by (simp add: well_paired_def sleeps_concat)
  obtain zs where zs: "progs ! t = zs @ K_sleep p # rest" using assms(4) by (auto simp: suffix_def)
  have "distinct (sleeps (progs ! t))"
    using d assms(2) by (simp add: distinct_concat_iff)
  then show "K_sleep p \<notin> set rest" by (simp add: zs set_sleeps)
  show "K_sleep p \<notin> set (progs ! u)" if "u \<noteq> t"
    using distinct_concat_index [OF d, of u t p] that assms(2,3) zs by (auto simp: set_sleeps)
qed

subsection \<open>Every step keeps the invariant\<close>

lemma rounds_cong:
  "(\<And>u. todo (th' u) = todo (th u) \<and> came (th' u) = came (th u) \<and> at_bar (th' u) = at_bar (th u)) \<Longrightarrow>
   rounds_ok progs th' = rounds_ok progs th"
  by (simp add: rounds_ok_def)

lemma rounds_stays:
  assumes "rounds_ok progs th" and "t < length progs" and "stays (th t) th'"
  shows "rounds_ok progs (th(t := th'))"
  unfolding rounds_ok_def
proof (intro conjI allI impI)
  fix u v assume u: "u < length progs" and v: "v < length progs"
  have o: "came (th a) \<le> came (th b) + of_bool (at_bar (th a))" if "a < length progs" "b < length progs" for a b
    using assms(1) that by (simp add: rounds_ok_def)
  show "came ((th(t := th')) u) \<le> came ((th(t := th')) v) + of_bool (at_bar ((th(t := th')) u))"
    using o [of u v] o [of t v] o [of u t] u v assms(2,3) by (auto simp: stays_def split: if_splits)
qed (use assms in \<open>auto simp: rounds_ok_def stays_def\<close>)

lemma rounds_goes:
  assumes "rounds_ok progs (thr s)" and "t < length progs" and "goes a (length progs) s (thr s t) th'"
  shows "rounds_ok progs ((thr s)(t := th'))"
  unfolding rounds_ok_def
proof (intro conjI allI impI)
  fix u v assume u: "u < length progs" and v: "v < length progs"
  have o: "came (thr s a) \<le> came (thr s b) + of_bool (at_bar (thr s a))" if "a < length progs" "b < length progs" for a b
    using assms(1) that by (simp add: rounds_ok_def)
  show "came (((thr s)(t := th')) u) \<le> came (((thr s)(t := th')) v) + of_bool (at_bar (((thr s)(t := th')) u))"
    using o [of u v] o [of t v] o [of u t] u v assms(2,3) by (auto simp: goes_def split: if_splits)
next
  fix u assume u: "u < length progs"
  have "suffix (todo (thr s u)) (progs ! u)"
    "came (thr s u) + nbar (todo (thr s u)) = nbar (progs ! u) + of_bool (at_bar (thr s u))"
    using assms(1) u by (auto simp: rounds_ok_def)
  then show "suffix (todo (((thr s)(t := th')) u)) (progs ! u)"
    "came (((thr s)(t := th')) u) + nbar (todo (((thr s)(t := th')) u)) = nbar (progs ! u) + of_bool (at_bar (((thr s)(t := th')) u))"
    using assms(3) by (auto simp: goes_def intro: suffix_tl split: if_splits)
qed

text \<open>What a thread still has to do is not in an earlier round than what another is doing.\<close>

lemma ahead_round:
  assumes "rounds_ok progs th" and "nbar (progs ! t) = nbar (progs ! u)" and "t < length progs" and "u < length progs"
    and "\<not> at_bar (th t)" and "(a, b) \<in> set (marks (todo (th u)))" and "a \<noteq> K_barrier"
    and "at_bar (th u) \<longrightarrow> (\<exists>rest. todo (th u) = K_barrier # rest)"
  shows "b \<le> nbar (todo (th t))"
proof -
  have r: "came (th t) \<le> came (th u)" "came (th t) + nbar (todo (th t)) = nbar (progs ! t)"
    "came (th u) + nbar (todo (th u)) = nbar (progs ! u) + of_bool (at_bar (th u))"
    using assms(1,3,4,5) by (auto simp: rounds_ok_def)
  show ?thesis
  proof (cases "at_bar (th u)")
    case True
    then obtain rest where "todo (th u) = K_barrier # rest" using assms(8) by blast
    then have "Suc b \<le> nbar (todo (th u))" using marks_le_barrier assms(6,7) by metis
    then show ?thesis using r assms(2) True by simp
  next
    case False
    then show ?thesis using r assms(2) marks_le [OF assms(6)] by simp
  qed
qed

lemma coming_keeps:
  assumes "coming n m td" and "\<And>u. u < n \<Longrightarrow> set (td' u) \<subseteq> set (td u)"
    and "\<And>u p v. u < n \<Longrightarrow> K_store p v \<in> set (td u) \<Longrightarrow> K_store p v \<in> set (td' u)"
  shows "coming n m td'"
  using assms unfolding coming_def by blast

lemma rising_keeps:
  assumes "rising n l td" and "\<And>u. u < n \<Longrightarrow> set (td' u) \<subseteq> set (td u)"
    and "\<And>u. u < n \<Longrightarrow> lints (td' u) = lints (td u)"
  shows "rising n l td'"
  using assms unfolding rising_def by (metis subsetD)

lemma goes_todo: "goes a n s th th' \<Longrightarrow> todo th = a # todo th'"
  by (simp add: goes_def)

lemma stays_todo: "stays th th' \<Longrightarrow> todo th' = todo th"
  by (simp add: stays_def)

lemma pinv_own:
  assumes "pinv progs s" and "t < length progs" and "th_ok (pmem s) th'"
    and "stays (thr s t) th' \<or> (\<exists>a. goes a (length progs) s (thr s t) th' \<and> \<not> is_giver a \<and> \<not> is_taker a)"
  shows "pinv progs (put t th' s)"
proof -
  have r: "rounds_ok progs ((thr s)(t := th'))"
    using assms rounds_stays rounds_goes unfolding pinv_def by blast
  have td: "set (todo th') \<subseteq> set (todo (thr s t))" "lints (todo th') = lints (todo (thr s t))"
    "\<And>p v. K_store p v \<in> set (todo (thr s t)) \<Longrightarrow> K_store p v \<in> set (todo th')"
    using assms(4) by (auto dest!: goes_todo stays_todo elim: is_giver.elims)
  have "coming (length progs) (pmem s) (\<lambda>u. todo (((thr s)(t := th')) u))"
    by (rule coming_keeps [where td = "\<lambda>u. todo (thr s u)"]) (use assms(1) td in \<open>auto simp: pinv_def\<close>)
  moreover have "rising (length progs) (plint s) (\<lambda>u. todo (((thr s)(t := th')) u))"
    by (rule rising_keeps [where td = "\<lambda>u. todo (thr s u)"]) (use assms(1) td in \<open>auto simp: pinv_def\<close>)
  ultimately show ?thesis using assms(1,3) r by (simp add: pinv_def)
qed

lemma pinv_marks:
  assumes "pinv progs s" and "t < length progs"
  shows "set (marks (todo (thr s t))) \<subseteq> set (marks (progs ! t))" and "set (todo (thr s t)) \<subseteq> set (progs ! t)"
    and "at_bar (thr s t) \<Longrightarrow> \<exists>rest. todo (thr s t) = K_barrier # rest"
  using assms suffix_marks set_mono_suffix unfolding pinv_def rounds_ok_def th_ok_def by blast+

lemma pinv_store:
  assumes wp: "well_paired w progs" and inv: "pinv progs s" and t: "t < length progs"
    and ok: "\<And>m. th_ok m th'" and go: "goes a (length progs) s (thr s t) th'"
    and a: "a = K_store p v \<or> v = MWMON_ORIGINAL_VAL \<and> (a = K_sleep p \<or> (\<exists>e c. a = K_wait p e c))"
  shows "pinv progs (stores t p v (put t th' s))"
proof -
  let ?s' = "stores t p v (put t th' s)"
  have r: "rounds_ok progs ((thr s)(t := th'))"
    using rounds_goes [OF _ t go] inv by (simp add: pinv_def)
  then have r': "rounds_ok progs (thr ?s')"
    by (subst rounds_cong [where th = "(thr s)(t := th')"]) auto
  have td: "todo (thr s t) = a # todo th'" by (rule goes_todo [OF go])
  have nb: "\<not> at_bar (thr s t)" "a \<noteq> K_barrier" using go a by (auto simp: goes_def split: if_splits)
  have sub: "set (todo (thr ?s' u)) \<subseteq> set (todo (thr s u))" for u using td by auto
  have "coming (length progs) (pmem ?s') (\<lambda>u. todo (thr ?s' u))"
    unfolding coming_def
  proof (intro allI impI)
    fix u q assume u: "u < length progs" and q: "K_sleep q \<in> set (todo (thr ?s' u))"
    have q0: "K_sleep q \<in> set (todo (thr s u))" using q sub by blast
    then obtain b where b: "(K_sleep q, b) \<in> set (marks (todo (thr s u)))" using marks_fst by blast
    then have bp: "(K_sleep q, b) \<in> set (marks (progs ! u))" using pinv_marks(1) [OF inv u] by blast
    show "pmem ?s' q = MWMON_NOTIFIED_VAL \<or> (\<exists>u<length progs. \<exists>v. K_store q v \<in> set (todo (thr ?s' u)))"
    proof (cases "q = p")
      case False
      then have "pmem ?s' q = pmem s q" by simp
      moreover have "pmem s q = MWMON_NOTIFIED_VAL \<or> (\<exists>u<length progs. \<exists>v. K_store q v \<in> set (todo (thr s u)))"
        using inv u q0 by (auto simp: pinv_def coming_def)
      moreover have "K_store q x \<in> set (todo (thr ?s' i))" if "K_store q x \<in> set (todo (thr s i))" for i x
        using that a False td by auto
      ultimately show ?thesis by metis
    next
      case True
      have at: "(a, nbar (todo th')) \<in> set (marks (progs ! t))" using pinv_marks(1) [OF inv t] td by auto
      from a consider "a = K_store p v" | "a = K_sleep p" | e c where "a = K_wait p e c" by blast
      then show ?thesis
      proof cases
        case 1
        then show ?thesis using paired_sleep(3) [OF wp u bp t] at True by auto
      next
        case 2
        have "suffix (K_sleep p # todo th') (progs ! t)" using inv t td 2 by (auto simp: pinv_def rounds_ok_def)
        note once = paired_once [OF wp t u this]
        have "u = t" using once(2) q0 True pinv_marks(2) [OF inv u] by blast
        then show ?thesis using once(1) q True by simp
      next
        case 3
        have "nbar (todo th') < b" using paired_sleep(4) [OF wp u bp t] at 3 by blast
        moreover have "b \<le> nbar (todo (thr s t))"
          by (rule ahead_round [OF _ paired_bars [OF wp t u] t u nb(1) b])
            (use inv pinv_marks(3) [OF inv u] in \<open>auto simp: pinv_def\<close>)
        ultimately show ?thesis using td nb(2) by simp
      qed
    qed
  qed
  moreover have "rising (length progs) (plint ?s') (\<lambda>u. todo (thr ?s' u))"
    by (rule rising_keeps [where td = "\<lambda>u. todo (thr s u)"]) (use inv sub td a in \<open>auto simp: pinv_def\<close>)
  moreover have "th_ok (pmem ?s') (thr ?s' u)" if "u < length progs" for u
    using ok th_ok_sees inv that by (simp add: pinv_def)
  ultimately show ?thesis using r' by (simp add: pinv_def)
qed

lemma pinv_lint:
  assumes wp: "well_paired w progs" and inv: "pinv progs s" and t: "t < length progs"
    and ok: "th_ok (pmem s) th'" and go: "goes (K_lint v) (length progs) s (thr s t) th'"
  shows "pinv progs ((put t th' s)\<lparr>plint := v\<rparr>)"
proof -
  let ?td = "\<lambda>u. todo (((thr s)(t := th')) u)"
  have td: "todo (thr s t) = K_lint v # todo th'" by (rule goes_todo [OF go])
  have sub: "set (?td u) \<subseteq> set (todo (thr s u))" for u using td by auto
  have r: "rounds_ok progs ((thr s)(t := th'))"
    using rounds_goes [OF _ t go] inv by (simp add: pinv_def)
  have c: "coming (length progs) (pmem s) ?td"
    by (rule coming_keeps [where td = "\<lambda>u. todo (thr s u)"]) (use inv sub td in \<open>auto simp: pinv_def\<close>)
  have "rising (length progs) v ?td"
  proof (cases "lints (todo th') = []")
    case False
    then show ?thesis using t by (auto simp: rising_def)
  next
    case True
    have sf: "suffix (todo (thr s t)) (progs ! t)" using inv t by (simp add: pinv_def rounds_ok_def)
    then have last: "last (lints (progs ! t)) = v" "lints (progs ! t) \<noteq> []"
      using suffix_lints [OF sf] td True by (auto simp: suffix_def)
    have "sint c \<le> sint v" if "u < length progs" "K_wait q e c \<in> set (?td u)" for u q e c
    proof -
      have "K_wait q e c \<in> set (progs ! u)" using that sub pinv_marks(2) [OF inv that(1)] by blast
      then obtain b where "(K_wait q e c, b) \<in> set (marks (progs ! u))" using marks_fst by blast
      from paired_wait(2) [OF wp that(1) this t] last show ?thesis by simp
    qed
    then show ?thesis unfolding rising_def by blast
  qed
  then show ?thesis using inv r c ok by (simp add: pinv_def)
qed

lemma pinv_step:
  assumes wp: "well_paired w progs" and inv: "pinv progs s" and st: "psys_step (length progs) w s l = Some s'"
  shows "pinv progs s'"
proof (cases l)
  case (PThread t)
  then have t: "t < length progs" and a: "act_step (length progs) t s = Some s'"
    using st by (auto simp: psys_defs split: if_splits)
  have "th_ok (pmem s) (thr s t)" using inv t by (simp add: pinv_def)
  with a show ?thesis
  proof (cases rule: act_step_result)
    case (own th')
    then show ?thesis using pinv_own [OF inv t] by blast
  next
    case (store th' p v a)
    show ?thesis unfolding store(1) by (rule pinv_store [OF wp inv t store(2,3)]) (use store(4) in blast)
  next
    case (lint th' v)
    then show ?thesis using pinv_lint [OF wp inv t] by simp
  qed
next
  case (PIrq t d)
  then have t: "t < length progs" "irqs (cpu (thr s t))" and e: "s' = put t (interrupted d (thr s t)) s"
    using st by (auto simp: psys_defs split: if_splits)
  have "stays (thr s t) (interrupted d (thr s t))" by (simp add: stays_def)
  then show ?thesis unfolding e using pinv_own [OF inv t(1)] th_ok_interrupted [OF _ t(2)] inv t(1)
    by (simp add: pinv_def)
next
  case (PStore a v)
  then have a: "a \<notin> set w" and e: "s' = s\<lparr>pmem := (pmem s)(a := v), thr := \<lambda>u. sees a (thr s u)\<rparr>"
    using st by (auto simp: psys_defs split: if_splits)
  have "p \<noteq> a" if u: "u < length progs" and p: "K_sleep p \<in> set (todo (thr s u))" for u p
  proof -
    have "K_sleep p \<in> set (progs ! u)" using p pinv_marks(2) [OF inv u] by blast
    then obtain b where "(K_sleep p, b) \<in> set (marks (progs ! u))" using marks_fst by blast
    then show ?thesis using paired_sleep(1) [OF wp u] a by blast
  qed
  then have "coming (length progs) ((pmem s)(a := v)) (\<lambda>u. todo (thr s u))"
    using inv unfolding pinv_def coming_def by (metis fun_upd_other)
  moreover have "rounds_ok progs (\<lambda>u. sees a (thr s u))"
    using inv by (subst rounds_cong [where th = "thr s"]) (auto simp: pinv_def)
  ultimately show ?thesis using inv th_ok_sees by (simp add: pinv_def e)
qed

lemma launch_thread: "t < length progs \<Longrightarrow> thr (launch m l progs masks all) t = new_thread (progs ! t) (masks ! t) all"
  by (simp add: launch_def)

lemma pinv_launch:
  assumes wp: "well_paired w progs"
  shows "pinv progs (launch m l progs masks all)"
proof -
  let ?s = "launch m l progs masks all"
  have td: "todo (thr ?s t) = progs ! t" "came (thr ?s t) = 0" "\<not> at_bar (thr ?s t)"
    "th_ok m' (thr ?s t)" if "t < length progs" for t m'
    using that by (simp_all add: launch_thread new_thread_def th_ok_def)
  have "coming (length progs) (pmem ?s) (\<lambda>u. todo (thr ?s u))"
    unfolding coming_def
  proof (intro allI impI disjI2)
    fix t p assume t: "t < length progs" and "K_sleep p \<in> set (todo (thr ?s t))"
    then obtain b where "(K_sleep p, b) \<in> set (marks (progs ! t))" using td(1) marks_fst by metis
    from paired_sleep(2) [OF wp t this] show "\<exists>u<length progs. \<exists>v. K_store p v \<in> set (todo (thr ?s u))"
      using td(1) marks_fst by metis
  qed
  moreover have "rising (length progs) (plint ?s) (\<lambda>u. todo (thr ?s u))"
    unfolding rising_def
  proof (intro disjCI allI impI)
    fix t p e c assume no: "\<not> (\<forall>t<length progs. \<forall>p e c. K_wait p e c \<in> set (todo (thr ?s t)) \<longrightarrow> sint c \<le> sint (plint ?s))"
    then obtain t p e c where t: "t < length progs" "K_wait p e c \<in> set (todo (thr ?s t))" by blast
    then obtain b where "(K_wait p e c, b) \<in> set (marks (progs ! t))" using td(1) marks_fst by metis
    from paired_wait(1) [OF wp t(1) this] show "\<exists>u<length progs. lints (todo (thr ?s u)) \<noteq> []"
      using td(1) by auto
  qed
  ultimately show ?thesis using td by (simp add: pinv_def rounds_ok_def)
qed

lemma pinv_reachable:
  assumes "well_paired w progs" and "reachable (psys_step (length progs) w) (launch m l progs masks all) s"
  shows "pinv progs s"
  using assms(2) pinv_launch [OF assms(1)] pinv_step [OF assms(1)] by (rule reachable_invariant)

section \<open>Every state can be finished\<close>

definition msr :: "nat \<Rightarrow> psys \<Rightarrow> nat" where
  "msr n s = (\<Sum>t<n. 2 * length (todo (thr s t)) + of_bool (\<not> at_bar (thr s t)))"

lemma msr_less:
  assumes "t < n" and "\<And>u. u \<noteq> t \<Longrightarrow> todo (thr s' u) = todo (thr s u) \<and> at_bar (thr s' u) = at_bar (thr s u)"
    and "2 * length (todo (thr s' t)) + of_bool (\<not> at_bar (thr s' t))
      < 2 * length (todo (thr s t)) + (of_bool (\<not> at_bar (thr s t)) :: nat)"
  shows "msr n s' < msr n s"
  unfolding msr_def
proof (rule sum_strict_mono_ex1)
  show "\<forall>u\<in>{..<n}. 2 * length (todo (thr s' u)) + of_bool (\<not> at_bar (thr s' u))
      \<le> 2 * length (todo (thr s u)) + (of_bool (\<not> at_bar (thr s u)) :: nat)"
  proof
    fix u show "2 * length (todo (thr s' u)) + of_bool (\<not> at_bar (thr s' u))
      \<le> 2 * length (todo (thr s u)) + (of_bool (\<not> at_bar (thr s u)) :: nat)"
      using assms(2) [of u] assms(3) by (cases "u = t") simp_all
  qed
next
  show "\<exists>u\<in>{..<n}. 2 * length (todo (thr s' u)) + of_bool (\<not> at_bar (thr s' u))
      < 2 * length (todo (thr s u)) + (of_bool (\<not> at_bar (thr s u)) :: nat)"
    using assms(1,3) by blast
qed simp

lemma finish_simple:
  assumes wp: "well_paired w progs" and inv: "pinv progs s" and t: "t < length progs"
    and td: "todo (thr s t) = a # rest" and na: "\<not> is_taker a"
    and first: "\<forall>u<length progs. came (thr s t) \<le> came (thr s u)"
  shows "\<exists>s'. psys_step (length progs) w s (PThread t) = Some s' \<and> msr (length progs) s' < msr (length progs) s"
proof -
  have ok: "th_ok (pmem s) (thr s t)" using inv t by (simp add: pinv_def)
  have less: "\<exists>s'. psys_step (length progs) w s (PThread t) = Some s' \<and> msr (length progs) s' < msr (length progs) s"
    if st: "act_step (length progs) t s = Some s'"
      and o: "\<And>u. u \<noteq> t \<Longrightarrow> todo (thr s' u) = todo (thr s u) \<and> at_bar (thr s' u) = at_bar (thr s u)"
      and m: "2 * length (todo (thr s' t)) + of_bool (\<not> at_bar (thr s' t))
        < 2 * length (todo (thr s t)) + (of_bool (\<not> at_bar (thr s t)) :: nat)" for s'
    using msr_less [where s' = s' and s = s, OF t o m] st t by (simp add: psys_defs)
  note ev = act_step_def td Let_def
  show ?thesis
  proof (cases a)
    case (K_mask_set c)
    have "0 \<le> c \<and> c < 32"
      by (rule paired_mask [OF wp t]) (use pinv_marks(2) [OF inv t] td K_mask_set in auto)
    then obtain m where "MY_CPU_SET c (cpuset (thr s t)) = Some m" by (simp add: MY_CPU_SET_def)
    then show ?thesis
      by (intro less [of "put t ((thr s t)\<lparr>todo := rest, cpuset := m\<rparr>) s"]) (simp_all add: ev K_mask_set)
  next
    case K_barrier
    show ?thesis
    proof (cases "at_bar (thr s t)")
      case True
      then show ?thesis using first
        by (intro less [of "put t ((thr s t)\<lparr>at_bar := False, todo := rest\<rparr>) s"])
          (simp_all add: ev K_barrier barrier_in_def list_all_iff)
    next
      case False
      then show ?thesis
        by (intro less [of "put t ((thr s t)\<lparr>at_bar := True, came := came (thr s t) + 1\<rparr>) s"])
          (simp_all add: ev K_barrier barrier_in_def)
    qed
  next
    case (K_store p v)
    then show ?thesis by (intro less [of "stores t p v (put t ((thr s t)\<lparr>todo := rest\<rparr>) s)"]) (simp_all add: ev)
  next
    case (K_lint v)
    then show ?thesis by (intro less [of "(put t ((thr s t)\<lparr>todo := rest\<rparr>) s)\<lparr>plint := v\<rparr>"]) (simp_all add: ev)
  qed (use na in \<open>auto intro!: less simp: ev\<close>)
qed

text \<open>A sleeper whose byte has the notified value leaves its call by its own steps.\<close>

definition call_rank :: "spc \<Rightarrow> nat" where
  "call_rank c = (if c = Done then 6 else sleep_rank c)"

lemma sleep_progress:
  assumes inv: "pinv progs s" and t: "t < length progs"
    and td: "todo (thr s t) = K_sleep p # rest" and m: "pmem s p = MWMON_NOTIFIED_VAL"
  shows "\<exists>s'. psys_step (length progs) w s (PThread t) = Some s'
    \<and> (msr (length progs) s' < msr (length progs) s
       \<or> todo (thr s' t) = K_sleep p # rest \<and> pmem s' p = MWMON_NOTIFIED_VAL \<and> msr (length progs) s' = msr (length progs) s
          \<and> call_rank (spc (cpu (thr s' t))) < call_rank (spc (cpu (thr s t))))"
proof -
  have ok: "th_ok (pmem s) (thr s t)" using inv t by (simp add: pinv_def)
  have nb: "\<not> at_bar (thr s t)" using th_ok_heads(3) [OF ok td] by simp
  have st: "psys_step (length progs) w s (PThread t) = sleep_in t p rest s"
    using t by (simp add: psys_defs act_step_def td Let_def)
  have same: "msr (length progs) (put t ((thr s t)\<lparr>cpu := c\<rparr>) s) = msr (length progs) s" for c
    unfolding msr_def by (intro sum.cong) auto
  have i: "spc (cpu (thr s t)) \<noteq> Done \<Longrightarrow> sleep_inv p \<lparr>smem = pmem s, slp = cpu (thr s t)\<rparr>"
    using ok td by (auto simp: th_ok_def)
  show ?thesis
  proof (cases "spc (cpu (thr s t)) = Restore")
    case True
    let ?s' = "stores t p MWMON_ORIGINAL_VAL (put t ((thr s t)\<lparr>cpu := (cpu (thr s t))\<lparr>spc := Done\<rparr>, todo := rest\<rparr>) s)"
    have "sleep_in t p rest s = Some ?s'" using True by (simp add: sleep_in_def sleep_cpu_def Let_def)
    moreover have "msr (length progs) ?s' < msr (length progs) s" by (rule msr_less [OF t]) (use nb td in auto)
    ultimately show ?thesis using st by auto
  next
    case False
    then obtain c where "sleep_in t p rest s = Some (put t ((thr s t)\<lparr>cpu := c\<rparr>) s)"
      "call_rank (spc c) < call_rank (spc (cpu (thr s t)))"
      using i m by (cases "spc (cpu (thr s t))")
        (auto simp: sleep_in_def sleep_cpu_def sleep_inv_def call_rank_def Let_def)
    then show ?thesis using st same td m by auto
  qed
qed

lemma finish_sleep:
  assumes "well_paired w progs" and "pinv progs s" and "t < length progs"
    and "todo (thr s t) = K_sleep p # rest" and "pmem s p = MWMON_NOTIFIED_VAL"
  shows "\<exists>ls s'. run (psys_step (length progs) w) s ls = Some s' \<and> msr (length progs) s' < msr (length progs) s"
  using assms
proof (induction "call_rank (spc (cpu (thr s t)))" arbitrary: s rule: less_induct)
  case less
  obtain s' where st: "psys_step (length progs) w s (PThread t) = Some s'"
    and alt: "msr (length progs) s' < msr (length progs) s
       \<or> todo (thr s' t) = K_sleep p # rest \<and> pmem s' p = MWMON_NOTIFIED_VAL \<and> msr (length progs) s' = msr (length progs) s
          \<and> call_rank (spc (cpu (thr s' t))) < call_rank (spc (cpu (thr s t)))"
    using sleep_progress [OF less.prems(2-5)] by blast
  from alt show ?case
  proof (elim disjE conjE)
    assume "msr (length progs) s' < msr (length progs) s"
    then show ?thesis using st by (intro exI [of _ "[PThread t]"]) simp
  next
    assume n: "todo (thr s' t) = K_sleep p # rest" "pmem s' p = MWMON_NOTIFIED_VAL" "msr (length progs) s' = msr (length progs) s"
      "call_rank (spc (cpu (thr s' t))) < call_rank (spc (cpu (thr s t)))"
    obtain ls s'' where "run (psys_step (length progs) w) s' ls = Some s''" "msr (length progs) s'' < msr (length progs) s'"
      using less.hyps [OF n(4) less.prems(1) pinv_step [OF less.prems(1,2) st] less.prems(3) n(1,2)] by blast
    then show ?thesis using st n(3) by (intro exI [of _ "PThread t # ls"]) auto
  qed
qed

text \<open>So does a caller of \<open>sys_mwmon_mmap_spin_while_greater\<close> whose bound is reached, if an interrupt wakes it.\<close>

fun wait_rank :: "wpc \<Rightarrow> nat" where
  "wait_rank W_Done = 9"
| "wait_rank W_Irq_Off = 8"
| "wait_rank W_Arm = 7"
| "wait_rank W_Irq_On = 6"
| "wait_rank W_Check = 5"
| "wait_rank W_Mwait = 4"
| "wait_rank W_Asleep = 3"
| "wait_rank W_Test = 2"
| "wait_rank W_Restore = 1"

lemma wait_progress:
  assumes inv: "pinv progs s" and t: "t < length progs"
    and td: "todo (thr s t) = K_wait p e c # rest" and l: "sint c \<le> sint (plint s)"
  shows "\<exists>lb s'. psys_step (length progs) w s lb = Some s'
    \<and> (msr (length progs) s' < msr (length progs) s
       \<or> todo (thr s' t) = K_wait p e c # rest \<and> plint s' = plint s \<and> msr (length progs) s' = msr (length progs) s
          \<and> wait_rank (waitpc (thr s' t)) < wait_rank (waitpc (thr s t)))"
proof -
  have ok: "th_ok (pmem s) (thr s t)" using inv t by (simp add: pinv_def)
  have nb: "\<not> at_bar (thr s t)" using th_ok_heads(3) [OF ok td] by simp
  have st: "psys_step (length progs) w s (PThread t) = wait_in t p e c rest s"
    using t by (simp add: psys_defs act_step_def td Let_def)
  have same: "msr (length progs) (put t th' s) = msr (length progs) s"
    if "todo th' = todo (thr s t)" "at_bar th' = at_bar (thr s t)" for th'
    unfolding msr_def using that by (intro sum.cong) auto
  consider "waitpc (thr s t) = W_Restore" | "waitpc (thr s t) = W_Asleep" | "waitpc (thr s t) \<notin> {W_Restore, W_Asleep}"
    by blast
  then show ?thesis
  proof cases
    case 1
    let ?s' = "stores t p MWMON_ORIGINAL_VAL (put t ((thr s t)\<lparr>waitpc := W_Done,
      cpu := (cpu (thr s t))\<lparr>armed := armed (cpu (thr s t)), irqs := irqs (cpu (thr s t))\<rparr>, todo := rest\<rparr>) s)"
    have "wait_in t p e c rest s = Some ?s'" using 1 by (simp add: wait_in_def wait_cpu_def Let_def)
    moreover have "msr (length progs) ?s' < msr (length progs) s" by (rule msr_less [OF t]) (use nb td in auto)
    ultimately show ?thesis using st by metis
  next
    case 2
    then have "irqs (cpu (thr s t))" using ok by (simp add: th_ok_def)
    then have "psys_step (length progs) w s (PIrq t True) = Some (put t (interrupted True (thr s t)) s)"
      using t by (simp add: psys_defs)
    moreover have "waitpc (interrupted True (thr s t)) = W_Test" using 2 by (simp add: interrupted_def woken_def)
    ultimately show ?thesis using same [of "interrupted True (thr s t)"] td 2
      by (intro exI [of _ "PIrq t True"] exI [of _ "put t (interrupted True (thr s t)) s"]) simp
  next
    case 3
    have "\<exists>th'. wait_in t p e c rest s = Some (put t th' s) \<and> todo th' = todo (thr s t) \<and> at_bar th' = at_bar (thr s t)
        \<and> wait_rank (waitpc th') < wait_rank (waitpc (thr s t))"
      using 3 l by (cases "waitpc (thr s t)") (auto simp: wait_in_def wait_cpu_def Let_def intro!: exI)
    then show ?thesis using st same td
      by (metis (no_types, lifting) fun_upd_same put_simps(2,3))
  qed
qed

lemma finish_wait:
  assumes "well_paired w progs" and "pinv progs s" and "t < length progs"
    and "todo (thr s t) = K_wait p e c # rest" and "sint c \<le> sint (plint s)"
  shows "\<exists>ls s'. run (psys_step (length progs) w) s ls = Some s' \<and> msr (length progs) s' < msr (length progs) s"
  using assms
proof (induction "wait_rank (waitpc (thr s t))" arbitrary: s rule: less_induct)
  case less
  obtain lb s' where st: "psys_step (length progs) w s lb = Some s'"
    and alt: "msr (length progs) s' < msr (length progs) s
       \<or> todo (thr s' t) = K_wait p e c # rest \<and> plint s' = plint s \<and> msr (length progs) s' = msr (length progs) s
          \<and> wait_rank (waitpc (thr s' t)) < wait_rank (waitpc (thr s t))"
    using wait_progress [OF less.prems(2-5)] by blast
  from alt show ?case
  proof (elim disjE conjE)
    assume "msr (length progs) s' < msr (length progs) s"
    then show ?thesis using st by (intro exI [of _ "[lb]"]) simp
  next
    assume n: "todo (thr s' t) = K_wait p e c # rest" "plint s' = plint s" "msr (length progs) s' = msr (length progs) s"
      "wait_rank (waitpc (thr s' t)) < wait_rank (waitpc (thr s t))"
    have "sint c \<le> sint (plint s')" using less.prems(5) n(2) by simp
    then obtain ls s'' where "run (psys_step (length progs) w) s' ls = Some s''" "msr (length progs) s'' < msr (length progs) s'"
      using less.hyps [OF n(4) less.prems(1) pinv_step [OF less.prems(1,2) st] less.prems(3) n(1)] by blast
    then show ?thesis using st n(3) by (intro exI [of _ "lb # ls"]) auto
  qed
qed

text \<open>A thread with something to do in a round that is not over has arrived no more often than who is in that round.\<close>

lemma came_le:
  assumes wp: "well_paired w progs" and inv: "pinv progs s" and t: "t < length progs" and u: "u < length progs"
    and nb: "\<not> at_bar (thr s t)" and b: "(a, b) \<in> set (marks (todo (thr s u)))" "a \<noteq> K_barrier"
    and le: "nbar (todo (thr s t)) \<le> b"
  shows "came (thr s u) \<le> came (thr s t)"
proof -
  have r: "came (thr s t) + nbar (todo (thr s t)) = nbar (progs ! t)"
    "came (thr s u) + nbar (todo (thr s u)) = nbar (progs ! u) + of_bool (at_bar (thr s u))"
    using inv t u nb by (auto simp: pinv_def rounds_ok_def)
  note eq = paired_bars [OF wp t u]
  show ?thesis
  proof (cases "at_bar (thr s u)")
    case True
    then obtain rest where "todo (thr s u) = K_barrier # rest" using pinv_marks(3) [OF inv u] by blast
    then have "Suc b \<le> nbar (todo (thr s u))" using marks_le_barrier b by metis
    then show ?thesis using r eq True le by simp
  next
    case False
    then show ?thesis using r eq marks_le [OF b(1)] le by simp
  qed
qed

lemma finish_giver:
  assumes wp: "well_paired w progs" and inv: "pinv progs s" and u: "u < length progs"
    and g: "a \<in> set (todo (thr s u))" "is_giver a" and first: "\<forall>v<length progs. came (thr s u) \<le> came (thr s v)"
  shows "\<exists>s'. psys_step (length progs) w s (PThread u) = Some s' \<and> msr (length progs) s' < msr (length progs) s"
proof -
  obtain h rest where td: "todo (thr s u) = h # rest" using g(1) by (cases "todo (thr s u)") auto
  have "\<not> is_taker h"
    using paired_roles [OF wp u _ _ g(2)] pinv_marks(2) [OF inv u] g(1) td by auto
  from finish_simple [OF wp inv u td this first] show ?thesis .
qed

lemma progress:
  assumes wp: "well_paired w progs" and inv: "pinv progs s" and nf: "\<not> all_done (length progs) s"
  shows "\<exists>ls s'. run (psys_step (length progs) w) s ls = Some s' \<and> msr (length progs) s' < msr (length progs) s"
proof -
  let ?n = "length progs"
  have one: ?thesis if "\<exists>s'. psys_step ?n w s (PThread v) = Some s' \<and> msr ?n s' < msr ?n s" for v
    using that by (auto intro: exI [of _ "[PThread v]"])
  define U where "U = {t. t < ?n \<and> todo (thr s t) \<noteq> []}"
  have "finite U" "U \<noteq> {}" using nf by (auto simp: U_def all_done_def)
  then obtain t where tU: "t \<in> U" and least: "\<And>u. u \<in> U \<Longrightarrow> came (thr s t) \<le> came (thr s u)"
    using arg_min_if_finite [of U "\<lambda>t. came (thr s t)"] by (metis not_less)
  then have t: "t < ?n" and ne: "todo (thr s t) \<noteq> []" by (auto simp: U_def)
  have r: "came (thr s u) + nbar (todo (thr s u)) = nbar (progs ! u) + of_bool (at_bar (thr s u))" if "u < ?n" for u
    using inv that by (simp add: pinv_def rounds_ok_def)
  have first: "\<forall>u<?n. came (thr s t) \<le> came (thr s u)"
  proof (intro allI impI)
    fix u assume u: "u < ?n"
    show "came (thr s t) \<le> came (thr s u)"
    proof (cases "todo (thr s u) = []")
      case True
      then have "came (thr s u) = nbar (progs ! u)" using r [OF u] pinv_marks(3) [OF inv u] by auto
      moreover have "at_bar (thr s t) \<Longrightarrow> 1 \<le> nbar (todo (thr s t))" using pinv_marks(3) [OF inv t] by auto
      ultimately show ?thesis using r [OF t] paired_bars [OF wp t u] by (cases "at_bar (thr s t)") auto
    qed (use least u in \<open>simp add: U_def\<close>)
  qed
  obtain a rest where td: "todo (thr s t) = a # rest" using ne by (cases "todo (thr s t)") auto
  have ok: "th_ok (pmem s) (thr s t)" using inv t by (simp add: pinv_def)
  have sub: "set (marks (todo (thr s u))) \<subseteq> set (marks (progs ! u))" if "u < ?n" for u
    using pinv_marks(1) [OF inv that] .
  have low: "\<forall>v<?n. came (thr s u) \<le> came (thr s v)" if "came (thr s u) \<le> came (thr s t)" for u
    using first that by (meson le_trans)
  have mark: "(a, nbar rest) \<in> set (marks (progs ! t))" using sub [OF t] td by auto
  consider (simple) "\<not> is_taker a" | (sleep) p where "a = K_sleep p" | (wait) q e c where "a = K_wait q e c"
    by (cases a) auto
  then show ?thesis
  proof cases
    case simple
    from finish_simple [OF wp inv t td this first] show ?thesis by (rule one)
  next
    case sleep
    have nb: "\<not> at_bar (thr s t)" "nbar (todo (thr s t)) = nbar rest" using th_ok_heads(3) [OF ok td] sleep td by simp_all
    show ?thesis
    proof (cases "pmem s p = MWMON_NOTIFIED_VAL")
      case True
      then show ?thesis using finish_sleep [OF wp inv t td [unfolded sleep]] by blast
    next
      case False
      have "K_sleep p \<in> set (todo (thr s t))" using td sleep by simp
      then obtain u v where u: "u < ?n" "K_store p v \<in> set (todo (thr s u))"
        using inv t False unfolding pinv_def coming_def by blast
      then obtain b where b: "(K_store p v, b) \<in> set (marks (todo (thr s u)))" using marks_fst by blast
      then have "nbar rest \<le> b"
        using paired_sleep(3) [OF wp t mark [unfolded sleep] u(1)] sub [OF u(1)] by blast
      then have "came (thr s u) \<le> came (thr s t)"
        using came_le [OF wp inv t u(1) nb(1) b] nb(2) by simp
      from finish_giver [OF wp inv u(1,2) _ low [OF this]] show ?thesis by (intro one) simp
    qed
  next
    case wait
    have nb: "\<not> at_bar (thr s t)" "nbar (todo (thr s t)) = nbar rest" using th_ok_heads(3) [OF ok td] wait td by simp_all
    show ?thesis
    proof (cases "sint c \<le> sint (plint s)")
      case True
      then show ?thesis using finish_wait [OF wp inv t td [unfolded wait]] by blast
    next
      case False
      have "K_wait q e c \<in> set (todo (thr s t))" using td wait by simp
      then obtain u where u: "u < ?n" "lints (todo (thr s u)) \<noteq> []"
        using inv t False unfolding pinv_def rising_def by blast
      then have "hd (lints (todo (thr s u))) \<in> set (lints (todo (thr s u)))" by simp
      then obtain v where v: "K_lint v \<in> set (todo (thr s u))" unfolding set_lints by blast
      then obtain b where b: "(K_lint v, b) \<in> set (marks (todo (thr s u)))" using marks_fst by blast
      then have "nbar rest \<le> b"
        using paired_wait(3) [OF wp t mark [unfolded wait] u(1)] sub [OF u(1)] by blast
      then have "came (thr s u) \<le> came (thr s t)"
        using came_le [OF wp inv t u(1) nb(1) b] nb(2) by simp
      from finish_giver [OF wp inv u(1) v _ low [OF this]] show ?thesis by (intro one) simp
    qed
  qed
qed

lemma can_finish_inv:
  assumes "well_paired w progs" and "pinv progs s"
  shows "\<exists>ls s'. run (psys_step (length progs) w) s ls = Some s' \<and> all_done (length progs) s'"
  using assms(2)
proof (induction "msr (length progs) s" arbitrary: s rule: less_induct)
  case less
  show ?case
  proof (cases "all_done (length progs) s")
    case True
    then show ?thesis by (intro exI [of _ "[]"]) simp
  next
    case False
    obtain ls s1 where s1: "run (psys_step (length progs) w) s ls = Some s1" "msr (length progs) s1 < msr (length progs) s"
      using progress [OF assms(1) less.prems False] by blast
    have "pinv progs s1"
      using run_reachable [OF s1(1)] less.prems pinv_step [OF assms(1)] by (rule reachable_invariant)
    from less.hyps [OF s1(2) this] obtain ls' s' where
      "run (psys_step (length progs) w) s1 ls' = Some s'" "all_done (length progs) s'" by blast
    then show ?thesis using s1(1) by (intro exI [of _ "ls @ ls'"]) (simp add: run_append)
  qed
qed

lemma can_finish:
  assumes "well_paired w progs" and "reachable (psys_step (length progs) w) (launch m l progs masks all) s"
  shows "\<exists>ls s'. run (psys_step (length progs) w) s ls = Some s' \<and> all_done (length progs) s'"
  by (rule can_finish_inv [OF assms(1) pinv_reachable [OF assms]])

end
