(* ===== verification/Thread_Reports.thy ===== *)
theory Thread_Reports
  imports Thread_Progress
begin

text \<open>
  What the threads of a well-paired program report of the bytes they sleep on, when each of these bytes is
  notified by one store and does not hold the notified value at the start.
\<close>

section \<open>The reports a program may make\<close>

fun stored_to :: "kact \<Rightarrow> addr list" where
  "stored_to (K_store p v) = [p]"
| "stored_to _ = []"

definition stored :: "kact list \<Rightarrow> addr list" where
  "stored xs = concat (map stored_to xs)"

text \<open>
  For every report the values it may have: only the original one behind the sleep on that byte, that and the notified
  one behind the store to it, and none where the thread has done neither.
\<close>

fun allowed :: "kact list \<Rightarrow> kact list \<Rightarrow> u8 list list" where
  "allowed seen [] = []"
| "allowed seen (a # xs) =
     (case a of
        K_switch p \<Rightarrow>
          [if K_sleep p \<in> set seen then [MWMON_ORIGINAL_VAL]
           else if K_store p MWMON_NOTIFIED_VAL \<in> set seen then [MWMON_ORIGINAL_VAL, MWMON_NOTIFIED_VAL]
           else []]
      | _ \<Rightarrow> []) @ allowed (seen @ [a]) xs"

definition notified_once :: "kact list list \<Rightarrow> bool" where
  "notified_once progs \<longleftrightarrow>
     distinct (stored (concat progs))
   \<and> list_all (\<lambda>p. p \<in> set (sleeps (concat progs))) (stored (concat progs))
   \<and> list_all (\<lambda>xs. list_all (\<lambda>vs. vs \<noteq> []) (allowed [] xs)) progs"

lemma stored_simps [simp]:
  "stored [] = []" "stored (a # xs) = stored_to a @ stored xs" "stored (xs @ ys) = stored xs @ stored ys"
  by (simp_all add: stored_def)

lemma in_stored_to [simp]: "p \<in> set (stored_to a) \<longleftrightarrow> (\<exists>v. a = K_store p v)"
  by (cases a) auto

lemma set_stored: "p \<in> set (stored xs) \<longleftrightarrow> (\<exists>v. K_store p v \<in> set xs)"
  by (induction xs) auto

lemma stored_concat: "stored (concat progs) = concat (map stored progs)"
  by (induction progs) simp_all

lemma allowed_append: "allowed seen (xs @ ys) = allowed seen xs @ allowed (seen @ xs) ys"
  by (induction xs arbitrary: seen) simp_all

lemma stored_essence [simp]: "stored (essence xs) = stored xs"
  by (induction xs) auto

lemma allowed_essence: "allowed (essence seen) (essence xs) = allowed seen xs"
proof (induction xs arbitrary: seen)
  case (Cons a xs)
  have s: "K_sleep p \<in> set (essence seen) \<longleftrightarrow> K_sleep p \<in> set seen"
    "K_store p v \<in> set (essence seen) \<longleftrightarrow> K_store p v \<in> set seen" for p v
    by (auto simp: essence_def)
  show ?case using Cons.IH [of "seen @ [a]"] s by (cases a) simp_all
qed simp

lemma notified_once_essence:
  assumes "notified_once (map essence progs)"
  shows "notified_once progs"
proof -
  have "allowed [] (essence xs) = allowed [] xs" for xs
    using allowed_essence [of "[]" xs] by simp
  then show ?thesis
    using assms by (simp add: notified_once_def stored_concat sleeps_concat o_def list.pred_map)
qed

lemma stored_once:
  assumes "notified_once progs" and "t < length progs" and "u < length progs"
    and "suffix (K_store p v # rest) (progs ! t)"
  shows "K_store p x \<notin> set rest" and "u \<noteq> t \<Longrightarrow> K_store p x \<notin> set (progs ! u)"
proof -
  have d: "distinct (concat (map stored progs))"
    using assms(1) by (simp add: notified_once_def stored_concat)
  obtain zs where zs: "progs ! t = zs @ K_store p v # rest" using assms(4) by (auto simp: suffix_def)
  have "distinct (stored (progs ! t))" using d assms(2) by (simp add: distinct_concat_iff)
  then show "K_store p x \<notin> set rest" using set_stored [of p rest] by (auto simp: zs)
  show "K_store p x \<notin> set (progs ! u)" if "u \<noteq> t"
    using distinct_concat_index [OF d, of u t p] that assms(2,3) zs set_stored by fastforce
qed

lemma slept_thread: "p \<in> set (sleeps (concat progs)) \<Longrightarrow> \<exists>u<length progs. K_sleep p \<in> set (progs ! u)"
  by (simp only: set_sleeps set_concat UN_iff) (metis in_set_conv_nth)

section \<open>The invariant\<close>

definition no_store :: "nat \<Rightarrow> (nat \<Rightarrow> kact list) \<Rightarrow> addr \<Rightarrow> bool" where
  "no_store n td p \<longleftrightarrow> (\<forall>u<n. \<forall>v. K_store p v \<notin> set (td u))"

definition no_sleep :: "nat \<Rightarrow> (nat \<Rightarrow> kact list) \<Rightarrow> addr \<Rightarrow> bool" where
  "no_sleep n td p \<longleftrightarrow> (\<forall>u<n. K_sleep p \<notin> set (td u))"

definition byte_ok :: "nat \<Rightarrow> psys \<Rightarrow> addr \<Rightarrow> bool" where
  "byte_ok n s p \<longleftrightarrow> (let td = \<lambda>u. todo (thr s u) in
     (\<not> no_store n td p \<longrightarrow> pmem s p \<noteq> MWMON_NOTIFIED_VAL)
   \<and> (no_sleep n td p \<longrightarrow> pmem s p = MWMON_ORIGINAL_VAL \<and> no_store n td p)
   \<and> (no_store n td p \<longrightarrow> pmem s p \<in> {MWMON_ORIGINAL_VAL, MWMON_NOTIFIED_VAL})
   \<and> (\<forall>t<n. spc (cpu (thr s t)) = Restore \<and> K_sleep p \<in> set (take 1 (td t)) \<longrightarrow> no_store n td p))"

definition reports_ok :: "kact list list \<Rightarrow> psys \<Rightarrow> bool" where
  "reports_ok progs s \<longleftrightarrow> (\<forall>t<length progs. \<exists>ys. progs ! t = ys @ todo (thr s t)
     \<and> list_all2 (\<lambda>v vs. v \<in> set vs) (reports (thr s t)) (allowed [] ys))"

definition rinv :: "kact list list \<Rightarrow> psys \<Rightarrow> bool" where
  "rinv progs s \<longleftrightarrow> pinv progs s \<and> (\<forall>p\<in>set (sleeps (concat progs)). byte_ok (length progs) s p) \<and> reports_ok progs s"

lemma restore_from:
  assumes "act_step n t s = Some s'" and "th_ok (pmem s) (thr s t)" and "spc (cpu (thr s' t)) = Restore"
  shows "\<exists>p rest. todo (thr s t) = K_sleep p # rest \<and> todo (thr s' t) = todo (thr s t)
    \<and> (spc (cpu (thr s t)) = Restore \<or> pmem s p = MWMON_NOTIFIED_VAL)"
proof -
  obtain a rest where td: "todo (thr s t) = a # rest"
    using assms(1) by (auto simp: act_step_def Let_def split: list.splits)
  note ev = assms(1)[unfolded act_step_def td Let_def, simplified]
  have d: "(\<forall>p. a \<noteq> K_sleep p) \<Longrightarrow> spc (cpu (thr s t)) = Done" by (rule th_ok_heads(1) [OF assms(2) td])
  show ?thesis
  proof (cases a)
    case (K_sleep p)
    then show ?thesis using ev assms(3) td
      by (cases "spc (cpu (thr s t))") (auto simp: sleep_in_def sleep_cpu_def Let_def split: if_splits)
  next
    case (K_wait p e c)
    then have "wait_in t p e c rest s = Some s'" using ev by simp
    moreover have "waitpc (thr s t) \<in> {W_Check, W_Mwait, W_Asleep} \<longrightarrow> irqs (cpu (thr s t))"
      using assms(2) by (auto simp: th_ok_def)
    ultimately have "spc (cpu (thr s' t)) = spc (cpu (thr s t))"
      by (auto dest!: wait_in_result)
    then show ?thesis using d K_wait assms(3) by simp
  next
    case K_barrier
    then show ?thesis using ev d assms(3) by (auto simp: barrier_in_def Let_def split: if_splits)
  qed (use ev d assms(3) in auto)
qed

lemma not_restored:
  "spc (cpu (sees a th)) = Restore \<longleftrightarrow> spc (cpu th) = Restore"
  "spc (cpu (interrupted d th)) = Restore \<longleftrightarrow> spc (cpu th) = Restore"
  by (auto simp: sees_def saw_store_def interrupted_def took_irq_def wake_def split: option.split)

text \<open>Steps that leave the byte and what is still to be done about it as it is.\<close>

lemma byte_ok_keeps:
  assumes "byte_ok n s p" and "pmem s' p = pmem s p"
    and sub: "\<And>u. set (todo (thr s' u)) \<subseteq> set (todo (thr s u))"
    and sl: "\<And>u. u < n \<Longrightarrow> K_sleep p \<in> set (todo (thr s u)) \<Longrightarrow> K_sleep p \<in> set (todo (thr s' u))"
    and st: "\<And>u v. u < n \<Longrightarrow> K_store p v \<in> set (todo (thr s u)) \<Longrightarrow> K_store p v \<in> set (todo (thr s' u))"
    and rs: "\<And>u. u < n \<Longrightarrow> spc (cpu (thr s' u)) = Restore \<Longrightarrow> K_sleep p \<in> set (take 1 (todo (thr s' u))) \<Longrightarrow>
        spc (cpu (thr s u)) = Restore \<and> K_sleep p \<in> set (take 1 (todo (thr s u))) \<or> pmem s p = MWMON_NOTIFIED_VAL"
  shows "byte_ok n s' p"
proof -
  let ?td = "\<lambda>u. todo (thr s u)" and ?td' = "\<lambda>u. todo (thr s' u)"
  have a: "no_store n ?td' p \<longleftrightarrow> no_store n ?td p" using sub st unfolding no_store_def by blast
  have b: "no_sleep n ?td' p \<longleftrightarrow> no_sleep n ?td p" using sub sl unfolding no_sleep_def by blast
  have "no_store n ?td p" if "u < n" "spc (cpu (thr s' u)) = Restore" "K_sleep p \<in> set (take 1 (?td' u))" for u
    using rs [OF that] assms(1) that(1) unfolding byte_ok_def Let_def by blast
  then show ?thesis using assms(1) unfolding byte_ok_def Let_def a b assms(2) by auto
qed

lemma own_keeps_byte:
  assumes inv: "pinv progs s" and t: "t < length progs" and st: "act_step (length progs) t s = Some (put t th' s)"
    and th: "stays (thr s t) th' \<or> (\<exists>a. goes a (length progs) s (thr s t) th' \<and> \<not> is_giver a \<and> \<not> is_taker a)"
    and ok: "byte_ok (length progs) s p"
  shows "byte_ok (length progs) (put t th' s) p"
proof (rule byte_ok_keeps [OF ok])
  show "set (todo (thr (put t th' s) u)) \<subseteq> set (todo (thr s u))" for u
    using th by (auto dest!: goes_todo stays_todo)
  show "K_sleep p \<in> set (todo (thr (put t th' s) u))" if "K_sleep p \<in> set (todo (thr s u))" for u
    using th that by (auto dest!: goes_todo stays_todo)
  show "K_store p v \<in> set (todo (thr (put t th' s) u))" if "K_store p v \<in> set (todo (thr s u))" for u v
    using th that by (auto dest!: goes_todo stays_todo)
  fix u assume u: "spc (cpu (thr (put t th' s) u)) = Restore" "K_sleep p \<in> set (take 1 (todo (thr (put t th' s) u)))"
  show "spc (cpu (thr s u)) = Restore \<and> K_sleep p \<in> set (take 1 (todo (thr s u))) \<or> pmem s p = MWMON_NOTIFIED_VAL"
  proof (cases "u = t")
    case True
    have "th_ok (pmem s) (thr s t)" using inv t by (simp add: pinv_def)
    from restore_from [OF st this] u True show ?thesis by auto
  qed (use u in simp)
qed simp

lemma switch_value:
  assumes wp: "well_paired w progs" and once: "notified_once progs" and t: "t < length progs"
    and inv: "rinv progs s" and td: "todo (thr s t) = K_switch p # rest" and ys: "progs ! t = ys @ todo (thr s t)"
  shows "list_all2 (\<lambda>v vs. v \<in> set vs) [pmem s p] (allowed ys [K_switch p])"
proof -
  let ?n = "length progs" and ?td = "\<lambda>u. todo (thr s u)"
  have bytes: "q \<in> set (sleeps (concat progs)) \<Longrightarrow> byte_ok ?n s q" for q using inv by (simp add: rinv_def)
  have pinv: "pinv progs s" using inv by (simp add: rinv_def)
  have "list_all (\<lambda>vs. vs \<noteq> []) (allowed [] (progs ! t))" using once t by (simp add: notified_once_def list_all_length)
  then have ne: "allowed ys [K_switch p] \<noteq> [[]]" using ys td by (auto simp: allowed_append)
  have in_progs: "K_sleep p \<in> set (progs ! u) \<Longrightarrow> u < ?n \<Longrightarrow> p \<in> set (sleeps (concat progs))" for u
    unfolding set_sleeps set_concat using nth_mem by blast
  show ?thesis
  proof (cases "K_sleep p \<in> set ys")
    case True
    then obtain y1 y2 where y: "ys = y1 @ K_sleep p # y2" by (auto simp: in_set_conv_decomp)
    have "suffix (K_sleep p # y2 @ ?td t) (progs ! t)" using ys y by (simp add: suffix_def)
    note o = paired_once [OF wp t _ this]
    have "K_sleep p \<notin> set (?td u)" if u: "u < ?n" for u
      using o(1) [OF u] o(2) [OF u] pinv_marks(2) [OF pinv u] by (cases "u = t") auto
    then have "no_sleep ?n ?td p" by (simp add: no_sleep_def)
    moreover have "p \<in> set (sleeps (concat progs))" using in_progs [of t] t ys True by simp
    ultimately have "pmem s p = MWMON_ORIGINAL_VAL" using bytes by (simp add: byte_ok_def Let_def)
    then show ?thesis using True by simp
  next
    case False
    then have st: "K_store p MWMON_NOTIFIED_VAL \<in> set ys" using ne by (auto split: if_splits)
    then obtain y1 y2 where y: "ys = y1 @ K_store p MWMON_NOTIFIED_VAL # y2" by (auto simp: in_set_conv_decomp)
    have "suffix (K_store p MWMON_NOTIFIED_VAL # y2 @ ?td t) (progs ! t)" using ys y by (simp add: suffix_def)
    note o = stored_once [OF once t _ this]
    have "K_store p v \<notin> set (?td u)" if u: "u < ?n" for u v
      using o(1) [OF u] o(2) [OF u] pinv_marks(2) [OF pinv u] by (cases "u = t") auto
    then have "no_store ?n ?td p" by (simp add: no_store_def)
    moreover have "K_store p MWMON_NOTIFIED_VAL \<in> set (progs ! t)" using st ys by simp
    then have "p \<in> set (stored (concat progs))"
      unfolding set_stored set_concat using nth_mem [OF t] by blast
    then have "p \<in> set (sleeps (concat progs))" using once by (simp add: notified_once_def list_all_iff)
    ultimately have "pmem s p \<in> {MWMON_ORIGINAL_VAL, MWMON_NOTIFIED_VAL}" using bytes by (simp add: byte_ok_def Let_def)
    then show ?thesis using False st by auto
  qed
qed

lemma reports_goes:
  assumes r: "reports_ok progs s" and t: "t < length progs" and go: "goes a n s (thr s t) th'"
    and sw: "\<And>p rest ys. a = K_switch p \<Longrightarrow> progs ! t = ys @ todo (thr s t) \<Longrightarrow>
        list_all2 (\<lambda>v vs. v \<in> set vs) [pmem s p] (allowed ys [K_switch p])"
  shows "\<exists>ys. progs ! t = ys @ todo th' \<and> list_all2 (\<lambda>v vs. v \<in> set vs) (reports th') (allowed [] ys)"
proof -
  obtain ys where ys: "progs ! t = ys @ todo (thr s t)" "list_all2 (\<lambda>v vs. v \<in> set vs) (reports (thr s t)) (allowed [] ys)"
    using r t by (auto simp: reports_ok_def)
  have td: "todo (thr s t) = a # todo th'" by (rule goes_todo [OF go])
  have "list_all2 (\<lambda>v vs. v \<in> set vs) (reports th') (allowed [] (ys @ [a]))"
  proof (cases "\<exists>p. a = K_switch p")
    case True
    then obtain p where a: "a = K_switch p" ..
    then have "reports th' = reports (thr s t) @ [pmem s p]" using go by (simp add: goes_def)
    then show ?thesis using sw [OF a ys(1)] ys(2) a by (simp add: allowed_append list_all2_appendI)
  next
    case False
    then have "reports th' = reports (thr s t)" "allowed ys [a] = []"
      using go by (auto simp: goes_def split: kact.splits)
    then show ?thesis using ys(2) by (simp only: allowed_append append_Nil append_Nil2)
  qed
  then show ?thesis using ys(1) td by (intro exI [of _ "ys @ [a]"]) simp
qed

lemma reports_cong:
  "(\<And>u. todo (thr s' u) = todo (thr s u) \<and> reports (thr s' u) = reports (thr s u)) \<Longrightarrow>
   reports_ok progs s' = reports_ok progs s"
  by (simp add: reports_ok_def)

lemma reports_at:
  assumes "reports_ok progs s" and "t < length progs"
    and "\<And>u. u \<noteq> t \<Longrightarrow> todo (thr s' u) = todo (thr s u) \<and> reports (thr s' u) = reports (thr s u)"
    and "\<exists>ys. progs ! t = ys @ todo (thr s' t) \<and> list_all2 (\<lambda>v vs. v \<in> set vs) (reports (thr s' t)) (allowed [] ys)"
  shows "reports_ok progs s'"
  unfolding reports_ok_def
proof (intro allI impI)
  fix u assume "u < length progs"
  then show "\<exists>ys. progs ! u = ys @ todo (thr s' u) \<and> list_all2 (\<lambda>v vs. v \<in> set vs) (reports (thr s' u)) (allowed [] ys)"
    using assms by (cases "u = t") (auto simp: reports_ok_def)
qed

text \<open>The stores of the threads themselves.\<close>

lemma store_keeps_bytes:
  assumes wp: "well_paired w progs" and once: "notified_once progs" and inv: "pinv progs s" and t: "t < length progs"
    and ok: "byte_ok (length progs) s q"
    and go: "goes a (length progs) s (thr s t) th'"
    and st: "act_step (length progs) t s = Some (stores t p v (put t th' s))"
    and a: "a = K_store p v \<or> v = MWMON_ORIGINAL_VAL \<and>
        (a = K_sleep p \<and> spc (cpu (thr s t)) = Restore \<or> (\<exists>e c. a = K_wait p e c))"
    and q: "q \<in> set (sleeps (concat progs))"
  shows "byte_ok (length progs) (stores t p v (put t th' s)) q"
proof -
  let ?n = "length progs" and ?s' = "stores t p v (put t th' s)"
  let ?td = "\<lambda>u. todo (thr s u)" and ?td' = "\<lambda>u. todo (thr (stores t p v (put t th' s)) u)"
  have td: "?td t = a # todo th'" by (rule goes_todo [OF go])
  have sub: "set (?td' u) \<subseteq> set (?td u)" for u using td by auto
  have suf: "suffix (?td t) (progs ! t)" using inv t by (simp add: pinv_def rounds_ok_def)
  have "th_ok (pmem s) (thr s t)" using inv t by (simp add: pinv_def)
  note from_call = restore_from [OF st this]
  then have new: "spc (cpu th') \<noteq> Restore" using td by auto
  have rs: "spc (cpu (thr s u)) = Restore \<and> u \<noteq> t \<and> ?td' u = ?td u" if "spc (cpu (thr ?s' u)) = Restore" for u
    using that new by (cases "u = t") (simp_all add: not_restored)
  have sl: "K_sleep q \<in> set (?td' u)" if "K_sleep q \<in> set (?td u)" "a \<noteq> K_sleep q" for u
    using that td by (cases "u = t") auto
  have sto: "K_store q x \<in> set (?td' u)" if "K_store q x \<in> set (?td u)" "a \<noteq> K_store q x" for u x
    using that td by (cases "u = t") auto
  note old = ok[unfolded byte_ok_def Let_def]
  have later: "no_store ?n ?td q \<Longrightarrow> no_store ?n ?td' q" using sub unfolding no_store_def by blast
  show ?thesis
  proof (cases "q = p")
    case False
    have ne: "a \<noteq> K_sleep q" "\<And>x. a \<noteq> K_store q x" using a False by auto
    show ?thesis
    proof (rule byte_ok_keeps [OF ok _ sub])
      fix u assume u: "spc (cpu (thr ?s' u)) = Restore" "K_sleep q \<in> set (take 1 (?td' u))"
      show "spc (cpu (thr s u)) = Restore \<and> K_sleep q \<in> set (take 1 (?td u)) \<or> pmem s q = MWMON_NOTIFIED_VAL"
        using rs [OF u(1)] u(2) by metis
    next
      show "pmem ?s' q = pmem s q" using False by simp
      show "K_sleep q \<in> set (?td' u)" if "K_sleep q \<in> set (?td u)" for u using sl [OF that ne(1)] .
      show "K_store q x \<in> set (?td' u)" if "K_store q x \<in> set (?td u)" for u x using sto [OF that ne(2)] .
    qed
  next
    case True
    from a consider "a = K_store p v" | "a = K_sleep p" "v = MWMON_ORIGINAL_VAL" "spc (cpu (thr s t)) = Restore"
      | e c where "a = K_wait p e c" "v = MWMON_ORIGINAL_VAL" by blast
    then show ?thesis
    proof cases
      case 1
      obtain u where u: "u < ?n" "K_sleep q \<in> set (progs ! u)"
        using slept_thread [OF q] by blast
      then obtain b where b: "(K_sleep q, b) \<in> set (marks (progs ! u))" using marks_fst by blast
      have "(K_store p v, nbar (todo th')) \<in> set (marks (progs ! t))"
        using pinv_marks(1) [OF inv t] td 1 by auto
      then have v: "v = MWMON_NOTIFIED_VAL" using paired_sleep(3) [OF wp u(1) b t] True by blast
      have "suffix (K_store p v # todo th') (progs ! t)" using suf td 1 by simp
      note o = stored_once [OF once t _ this]
      have "K_store p x \<notin> set (?td' i)" if i: "i < ?n" for i x
        using o(1) [OF i] o(2) [OF i] sub [of i] pinv_marks(2) [OF inv i] by (cases "i = t") auto
      then have ns: "no_store ?n ?td' q" using True by (simp add: no_store_def)
      have "\<not> no_sleep ?n ?td' q"
      proof
        assume "no_sleep ?n ?td' q"
        then have "no_sleep ?n ?td q" using sl 1 unfolding no_sleep_def by blast
        then have "K_store p v \<notin> set (?td t)" using old t True unfolding no_store_def by blast
        then show False using td 1 by simp
      qed
      then show ?thesis using ns v True by (simp add: byte_ok_def Let_def)
    next
      case 2
      have "no_store ?n ?td q" using old 2(1,3) t td True by simp
      then have "no_store ?n ?td' q" by (rule later)
      then show ?thesis using 2(2) True by (simp add: byte_ok_def Let_def)
    next
      case 3
      have b: "no_sleep ?n ?td' q \<Longrightarrow> no_store ?n ?td' q"
      proof -
        assume "no_sleep ?n ?td' q"
        then have "no_sleep ?n ?td q" using sl 3(1) unfolding no_sleep_def by blast
        then show "no_store ?n ?td' q" using old later by blast
      qed
      have d: "no_store ?n ?td' q" if "u < ?n" "spc (cpu (thr ?s' u)) = Restore" "K_sleep q \<in> set (take 1 (?td' u))" for u
        using rs [OF that(2)] that(1,3) old later by metis
      show ?thesis using b d 3(2) True unfolding byte_ok_def Let_def by auto
    qed
  qed
qed

lemma rinv_step:
  assumes wp: "well_paired w progs" and once: "notified_once progs" and inv: "rinv progs s"
    and st: "psys_step (length progs) w s l = Some s'"
  shows "rinv progs s'"
proof -
  let ?n = "length progs"
  have p: "pinv progs s" and r: "reports_ok progs s"
    and b: "\<And>q. q \<in> set (sleeps (concat progs)) \<Longrightarrow> byte_ok ?n s q" using inv by (auto simp: rinv_def)
  have p': "pinv progs s'" by (rule pinv_step [OF wp p st])
  have "reports_ok progs s' \<and> (\<forall>q\<in>set (sleeps (concat progs)). byte_ok ?n s' q)"
  proof (cases l)
    case (PThread t)
    then have t: "t < ?n" and a: "act_step ?n t s = Some s'"
      using st by (auto simp: psys_defs split: if_splits)
    have "th_ok (pmem s) (thr s t)" using p t by (simp add: pinv_def)
    with a show ?thesis
    proof (cases rule: act_step_result)
      case (own th')
      have "\<exists>ys. progs ! t = ys @ todo th' \<and> list_all2 (\<lambda>v vs. v \<in> set vs) (reports th') (allowed [] ys)"
        using own(3)
      proof (elim disjE exE conjE)
        assume "stays (thr s t) th'"
        then show ?thesis using r t by (simp add: reports_ok_def stays_def)
      next
        fix a assume go: "goes a ?n s (thr s t) th'"
        show ?thesis
          by (rule reports_goes [OF r t go]) (use switch_value [OF wp once t inv] goes_todo [OF go] in blast)
      qed
      then have "reports_ok progs s'" by (intro reports_at [OF r t]) (simp_all add: own(1))
      moreover have "byte_ok ?n s' q" if "q \<in> set (sleeps (concat progs))" for q
        using own_keeps_byte [OF p t a [unfolded own(1)] own(3) b [OF that]] by (simp add: own(1))
      ultimately show ?thesis by blast
    next
      case (store th' q v a')
      have "\<exists>ys. progs ! t = ys @ todo th' \<and> list_all2 (\<lambda>v vs. v \<in> set vs) (reports th') (allowed [] ys)"
        by (rule reports_goes [OF r t store(3)]) (use store(4) in auto)
      then have "reports_ok progs s'" by (intro reports_at [OF r t]) (simp_all add: store(1))
      then show ?thesis
        using store_keeps_bytes [OF wp once p t b store(3) a [unfolded store(1)] store(4)] by (simp add: store(1))
    next
      case (lint th' v)
      have "\<exists>ys. progs ! t = ys @ todo th' \<and> list_all2 (\<lambda>v vs. v \<in> set vs) (reports th') (allowed [] ys)"
        by (rule reports_goes [OF r t lint(3)]) auto
      then have "reports_ok progs s'" by (intro reports_at [OF r t]) (simp_all add: lint(1))
      moreover have "byte_ok ?n s' q" if "q \<in> set (sleeps (concat progs))" for q
      proof (rule byte_ok_keeps [OF b [OF that]])
        fix u assume u: "spc (cpu (thr s' u)) = Restore" "K_sleep q \<in> set (take 1 (todo (thr s' u)))"
        have "u \<noteq> t"
        proof
          assume "u = t"
          then show False
            using restore_from [OF a \<open>th_ok (pmem s) (thr s t)\<close>] u goes_todo [OF lint(3)] by auto
        qed
        then show "spc (cpu (thr s u)) = Restore \<and> K_sleep q \<in> set (take 1 (todo (thr s u))) \<or> pmem s q = MWMON_NOTIFIED_VAL"
          using u by (simp add: lint(1))
      qed (use goes_todo [OF lint(3)] in \<open>auto simp: lint(1)\<close>)
      ultimately show ?thesis by blast
    qed
  next
    case (PIrq t d)
    then have e: "s' = put t (interrupted d (thr s t)) s" using st by (auto simp: psys_defs split: if_splits)
    have "reports_ok progs s'" using r by (subst reports_cong [where s = s]) (simp_all add: e)
    moreover have "byte_ok ?n s' q" if "q \<in> set (sleeps (concat progs))" for q
      by (rule byte_ok_keeps [OF b [OF that]]) (auto simp: e not_restored split: if_splits)
    ultimately show ?thesis by blast
  next
    case (PStore a v)
    then have a: "a \<notin> set w" and e: "s' = s\<lparr>pmem := (pmem s)(a := v), thr := \<lambda>u. sees a (thr s u)\<rparr>"
      using st by (auto simp: psys_defs split: if_splits)
    have ne: "q \<noteq> a" if q: "q \<in> set (sleeps (concat progs))" for q
    proof -
      obtain u where u: "u < ?n" "K_sleep q \<in> set (progs ! u)"
        using slept_thread [OF q] by blast
      then obtain m where "(K_sleep q, m) \<in> set (marks (progs ! u))" using marks_fst by blast
      then show ?thesis using paired_sleep(1) [OF wp u(1)] a by blast
    qed
    have "reports_ok progs s'" using r by (subst reports_cong [where s = s]) (simp_all add: e)
    moreover have "byte_ok ?n s' q" if "q \<in> set (sleeps (concat progs))" for q
      by (rule byte_ok_keeps [OF b [OF that]]) (use ne [OF that] in \<open>auto simp: e not_restored\<close>)
    ultimately show ?thesis by blast
  qed
  then show ?thesis using p' by (simp add: rinv_def)
qed

lemma rinv_launch:
  assumes wp: "well_paired w progs" and m: "\<And>p. p \<in> set (sleeps (concat progs)) \<Longrightarrow> m p = MWMON_ORIGINAL_VAL"
  shows "rinv progs (launch m l progs masks all)"
proof -
  let ?s = "launch m l progs masks all" and ?n = "length progs"
  have td: "todo (thr ?s t) = progs ! t" "reports (thr ?s t) = []" "spc (cpu (thr ?s t)) = Done" if "t < ?n" for t
    using that by (simp_all add: launch_thread new_thread_def)
  have "byte_ok ?n ?s p" if p: "p \<in> set (sleeps (concat progs))" for p
  proof -
    obtain u where u: "u < ?n" "K_sleep p \<in> set (progs ! u)"
      using slept_thread [OF p] by blast
    then have "\<not> no_sleep ?n (\<lambda>t. todo (thr ?s t)) p" using td(1) by (auto simp: no_sleep_def)
    moreover have "pmem ?s p = MWMON_ORIGINAL_VAL" using m [OF p] by (simp add: launch_def)
    ultimately show ?thesis using td(3) by (simp add: byte_ok_def Let_def)
  qed
  moreover have "reports_ok progs ?s" by (simp add: reports_ok_def td)
  ultimately show ?thesis using pinv_launch [OF wp] by (simp add: rinv_def)
qed

text \<open>A finished thread has made all the reports of its program, each with an allowed value.\<close>

lemma finished_reports:
  assumes "well_paired w progs" and "notified_once progs"
    and "\<And>p. p \<in> set (sleeps (concat progs)) \<Longrightarrow> m p = MWMON_ORIGINAL_VAL"
    and "reachable (psys_step (length progs) w) (launch m l progs masks all) s"
    and "t < length progs" and "todo (thr s t) = []"
  shows "list_all2 (\<lambda>v vs. v \<in> set vs) (reports (thr s t)) (allowed [] (progs ! t))"
proof -
  have "rinv progs s"
    using assms(4) rinv_launch [OF assms(1,3)] rinv_step [OF assms(1,2)] by (rule reachable_invariant)
  then show ?thesis using assms(5,6) by (auto simp: rinv_def reports_ok_def)
qed

end
