(* ===== verification/Test_Programs.thy ===== *)
theory Test_Programs
  imports Thread_Reports Syscall_Table Kmem_Mapper Barrier_Locked
begin

text \<open>
  The programs that exercise the system calls: \<open>thread_test_kmon_knot.c\<close>, \<open>thread_test_umon_unot.c\<close>,
  \<open>thread_test_kmon_unot.c\<close>, \<open>thread_test_kmon_unot_2regions.c\<close> and \<open>notify_memory.c\<close>.  Each thread is
  the list of its actions; which system call a stub reaches depends on the kernel it runs on
  (\<open>Syscall_Table\<close>), and the device's memory is what opening the device leaves (\<open>Kmem_Mapper\<close>).
\<close>

section \<open>Actions of a thread\<close>

datatype act =
    Mask_zero
  | Mask_set u32
  | Set_affinity
  | Get_affinity
  | Print
  | Delay                  \<comment> \<open>\<open>sleep(1)\<close>\<close>
  | Call sysname u64
  | Store addr u8          \<comment> \<open>at an address of the program\<close>
  | Lint_store u64         \<comment> \<open>to \<open>*lint_counter_addr\<close>\<close>
  | Switch addr
  | Barrier                \<comment> \<open>\<open>SPIN_BARRIER_LSENSE(barrier, ta->lsense)\<close>\<close>

text \<open>What the kernel does when a call enters it with the given argument.\<close>

fun kernel_call :: "patch \<Rightarrow> kglobals \<Rightarrow> sysname \<Rightarrow> u64 \<Rightarrow> kact" where
  "kernel_call p g Mwmon_mmap_sleep a = K_sleep (mwmon_mmap_area g)"
| "kernel_call p g Mwmon_mmap_sleep2 a = K_sleep (mwmon_mmap_area2 g)"
| "kernel_call p g Mwmon_user_sleep a = K_sleep a"
| "kernel_call p g Mwmon_kernel_sleep a = K_sleep (mwmon_kernel_memory g)"
| "kernel_call p g Mwmon_kernel_notify a = K_store (mwmon_kernel_memory g) MWMON_NOTIFIED_VAL"
| "kernel_call p g Mwmon_mmap_spin_while_greater a = K_wait (mwmon_mmap_area g) (p = One_package_2_6_13_1) a"
| "kernel_call p g _ a = K_idle"  \<comment> \<open>the calls no thread makes\<close>

text \<open>\<open>bytes\<close> maps an address of the program to the byte the kernel knows it as.\<close>

fun perform :: "patch \<Rightarrow> kernel_version \<Rightarrow> kglobals \<Rightarrow> (addr \<Rightarrow> addr) \<Rightarrow> act \<Rightarrow> kact" where
  "perform p ver g bytes Mask_zero = K_mask_zero"
| "perform p ver g bytes (Mask_set c) = K_mask_set (sint c)"
| "perform p ver g bytes Set_affinity = K_set_affinity"
| "perform p ver g bytes Get_affinity = K_get_affinity"
| "perform p ver g bytes Print = K_idle"
| "perform p ver g bytes Delay = K_idle"
| "perform p ver g bytes (Call name a) =
     (case NR ver name of
        None \<Rightarrow> K_idle
      | Some nr \<Rightarrow> (case dispatch p nr of None \<Rightarrow> K_idle | Some c \<Rightarrow> kernel_call p g c a))"
| "perform p ver g bytes (Store a v) = K_store (bytes a) v"
| "perform p ver g bytes (Lint_store v) = K_lint v"
| "perform p ver g bytes (Switch a) = K_switch (bytes a)"
| "perform p ver g bytes Barrier = K_barrier"

definition threads :: "patch \<Rightarrow> kernel_version \<Rightarrow> kglobals \<Rightarrow> (addr \<Rightarrow> addr) \<Rightarrow> act list list \<Rightarrow> kact list list" where
  "threads p ver g bytes progs = map (map (perform p ver g bytes)) progs"

lemma length_threads [simp]: "length (threads p ver g f progs) = length progs"
  by (simp add: threads_def)

section \<open>Common parts of the programs\<close>

definition SLEEP_TIME :: nat where "SLEEP_TIME = 5"
definition NOTIFY_TIME :: nat where "NOTIFY_TIME = 10"
definition END_TIME :: nat where "END_TIME = 20"

definition cpu_of :: "cpu_config \<Rightarrow> nat \<Rightarrow> nat \<Rightarrow> u32" where
  "cpu_of cfg pkg sibling = cpu_number (sib (pk (cpus cfg) ! pkg) ! sibling)"

definition pin_self :: "cpu_config \<Rightarrow> nat \<Rightarrow> nat \<Rightarrow> act list" where
  "pin_self cfg pkg sibling = [Mask_zero, Mask_set (cpu_of cfg pkg sibling), Set_affinity, Get_affinity, Print]"

text \<open>\<open>for (i = 0; i < END_TIME; i++) { fprintf(...); sleep(1); if (i == time) ...; }\<close>\<close>

definition timed_loop :: "nat \<Rightarrow> act \<Rightarrow> act list" where
  "timed_loop time a = concat (map (\<lambda>i. [Print, Delay] @ (if i = time then [a] else [])) [0..<END_TIME])"

section \<open>\<open>thread_test_kmon_knot.c\<close>\<close>

definition knot_sleeper :: "cpu_config \<Rightarrow> act list" where
  "knot_sleeper cfg = pin_self cfg 0 0 @ timed_loop SLEEP_TIME (Call Mwmon_kernel_sleep 0)"

definition knot_notifier :: "cpu_config \<Rightarrow> act list" where
  "knot_notifier cfg = pin_self cfg 0 1 @ timed_loop NOTIFY_TIME (Call Mwmon_kernel_notify 0)"

text \<open>
  \<open>main\<close> ignores what \<open>mwmon_kernel_init\<close> returns.  The second component is what
  \<open>mwmon_kernel_finalize\<close> will hand to \<open>kfree\<close> after the threads have been joined.
\<close>

definition knot_main :: "patch \<Rightarrow> cpu_config \<Rightarrow> (u64 \<Rightarrow> addr) \<Rightarrow> kglobals \<Rightarrow> memory \<Rightarrow> u64 \<Rightarrow> kglobals \<times> psys \<times> addr" where
  "knot_main p cfg kmalloc g m all =
     (let (r, g, m) = sys_mwmon_kernel_init kmalloc g m in
      (g, launch m 0 (threads p KERNEL_2_6_13_1 g id [knot_sleeper cfg, knot_notifier cfg]) [0, 0] all,
       snd (sys_mwmon_kernel_finalize g)))"

section \<open>\<open>thread_test_umon_unot.c\<close>\<close>

definition umon_sleeper :: "cpu_config \<Rightarrow> addr \<Rightarrow> act list" where
  "umon_sleeper cfg mwmon_memory =
     pin_self cfg 0 0 @ timed_loop SLEEP_TIME (Call Mwmon_user_sleep mwmon_memory) @ [Switch mwmon_memory]"

definition umon_notifier :: "cpu_config \<Rightarrow> addr \<Rightarrow> act list" where
  "umon_notifier cfg mwmon_memory =
     pin_self cfg 0 1 @ timed_loop NOTIFY_TIME (Store mwmon_memory MWMON_NOTIFIED_VAL) @ [Switch mwmon_memory]"

text \<open>\<open>Inl\<close> is the exit status; the memory \<open>malloc\<close> returns is not initialised.\<close>

definition umon_main :: "patch \<Rightarrow> cpu_config \<Rightarrow> (u64 \<Rightarrow> addr) \<Rightarrow> kglobals \<Rightarrow> memory \<Rightarrow> u64 \<Rightarrow> int + addr \<times> psys" where
  "umon_main p cfg malloc g m all =
     (case malloc_aligned malloc (word_of_nat MWMON_MONITORED_MEM_BYTES) (word_of_nat MWMON_ALIGN_BOUNDARY) of
        None \<Rightarrow> Inl EXIT_FAILURE
      | Some u \<Rightarrow> Inr (u, launch m 0
          (threads p KERNEL_2_6_13_1 g id [umon_sleeper cfg u, umon_notifier cfg u]) [0, 0] all))"

section \<open>\<open>thread_test_kmon_unot.c\<close>\<close>

text \<open>
  Compiled for \<open>KERNEL_2_6_13_1\<close> there is a second part.  Only the notifier writes the counter, so its loop
  \<open>for ((*lint_counter_addr) = 0; (*lint_counter_addr) < 20; (*lint_counter_addr)++)\<close> is unrolled.
\<close>

definition counting_loop :: "act list" where
  "counting_loop = Lint_store 0 # concat (map (\<lambda>k. [Print, Delay, Lint_store (word_of_nat (Suc k))]) [0..<20])"

definition waiting_loop :: "act list" where
  "waiting_loop = concat (map (\<lambda>i. [Print, Delay, Call Mwmon_mmap_spin_while_greater (word_of_nat i)]) [10..<20])"

definition unot_sleeper :: "kernel_version \<Rightarrow> cpu_config \<Rightarrow> addr \<Rightarrow> act list" where
  "unot_sleeper ver cfg mmapped_device_memory =
     pin_self cfg 0 0 @ timed_loop SLEEP_TIME (Call Mwmon_mmap_sleep 0) @ [Switch mmapped_device_memory]
     @ (if ver = KERNEL_2_6_13_1 then [Barrier, Print] @ waiting_loop else [])"

definition unot_notifier :: "kernel_version \<Rightarrow> cpu_config \<Rightarrow> addr \<Rightarrow> act list" where
  "unot_notifier ver cfg mmapped_device_memory =
     pin_self cfg 0 1 @ timed_loop NOTIFY_TIME (Store mmapped_device_memory MWMON_NOTIFIED_VAL)
     @ [Switch mmapped_device_memory]
     @ (if ver = KERNEL_2_6_13_1 then [Barrier, Print] @ counting_loop else [])"

text \<open>
  \<open>main\<close>: \<open>fd\<close> and \<open>mapped\<close> are what \<open>open\<close> and \<open>mmap\<close> return (\<open>None\<close>: \<open>MAP_FAILED\<close>); the mapping shows the
  block of the driver.
\<close>

definition mapping :: "mapper \<Rightarrow> addr \<Rightarrow> addr \<Rightarrow> addr" where
  "mapping d base a = mwmon_mmap_area (areas d) + (a - base)"

text \<open>
  What \<open>main\<close> does once the memory is mapped: it initializes the barrier, whatever the global variable held, and
  starts the threads.  The senses of the threads belong to the abstract barrier of \<open>Thread_Programs\<close>.
\<close>

definition unot_run ::
  "patch \<Rightarrow> kernel_version \<Rightarrow> cpu_config \<Rightarrow> mapper \<Rightarrow> addr \<Rightarrow> kmon_spin_barrier \<Rightarrow> u64 \<Rightarrow> u64 \<Rightarrow> kmon_spin_barrier \<times> psys" where
  "unot_run p ver cfg d base barrier l all =
     (kmon_spin_barrier_init barrier 2,
      launch (kmem d) l
        (threads p ver (areas d) (mapping d base) [unot_sleeper ver cfg base, unot_notifier ver cfg base]) [0, 0] all)"

definition unot_main ::
  "patch \<Rightarrow> kernel_version \<Rightarrow> cpu_config \<Rightarrow> mapper \<Rightarrow> int \<Rightarrow> addr option \<Rightarrow> kmon_spin_barrier \<Rightarrow> u64 \<Rightarrow> u64
     \<Rightarrow> int + kmon_spin_barrier \<times> psys" where
  "unot_main p ver cfg d fd mapped barrier l all =
     (if fd < 0 then Inl (- 1)
      else let d = snd (kmem_mapper_open d) in
        case mapped of
          None \<Rightarrow> Inl (- 1)
        | Some base \<Rightarrow> Inr (unot_run p ver cfg d base barrier l all))"

text \<open>The store of \<open>main\<close> after it has joined both threads.\<close>

definition unot_end :: "mapper \<Rightarrow> psys \<Rightarrow> memory" where
  "unot_end d s = (pmem s)(mwmon_mmap_area (areas d) := MWMON_NOTIFIED_VAL)"

section \<open>\<open>thread_test_kmon_unot_2regions.c\<close>\<close>

text \<open>
  Four threads, two on each package.  The part compiled for \<open>KERNEL_2_6_13_1\<close> is left out: there the header declares no
  \<open>fast_mwmon_mmap_sleep2\<close>, which the program needs.  A thread whose \<open>id\<close> is not one of those tested uses
  uninitialised pointers (\<open>None\<close>).
\<close>

record targs =
  ta_id :: nat
  package :: nat
  sleep_time :: nat
  notify_time :: nat

definition SLEEP_TIME_PACK0 :: nat where "SLEEP_TIME_PACK0 = 5"
definition NOTIFY_TIME_PACK0 :: nat where "NOTIFY_TIME_PACK0 = 15"
definition SLEEP_TIME_PACK1 :: nat where "SLEEP_TIME_PACK1 = 8"
definition NOTIFY_TIME_PACK1 :: nat where "NOTIFY_TIME_PACK1 = 13"

definition regions_sleeper :: "addr \<Rightarrow> addr \<Rightarrow> targs \<Rightarrow> act list option" where
  "regions_sleeper mem mem2 ta =
     map_option (\<lambda>(sleep_func, area).
         [Set_affinity, Get_affinity, Print, Barrier] @ timed_loop (sleep_time ta) (Call sleep_func 0) @ [Switch area])
       (if ta_id ta = 0 then Some (Mwmon_mmap_sleep, mem)
        else if ta_id ta = 2 then Some (Mwmon_mmap_sleep2, mem2) else None)"

definition regions_notifier :: "addr \<Rightarrow> addr \<Rightarrow> targs \<Rightarrow> act list option" where
  "regions_notifier mem mem2 ta =
     map_option (\<lambda>area.
         [Set_affinity, Get_affinity, Print, Barrier]
         @ timed_loop (notify_time ta) (Store area MWMON_NOTIFIED_VAL) @ [Switch area])
       (if ta_id ta = 1 then Some mem else if ta_id ta = 3 then Some mem2 else None)"

definition cpu_mask :: "cpu_config \<Rightarrow> nat \<Rightarrow> nat \<Rightarrow> u64 option" where
  "cpu_mask cfg pkg sibling = MY_CPU_SET (sint (cpu_of cfg pkg sibling)) (MY_CPU_ZERO 0)"

definition regions_main ::
  "patch \<Rightarrow> cpu_config \<Rightarrow> mapper \<Rightarrow> int \<Rightarrow> addr option \<Rightarrow> kmon_spin_barrier \<Rightarrow> u64
     \<Rightarrow> (int + kmon_spin_barrier \<times> psys) option" where
  "regions_main p cfg d fd mapped barrier all =
     (let ta0 = \<lparr>ta_id = 0, package = 0, sleep_time = SLEEP_TIME_PACK0, notify_time = 0\<rparr>;
          ta1 = \<lparr>ta_id = 1, package = 0, sleep_time = 0, notify_time = NOTIFY_TIME_PACK0\<rparr>;
          ta2 = \<lparr>ta_id = 2, package = 1, sleep_time = SLEEP_TIME_PACK1, notify_time = 0\<rparr>;
          ta3 = \<lparr>ta_id = 3, package = 1, sleep_time = 0, notify_time = NOTIFY_TIME_PACK1\<rparr> in
      if fd < 0 then Some (Inl (- 1))
      else let d = snd (kmem_mapper_open d) in
        case mapped of
          None \<Rightarrow> Some (Inl (- 1))
        | Some mem \<Rightarrow>
            let mem2 = mem + MONITORED_REGIONS_DISTANCE in
            case (those [cpu_mask cfg 0 0, cpu_mask cfg 0 1, cpu_mask cfg 1 0, cpu_mask cfg 1 1],
                  those [regions_sleeper mem mem2 ta0, regions_notifier mem mem2 ta1,
                         regions_sleeper mem mem2 ta2, regions_notifier mem mem2 ta3]) of
              (Some masks, Some progs) \<Rightarrow>
                Some (Inr (kmon_spin_barrier_init barrier 4,
                  launch (kmem d) 0 (threads p KERNEL_2_6_24_2 (areas d) (mapping d mem) progs) masks all))
            | _ \<Rightarrow> None)"

definition regions_end :: "mapper \<Rightarrow> psys \<Rightarrow> memory" where
  "regions_end d s = (pmem s)(mwmon_mmap_area (areas d) := MWMON_NOTIFIED_VAL,
     mwmon_mmap_area (areas d) + MONITORED_REGIONS_DISTANCE := MWMON_NOTIFIED_VAL)"

section \<open>\<open>notify_memory.c\<close>\<close>

text \<open>\<open>count\<close> is \<open>atoi(argv[1])\<close>; the result is the exit status and the device.\<close>

definition notify_memory :: "mapper \<Rightarrow> int \<Rightarrow> addr option \<Rightarrow> int \<Rightarrow> int \<times> mapper" where
  "notify_memory d fd mapped count =
     (if fd < 0 then (- 1, d)
      else let d = snd (kmem_mapper_open d) in
        case mapped of
          None \<Rightarrow> (- 1, d)
        | Some base \<Rightarrow>
            (0, d\<lparr>kmem := ((\<lambda>m. m(mapping d base base := MWMON_NOTIFIED_VAL)) ^^ nat count) (kmem d)\<rparr>))"

section \<open>The programs are well paired\<close>

lemma those_simps [simp]: "those [] = Some []" "those (Some x # xs) = map_option (Cons x) (those xs)"
  by simp_all

text \<open>The loops, without the printing and the delays.\<close>

lemma essence_timed_loop:
  assumes "time < END_TIME" and "f Print = K_idle" and "f Delay = K_idle"
  shows "essence (map f (timed_loop time a)) = essence [f a]"
proof -
  have "essence (map f (concat (map (\<lambda>i. [Print, Delay] @ (if i = time then [a] else [])) [0..<n])))
      = (if time < n then essence [f a] else [])" for n
    by (induction n) (auto simp: assms(2,3) less_Suc_eq)
  then show ?thesis using assms(1) by (simp only: timed_loop_def if_True)
qed

lemma essence_loop:
  "f Print = K_idle \<Longrightarrow> f Delay = K_idle \<Longrightarrow>
   essence (map f (concat (map (\<lambda>k. [Print, Delay, h k]) ks))) = essence (map (\<lambda>k. f (h k)) ks)"
  by (induction ks) simp_all

lemma essence_busy: "(\<And>k. h k \<noteq> K_idle) \<Longrightarrow> essence (map h ks) = map h ks"
  by (induction ks) simp_all

lemma cpu_fits: "pkg < 2 \<Longrightarrow> s < 2 \<Longrightarrow> 0 \<le> sint (cpu_of cfg pkg s) \<and> sint (cpu_of cfg pkg s) < 32"
proof -
  assume "pkg < 2" "s < 2"
  then have "cpu_of cfg pkg s \<in> {0, 1, 2, 3}"
    by (cases cfg) (auto simp: cpu_of_def table_defs less_2_cases_iff)
  then show ?thesis by auto
qed

lemmas time_defs = SLEEP_TIME_def NOTIFY_TIME_def END_TIME_def
  SLEEP_TIME_PACK0_def NOTIFY_TIME_PACK0_def SLEEP_TIME_PACK1_def NOTIFY_TIME_PACK1_def

lemma knot_essence:
  assumes "p \<in> {One_package_2_6_13_1, Two_packages_2_6_13_1}"
  shows "map essence (threads p KERNEL_2_6_13_1 g f [knot_sleeper cfg, knot_notifier cfg]) =
    [[K_mask_zero, K_mask_set (sint (cpu_of cfg 0 0)), K_set_affinity, K_get_affinity, K_sleep (mwmon_kernel_memory g)],
     [K_mask_zero, K_mask_set (sint (cpu_of cfg 0 1)), K_set_affinity, K_get_affinity,
      K_store (mwmon_kernel_memory g) MWMON_NOTIFIED_VAL]]"
  using assms
  by (auto simp: threads_def knot_sleeper_def knot_notifier_def pin_self_def essence_timed_loop time_defs
      dispatch_defs Let_def)

lemma umon_essence:
  assumes "p \<in> {One_package_2_6_13_1, Two_packages_2_6_13_1}"
  shows "map essence (threads p KERNEL_2_6_13_1 g (\<lambda>a. a) [umon_sleeper cfg u, umon_notifier cfg u]) =
    [[K_mask_zero, K_mask_set (sint (cpu_of cfg 0 0)), K_set_affinity, K_get_affinity, K_sleep u, K_switch u],
     [K_mask_zero, K_mask_set (sint (cpu_of cfg 0 1)), K_set_affinity, K_get_affinity,
      K_store u MWMON_NOTIFIED_VAL, K_switch u]]"
  using assms
  by (auto simp: threads_def umon_sleeper_def umon_notifier_def pin_self_def essence_timed_loop time_defs
      dispatch_defs Let_def)

lemma mapping_base [simp]: "mapping d base base = mwmon_mmap_area (areas d)"
  by (simp add: mapping_def)

lemma unot_essence_24:
  "map essence (threads Two_packages_2_6_24_2 KERNEL_2_6_24_2 (areas d) (mapping d base)
      [unot_sleeper KERNEL_2_6_24_2 cfg base, unot_notifier KERNEL_2_6_24_2 cfg base]) =
    [[K_mask_zero, K_mask_set (sint (cpu_of cfg 0 0)), K_set_affinity, K_get_affinity,
      K_sleep (mwmon_mmap_area (areas d)), K_switch (mwmon_mmap_area (areas d))],
     [K_mask_zero, K_mask_set (sint (cpu_of cfg 0 1)), K_set_affinity, K_get_affinity,
      K_store (mwmon_mmap_area (areas d)) MWMON_NOTIFIED_VAL, K_switch (mwmon_mmap_area (areas d))]]"
  by (simp add: threads_def unot_sleeper_def unot_notifier_def pin_self_def essence_timed_loop time_defs
      dispatch_defs Let_def)

lemma essence_waiting:
  assumes "p \<in> {One_package_2_6_13_1, Two_packages_2_6_13_1}"
  shows "essence (map (perform p KERNEL_2_6_13_1 g f) waiting_loop) =
    map (\<lambda>i. if p = One_package_2_6_13_1 then K_wait (mwmon_mmap_area g) True (word_of_nat i)
              else K_sleep (mwmon_mmap_area2 g)) [10..<20]"
proof -
  let ?f = "perform p KERNEL_2_6_13_1 g f"
  have k: "?f (Call Mwmon_mmap_spin_while_greater a) =
      (if p = One_package_2_6_13_1 then K_wait (mwmon_mmap_area g) True a else K_sleep (mwmon_mmap_area2 g))" for a
    using assms by (auto simp: dispatch_defs)
  have "essence (map ?f waiting_loop) = essence (map (\<lambda>i. ?f (Call Mwmon_mmap_spin_while_greater (word_of_nat i))) [10..<20])"
    unfolding waiting_loop_def by (rule essence_loop) simp_all
  also have "\<dots> = map (\<lambda>i. ?f (Call Mwmon_mmap_spin_while_greater (word_of_nat i))) [10..<20]"
    by (rule essence_busy) (simp only: k split: if_split, simp)
  finally show ?thesis by (simp only: k)
qed

lemma essence_counting:
  "essence (map (perform p ver g f) counting_loop) = K_lint 0 # map (\<lambda>k. K_lint (word_of_nat (Suc k))) [0..<20]"
proof -
  let ?f = "perform p ver g f"
  have "essence (map ?f counting_loop) = K_lint 0 # essence (map (\<lambda>k. ?f (Lint_store (word_of_nat (Suc k)))) [0..<20])"
    unfolding counting_loop_def by (simp only: list.map essence_simps perform.simps kact.distinct if_False)
      (simp only: essence_loop [of ?f] perform.simps)
  also have "\<dots> = K_lint 0 # map (\<lambda>k. K_lint (word_of_nat (Suc k))) [0..<20]"
    by (simp only: perform.simps essence_busy kact.distinct not_False_eq_True)
  finally show ?thesis .
qed

lemma unot_essence_13:
  "map essence (threads p KERNEL_2_6_13_1 (areas d) (mapping d base)
      [unot_sleeper KERNEL_2_6_13_1 cfg base, unot_notifier KERNEL_2_6_13_1 cfg base]) =
    [[K_mask_zero, K_mask_set (sint (cpu_of cfg 0 0)), K_set_affinity, K_get_affinity,
      K_sleep (mwmon_mmap_area (areas d)), K_switch (mwmon_mmap_area (areas d)), K_barrier]
     @ map (\<lambda>i. if p = One_package_2_6_13_1 then K_wait (mwmon_mmap_area (areas d)) True (word_of_nat i)
               else K_sleep (mwmon_mmap_area2 (areas d))) [10..<20],
     [K_mask_zero, K_mask_set (sint (cpu_of cfg 0 1)), K_set_affinity, K_get_affinity,
      K_store (mwmon_mmap_area (areas d)) MWMON_NOTIFIED_VAL, K_switch (mwmon_mmap_area (areas d)), K_barrier,
      K_lint 0] @ map (\<lambda>k. K_lint (word_of_nat (Suc k))) [0..<20]]"
  if "p \<in> {One_package_2_6_13_1, Two_packages_2_6_13_1}"
  using that
  by (auto simp: threads_def unot_sleeper_def unot_notifier_def pin_self_def essence_timed_loop time_defs
      essence_waiting essence_counting dispatch_defs)

lemma upt_20: "[0..<20] = [0, 1, 2, 3, 4, 5, 6, 7, 8, 9, 10, 11, 12, 13, 14, 15, 16, 17, 18, 19 :: nat]"
  by code_simp

lemma upt_10_20: "[10..<20] = [10, 11, 12, 13, 14, 15, 16, 17, 18, 19 :: nat]"
  by code_simp

lemma threads_nonempty: "threads p ver g f (x # xs) \<noteq> []"
  by (simp add: threads_def)

lemmas paired_by_essence = well_paired_essence [OF _ threads_nonempty]

lemma knot_paired:
  assumes "p \<in> {One_package_2_6_13_1, Two_packages_2_6_13_1}"
  shows "well_paired [mwmon_kernel_memory g] (threads p KERNEL_2_6_13_1 g f [knot_sleeper cfg, knot_notifier cfg])"
  by (rule paired_by_essence, subst knot_essence [OF assms])
    (use cpu_fits [of 0 0 cfg] cpu_fits [of 0 1 cfg] in \<open>simp add: well_paired_def mark_ok_def\<close>)

lemma umon_paired:
  assumes "p \<in> {One_package_2_6_13_1, Two_packages_2_6_13_1}"
  shows "well_paired [u] (threads p KERNEL_2_6_13_1 g (\<lambda>a. a) [umon_sleeper cfg u, umon_notifier cfg u])"
  by (rule paired_by_essence, subst umon_essence [OF assms])
    (use cpu_fits [of 0 0 cfg] cpu_fits [of 0 1 cfg] in \<open>simp add: well_paired_def mark_ok_def\<close>)

lemma unot_paired_24:
  "well_paired [mwmon_mmap_area (areas d)] (threads Two_packages_2_6_24_2 KERNEL_2_6_24_2 (areas d) (mapping d base)
      [unot_sleeper KERNEL_2_6_24_2 cfg base, unot_notifier KERNEL_2_6_24_2 cfg base])"
  by (rule paired_by_essence, subst unot_essence_24)
    (use cpu_fits [of 0 0 cfg] cpu_fits [of 0 1 cfg] in \<open>simp add: well_paired_def mark_ok_def\<close>)

lemma unot_paired_13:
  "well_paired [mwmon_mmap_area (areas d)] (threads One_package_2_6_13_1 KERNEL_2_6_13_1 (areas d) (mapping d base)
      [unot_sleeper KERNEL_2_6_13_1 cfg base, unot_notifier KERNEL_2_6_13_1 cfg base])"
  by (rule paired_by_essence, subst unot_essence_13, simp)
    (use cpu_fits [of 0 0 cfg] cpu_fits [of 0 1 cfg] in \<open>simp add: well_paired_def mark_ok_def upt_20 upt_10_20\<close>)

definition regions_progs :: "addr \<Rightarrow> act list list" where
  "regions_progs mem =
     (let mem2 = mem + MONITORED_REGIONS_DISTANCE; start = [Set_affinity, Get_affinity, Print, Barrier] in
      [start @ timed_loop SLEEP_TIME_PACK0 (Call Mwmon_mmap_sleep 0) @ [Switch mem],
       start @ timed_loop NOTIFY_TIME_PACK0 (Store mem MWMON_NOTIFIED_VAL) @ [Switch mem],
       start @ timed_loop SLEEP_TIME_PACK1 (Call Mwmon_mmap_sleep2 0) @ [Switch mem2],
       start @ timed_loop NOTIFY_TIME_PACK1 (Store mem2 MWMON_NOTIFIED_VAL) @ [Switch mem2]])"

lemma init_total [simp]: "kb_total (kmon_spin_barrier_init barrier n) = n"
  by (simp add: kmon_spin_barrier_init_def)

lemma regions_main_launches:
  assumes "regions_main p cfg d fd mapped barrier all = Some (Inr (bar, s0))"
  obtains mem masks where "kb_total bar = 4" and "s0 = launch (kmem (snd (kmem_mapper_open d))) 0
     (threads p KERNEL_2_6_24_2 (areas d) (mapping d mem) (regions_progs mem)) masks all"
proof -
  have o: "areas (snd (kmem_mapper_open d)) = areas d" "mapping (snd (kmem_mapper_open d)) = mapping d"
    by (simp_all add: kmem_mapper_open_def mapping_def fun_eq_iff)
  show thesis
    using assms that
    by (auto simp: regions_main_def Let_def regions_progs_def regions_sleeper_def regions_notifier_def o
        split: if_splits option.splits simp del: append.simps)
qed

lemma regions_essence:
  "map essence (threads Two_packages_2_6_24_2 KERNEL_2_6_24_2 (areas d) (mapping d mem) (regions_progs mem)) =
    [[K_set_affinity, K_get_affinity, K_barrier, K_sleep (mwmon_mmap_area (areas d)), K_switch (mwmon_mmap_area (areas d))],
     [K_set_affinity, K_get_affinity, K_barrier, K_store (mwmon_mmap_area (areas d)) MWMON_NOTIFIED_VAL,
      K_switch (mwmon_mmap_area (areas d))],
     [K_set_affinity, K_get_affinity, K_barrier, K_sleep (mwmon_mmap_area (areas d) + 512),
      K_switch (mwmon_mmap_area (areas d) + 512)],
     [K_set_affinity, K_get_affinity, K_barrier, K_store (mwmon_mmap_area (areas d) + 512) MWMON_NOTIFIED_VAL,
      K_switch (mwmon_mmap_area (areas d) + 512)]]"
  if "mwmon_mmap_area2 (areas d) = mwmon_mmap_area (areas d) + 512"
  using that
  by (simp add: threads_def regions_progs_def Let_def essence_timed_loop time_defs dispatch_defs
      MONITORED_REGIONS_DISTANCE_def mapping_def)

lemma regions_paired:
  assumes "mwmon_mmap_area2 (areas d) = mwmon_mmap_area (areas d) + 512"
  shows "well_paired [mwmon_mmap_area (areas d), mwmon_mmap_area2 (areas d)]
    (threads Two_packages_2_6_24_2 KERNEL_2_6_24_2 (areas d) (mapping d mem) (regions_progs mem))"
proof (rule well_paired_essence)
  show "threads Two_packages_2_6_24_2 KERNEL_2_6_24_2 (areas d) (mapping d mem) (regions_progs mem) \<noteq> []"
    by (simp add: threads_def regions_progs_def Let_def)
qed (simp add: regions_essence [OF assms] well_paired_def mark_ok_def assms)

lemma unot_main_launches:
  assumes "unot_main p ver cfg d fd mapped barrier l all = Inr (bar, s0)"
  obtains base where "kb_total bar = 2" and "s0 = launch (kmem (snd (kmem_mapper_open d))) l
     (threads p ver (areas d) (mapping d base) [unot_sleeper ver cfg base, unot_notifier ver cfg base]) [0, 0] all"
proof -
  have o: "areas (snd (kmem_mapper_open d)) = areas d" "mapping (snd (kmem_mapper_open d)) = mapping d"
    by (simp_all add: kmem_mapper_open_def mapping_def fun_eq_iff)
  show thesis using assms that by (auto simp: unot_main_def unot_run_def Let_def o split: if_splits option.splits)
qed

text \<open>Opening the device has set the watched bytes.\<close>

lemma opened_memory:
  "kmem (snd (kmem_mapper_open d)) (mwmon_mmap_area (areas d)) = MWMON_ORIGINAL_VAL"
  "kmem (snd (kmem_mapper_open d)) (mwmon_mmap_area2 (areas d)) = MWMON_ORIGINAL_VAL"
  by (simp_all add: kmem_mapper_open_def init_regions_mem)

end
