(* ===== verification/Thread_Stuck.thy ===== *)
theory Thread_Stuck
  imports Thread_Reports
begin

text \<open>
  A thread that is to sleep on a byte nobody notifies does not finish, whatever the others do.
\<close>

definition sleeps_for_ever :: "nat \<Rightarrow> nat \<Rightarrow> addr \<Rightarrow> psys \<Rightarrow> bool" where
  "sleeps_for_ever n t p s \<longleftrightarrow>
     (\<forall>u<n. th_ok (pmem s) (thr s u)) \<and> pmem s p \<noteq> MWMON_NOTIFIED_VAL
   \<and> no_store n (\<lambda>u. todo (thr s u)) p \<and> K_sleep p \<in> set (todo (thr s t))
   \<and> \<not> (spc (cpu (thr s t)) = Restore \<and> K_sleep p \<in> set (take 1 (todo (thr s t))))"

lemma no_store_sub: "no_store n td p \<Longrightarrow> (\<And>u. set (td' u) \<subseteq> set (td u)) \<Longrightarrow> no_store n td' p"
  unfolding no_store_def by blast

lemma sleeps_for_ever_act:
  assumes inv: "sleeps_for_ever n t p s" and t: "t < n" "u < n" and a: "act_step n u s = Some s'"
  shows "sleeps_for_ever n t p s'"
proof -
  have ok: "\<And>u. u < n \<Longrightarrow> th_ok (pmem s) (thr s u)" and m: "pmem s p \<noteq> MWMON_NOTIFIED_VAL"
    and ns: "no_store n (\<lambda>u. todo (thr s u)) p" and sl: "K_sleep p \<in> set (todo (thr s t))"
    and r: "\<not> (spc (cpu (thr s t)) = Restore \<and> K_sleep p \<in> set (take 1 (todo (thr s t))))"
    using inv by (auto simp: sleeps_for_ever_def)
  have r': "\<not> (spc (cpu (thr s' t)) = Restore \<and> K_sleep p \<in> set (take 1 (todo (thr s' t))))" if "u = t"
    using restore_from [OF a ok [OF t(2)]] m r that by auto
  show ?thesis
    using a ok [OF t(2)]
  proof (cases rule: act_step_result)
    case (own th')
    have "set (todo th') \<subseteq> set (todo (thr s u))" "K_sleep p \<in> set (todo (thr s u)) \<Longrightarrow> K_sleep p \<in> set (todo th')"
      using own(3) by (auto dest!: goes_todo stays_todo)
    moreover have "no_store n (\<lambda>u. todo (thr s' u)) p"
      by (rule no_store_sub [OF ns]) (use calculation own(1) in auto)
    ultimately show ?thesis
      unfolding sleeps_for_ever_def using own(1,2) ok m sl r r' by auto
  next
    case (store th' q v b)
    have td: "todo (thr s u) = b # todo th'" using goes_todo [OF store(3)] .
    have "b \<noteq> K_store p v" using ns t(2) td unfolding no_store_def by (metis list.set_intros(1))
    then have v: "(if q = p then v else pmem s p) \<noteq> MWMON_NOTIFIED_VAL" using store(4) m by auto
    have "b \<noteq> K_sleep p" if "u = t" using that store(4) r td by auto
    moreover have "no_store n (\<lambda>u. todo (thr s' u)) p"
      by (rule no_store_sub [OF ns]) (use td store(1) in auto)
    ultimately show ?thesis
      unfolding sleeps_for_ever_def using store(1,2) ok v sl r r' td by (auto simp: th_ok_sees not_restored)
  next
    case (lint th' v)
    have "no_store n (\<lambda>u. todo (thr s' u)) p"
      by (rule no_store_sub [OF ns]) (use goes_todo [OF lint(3)] lint(1) in auto)
    then show ?thesis
      unfolding sleeps_for_ever_def using goes_todo [OF lint(3)] lint(1,2) ok m sl r r' by auto
  qed
qed

lemma sleeps_for_ever_step:
  assumes inv: "sleeps_for_ever n t p s" and "t < n" and "p \<in> set w" and st: "psys_step n w s l = Some s'"
  shows "sleeps_for_ever n t p s'"
proof (cases l)
  case (PThread u)
  then show ?thesis using st sleeps_for_ever_act [OF inv assms(2)] by (auto simp: psys_defs split: if_splits)
next
  case (PIrq u d)
  then have e: "s' = put u (interrupted d (thr s u)) s" "u < n" "irqs (cpu (thr s u))"
    using st by (auto simp: psys_defs split: if_splits)
  have "todo (thr s' v) = todo (thr s v)" for v by (simp add: e)
  then show ?thesis using inv e unfolding sleeps_for_ever_def by (auto simp: th_ok_interrupted not_restored)
next
  case (PStore a v)
  then show ?thesis using st inv assms(3)
    by (auto simp: psys_defs sleeps_for_ever_def th_ok_sees not_restored split: if_splits)
qed

lemma never_finishes:
  assumes "t < length progs" and "p \<in> set w" and "K_sleep p \<in> set (progs ! t)"
    and "p \<notin> set (stored (concat progs))" and "m p \<noteq> MWMON_NOTIFIED_VAL"
    and "reachable (psys_step (length progs) w) (launch m l progs masks all) s"
  shows "todo (thr s t) \<noteq> []"
proof -
  have "\<And>u v. u < length progs \<Longrightarrow> K_store p v \<notin> set (progs ! u)"
    using assms(4) by (auto simp: set_stored)
  then have "sleeps_for_ever (length progs) t p (launch m l progs masks all)"
    using assms(1,3,5) by (simp add: sleeps_for_ever_def launch_def new_thread_def th_ok_done no_store_def)
  then have "sleeps_for_ever (length progs) t p s"
    by (rule reachable_invariant [OF assms(6)]) (rule sleeps_for_ever_step [OF _ assms(1,2)])
  then show ?thesis by (auto simp: sleeps_for_ever_def)
qed

end
