(* ===== verification/Test_Runs.thy ===== *)
theory Test_Runs
  imports Test_Programs Thread_Stuck
begin

text \<open>
  The runs of the test programs on a loaded driver: they can always be finished, the reports they end with, and the
  one that cannot end on the kernel with the wrong number in its stub.
\<close>

section \<open>The programs as they start, on the kernels they are for\<close>

text \<open>
  The driver after it has been loaded, whatever has been done with it since: its operations, and
  stores of other programs to the memory.
\<close>

inductive loaded :: "kernel \<Rightarrow> mapper \<Rightarrow> bool" for k :: kernel where
  loaded_init: "kmem_mapper_init k13 k s = Some (0, d) \<Longrightarrow> loaded k d"
| loaded_op: "loaded k d \<Longrightarrow> loaded k (file_op k f d)"
| loaded_store: "loaded k d \<Longrightarrow> loaded k (d\<lparr>kmem := (kmem d)(a := v)\<rparr>)"

lemma loaded_areas:
  assumes "loaded k d" and "allocator (kmalloc_fn k)"
  shows "mwmon_mmap_area2 (areas d) = mwmon_mmap_area (areas d) + 512"
  using assms
proof (induction rule: loaded.induct)
  case (loaded_init k13 s d)
  then show ?case using init_zero(6,7) by simp
qed (simp_all add: file_op_keeps)

text \<open>
  \<open>device_start b n w s\<close>: a program on the device with a barrier for \<open>b\<close>, \<open>n\<close> threads and the watched bytes \<open>w\<close> starts its
  threads in \<open>s\<close>.
\<close>

inductive device_start :: "nat \<Rightarrow> nat \<Rightarrow> addr list \<Rightarrow> psys \<Rightarrow> bool" where
  unot: "loaded k d \<Longrightarrow>
     unot_main Two_packages_2_6_24_2 KERNEL_2_6_24_2 cfg d fd mapped barrier l all = Inr (bar, s) \<Longrightarrow>
     device_start (unat (kb_total bar)) 2 [mwmon_mmap_area (areas d)] s"
| regions: "loaded k d \<Longrightarrow> allocator (kmalloc_fn k) \<Longrightarrow>
     regions_main Two_packages_2_6_24_2 cfg d fd mapped barrier all = Some (Inr (bar, s)) \<Longrightarrow>
     device_start (unat (kb_total bar)) 4 [mwmon_mmap_area (areas d), mwmon_mmap_area2 (areas d)] s"

text \<open>
  The driver of the repository needs the second region, which the one-package kernel does not export: on that kernel
  \<open>thread_test_kmon_unot.c\<close> is started with any mapped page (\<open>unot_13\<close>), not with the driver.  Two starts are left out:
  \<open>thread_test_kmon_unot.c\<close> on the two-package kernel 2.6.13.1, which never ends, and \<open>thread_test_kmon_knot.c\<close> after
  \<open>mwmon_kernel_init\<close> has failed, when the threads monitor and write address 0.  The programs without a barrier are given
  one for their two threads.
\<close>

inductive test_start :: "nat \<Rightarrow> nat \<Rightarrow> addr list \<Rightarrow> psys \<Rightarrow> bool" where
  knot: "p \<in> {One_package_2_6_13_1, Two_packages_2_6_13_1} \<Longrightarrow> knot_main p cfg kmalloc g m all = (g', s, f) \<Longrightarrow>
     mwmon_kernel_memory g' \<noteq> 0 \<Longrightarrow> test_start 2 2 [mwmon_kernel_memory g'] s"
| umon: "p \<in> {One_package_2_6_13_1, Two_packages_2_6_13_1} \<Longrightarrow> umon_main p cfg malloc g m all = Inr (u, s) \<Longrightarrow>
     test_start 2 2 [u] s"
| unot_13: "unot_run One_package_2_6_13_1 KERNEL_2_6_13_1 cfg d base barrier l all = (bar, s) \<Longrightarrow>
     test_start (unat (kb_total bar)) 2 [mwmon_mmap_area (areas d)] s"
| device: "device_start b n w s \<Longrightarrow> test_start b n w s"

text \<open>What is asked of a program for its reports can be read off its essential actions.\<close>

lemma reports_by_essence:
  assumes E: "map essence progs = E" and "notified_once E"
    and "\<And>t. t < length E \<Longrightarrow> allowed [] (E ! t) = r t" and "\<And>p. p \<in> set (sleeps (concat E)) \<Longrightarrow> Q p"
  shows "notified_once progs" and "\<And>t. t < length progs \<Longrightarrow> allowed [] (progs ! t) = r t"
    and "\<And>p. p \<in> set (sleeps (concat progs)) \<Longrightarrow> Q p"
proof -
  show "notified_once progs" using notified_once_essence assms(1,2) by simp
  show "allowed [] (progs ! t) = r t" if "t < length progs" for t
    using allowed_essence [of "[]" "progs ! t"] assms(3) [of t] that by (simp flip: E)
  have "sleeps (concat progs) = sleeps (concat E)" by (simp add: sleeps_concat o_def flip: E)
  then show "Q p" if "p \<in> set (sleeps (concat progs))" for p using assms(4) that by simp
qed

lemma device_start_paired:
  assumes "device_start b n w s"
  obtains m l progs masks all where "b = n" and "s = launch m l progs masks all" and "length progs = n" and "well_paired w progs"
    and "notified_once progs" and "\<And>p. p \<in> set (sleeps (concat progs)) \<Longrightarrow> m p = MWMON_ORIGINAL_VAL"
    and "\<And>t. t < n \<Longrightarrow> allowed [] (progs ! t) =
      [if even t then [MWMON_ORIGINAL_VAL] else [MWMON_ORIGINAL_VAL, MWMON_NOTIFIED_VAL]]"
  using assms
proof cases
  case (unot k d cfg fd mapped barrier l all bar)
  obtain base where b: "kb_total bar = 2" and s: "s = launch (kmem (snd (kmem_mapper_open d))) l
     (threads Two_packages_2_6_24_2 KERNEL_2_6_24_2 (areas d) (mapping d base)
        [unot_sleeper KERNEL_2_6_24_2 cfg base, unot_notifier KERNEL_2_6_24_2 cfg base]) [0, 0] all"
    using unot_main_launches [OF unot(5)] by blast
  let ?progs = "threads Two_packages_2_6_24_2 KERNEL_2_6_24_2 (areas d) (mapping d base)
    [unot_sleeper KERNEL_2_6_24_2 cfg base, unot_notifier KERNEL_2_6_24_2 cfg base]"
  let ?r = "\<lambda>t. [if even t then [MWMON_ORIGINAL_VAL] else [MWMON_ORIGINAL_VAL, MWMON_NOTIFIED_VAL]]"
  note E = unot_essence_24 [of d base cfg]
  have once: "notified_once (map essence ?progs)" by (simp add: E notified_once_def)
  have al: "allowed [] (map essence ?progs ! t) = ?r t" if "t < length (map essence ?progs)" for t
    using that unfolding E by (auto simp: less_Suc_eq)
  have m: "kmem (snd (kmem_mapper_open d)) p = MWMON_ORIGINAL_VAL" if "p \<in> set (sleeps (concat (map essence ?progs)))" for p
    using that opened_memory [of d] unfolding E by auto
  note r = reports_by_essence [OF refl once al m]
  have n: "length ?progs = 2" by simp
  show thesis
    by (rule that [OF _ s]) (use unot(1-3) unot_paired_24 r n b in simp_all)
next
  case (regions k d cfg fd mapped barrier all bar)
  obtain mem masks where b: "kb_total bar = 4" and s: "s = launch (kmem (snd (kmem_mapper_open d))) 0
     (threads Two_packages_2_6_24_2 KERNEL_2_6_24_2 (areas d) (mapping d mem) (regions_progs mem)) masks all"
    using regions_main_launches [OF regions(6)] by blast
  let ?progs = "threads Two_packages_2_6_24_2 KERNEL_2_6_24_2 (areas d) (mapping d mem) (regions_progs mem)"
  let ?r = "\<lambda>t. [if even t then [MWMON_ORIGINAL_VAL] else [MWMON_ORIGINAL_VAL, MWMON_NOTIFIED_VAL]]"
  note a2 = loaded_areas [OF regions(4,5)]
  note E = regions_essence [OF a2, of mem]
  have once: "notified_once (map essence ?progs)" by (simp add: E notified_once_def)
  have al: "allowed [] (map essence ?progs ! t) = ?r t" if "t < length (map essence ?progs)" for t
  proof -
    have "t \<in> {0, 1, 2, 3}" using that unfolding E by auto
    then show ?thesis unfolding E by auto
  qed
  have m: "kmem (snd (kmem_mapper_open d)) p = MWMON_ORIGINAL_VAL" if "p \<in> set (sleeps (concat (map essence ?progs)))" for p
    using that opened_memory [of d] a2 unfolding E by auto
  note r = reports_by_essence [OF refl once al m]
  have n: "length ?progs = 4" by (simp add: regions_progs_def Let_def)
  show thesis
    by (rule that [OF _ s]) (use regions(1-3) b regions_paired [OF a2] r n in simp_all)
qed

lemma test_start_paired:
  assumes "test_start b n w s"
  obtains m l progs masks all where "b = n" and "s = launch m l progs masks all" and "length progs = n" and "well_paired w progs"
  using assms
proof cases
  case (knot p cfg kmalloc g m all g' f)
  then have "s = launch (snd (snd (sys_mwmon_kernel_init kmalloc g m))) 0
      (threads p KERNEL_2_6_13_1 g' id [knot_sleeper cfg, knot_notifier cfg]) [0, 0] all"
    by (auto simp: knot_main_def Let_def split: prod.splits)
  from that [OF _ this] show thesis using knot(1-3) knot_paired [OF knot(4)] by simp
next
  case (umon p cfg malloc g m all u)
  then have "s = launch m 0 (threads p KERNEL_2_6_13_1 g id [umon_sleeper cfg u, umon_notifier cfg u]) [0, 0] all"
    by (auto simp: umon_main_def split: option.splits)
  from that [OF _ this] show thesis using umon(1-3) umon_paired [OF umon(4), of u g cfg] by (simp add: id_def)
next
  case (unot_13 cfg d base barrier l all bar)
  then have s: "s = launch (kmem d) l (threads One_package_2_6_13_1 KERNEL_2_6_13_1 (areas d) (mapping d base)
        [unot_sleeper KERNEL_2_6_13_1 cfg base, unot_notifier KERNEL_2_6_13_1 cfg base]) [0, 0] all"
    and two: "kb_total bar = 2" by (auto simp: unot_run_def)
  from that [OF _ s] show thesis using unot_13(1-3) two unot_paired_13 by simp
next
  case device
  then show thesis using device_start_paired that by metis
qed

lemma test_start_can_finish:
  assumes "test_start b n w s0" and "reachable (prog_step b n w) s0 s"
  shows "\<exists>ls s'. run (prog_step b n w) s ls = Some s' \<and> all_done n s'"
proof -
  obtain m l progs masks all where "b = n" "s0 = launch m l progs masks all" "length progs = n" "well_paired w progs"
    using test_start_paired [OF assms(1)] by blast
  then show ?thesis using can_finish [of w progs m l masks all s] assms(2) by (simp add: psys_step_def)
qed

text \<open>A driver as it is after loading, and the single-region program on it.\<close>

lemma willing_kernel_loads:
  obtains d where "loaded willing_kernel d" and "mwmon_mmap_area (areas d) = 12288"
  using willing_kernel_inits [of False] loaded_init by blast

lemma unot_starts:
  assumes "loaded k d"
  obtains bar s where "unot_main Two_packages_2_6_24_2 KERNEL_2_6_24_2 CPU_XEON d 3 (Some 4096) barrier 0 15 = Inr (bar, s)"
    and "device_start 2 2 [mwmon_mmap_area (areas d)] s"
proof -
  obtain bar s where s: "unot_main Two_packages_2_6_24_2 KERNEL_2_6_24_2 CPU_XEON d 3 (Some 4096) barrier 0 15 = Inr (bar, s)"
    by (cases "unot_main Two_packages_2_6_24_2 KERNEL_2_6_24_2 CPU_XEON d 3 (Some 4096) barrier 0 15")
      (auto simp: unot_main_def Let_def)
  have "kb_total bar = 2" using unot_main_launches [OF s] by blast
  then have "device_start 2 2 [mwmon_mmap_area (areas d)] s" using device_start.unot [OF assms s] by simp
  with s show thesis by (rule that)
qed

section \<open>Properties\<close>

text \<open>A barrier variable before it is initialized.\<close>

definition bar0 :: kmon_spin_barrier where
  "bar0 = \<lparr>kb_lock = None, kb_release_flag = 7, kb_current_count = 7, kb_total = 7\<rparr>"



text \<open>
  C20.  What the programs on the mapped device report, if no other program writes the watched bytes: when they have
  finished, every sleeper has reported once, the original value, because its call put it back, and every notifier once,
  the original or the notified value.
\<close>

theorem device_reports:
  assumes "device_start b n w s0" and "reachable (prog_step b n w) s0 s" and "all_done n s" and "t < n"
  shows "\<exists>v. reports (thr s t) = [v]
    \<and> v \<in> set (if even t then [MWMON_ORIGINAL_VAL] else [MWMON_ORIGINAL_VAL, MWMON_NOTIFIED_VAL])"
proof -
  obtain m l progs masks all where bn: "b = n" and p: "s0 = launch m l progs masks all" "length progs = n" "well_paired w progs"
    "notified_once progs" "\<And>p. p \<in> set (sleeps (concat progs)) \<Longrightarrow> m p = MWMON_ORIGINAL_VAL"
    "\<And>t. t < n \<Longrightarrow> allowed [] (progs ! t) =
      [if even t then [MWMON_ORIGINAL_VAL] else [MWMON_ORIGINAL_VAL, MWMON_NOTIFIED_VAL]]"
    using device_start_paired [OF assms(1)] by blast
  have "list_all2 (\<lambda>v vs. v \<in> set vs) (reports (thr s t)) (allowed [] (progs ! t))"
    by (rule finished_reports [OF p(3,4,5)]) (use assms p(1,2) bn in \<open>auto simp: all_done_def psys_step_def\<close>)
  then show ?thesis unfolding p(6) [OF assms(4)] by (auto simp: list_all2_Cons2)
qed

theorem device_reports_witness:
  "\<exists>s0 s. device_start 2 2 [12288] s0 \<and> reachable (prog_step 2 2 [12288]) s0 s \<and> all_done 2 s
     \<and> reports (thr s 0) = [MWMON_ORIGINAL_VAL]"
proof -
  obtain d where d: "loaded willing_kernel d" "mwmon_mmap_area (areas d) = 12288"
    by (rule willing_kernel_loads)
  obtain s0 where s0: "device_start 2 2 [12288] s0" using unot_starts [OF d(1), of bar0] d(2) by metis
  obtain ls s where s: "run (prog_step 2 2 [12288]) s0 ls = Some s" "all_done 2 s"
    using test_start_can_finish [OF test_start.device [OF s0] reachable.intros(1)] by blast
  have r: "reachable (prog_step 2 2 [12288]) s0 s" using s(1) by (rule run_reachable)
  show ?thesis using device_reports [OF s0 r s(2), of 0] s0 r s(2) by auto
qed

text \<open>
  C21.  Built for the kernels 2.6.13.1 and run on the one with the two-package patch,
  \<open>thread_test_kmon_unot.c\<close> never ends: the stub of \<open>mwmon_mmap_spin_while_greater\<close> puts the sleeper to
  sleep on the second region, which nobody notifies.
\<close>

theorem unot_hangs_on_two_packages:
  assumes "loaded k d" and "allocator (kmalloc_fn k)"
    and "unot_main Two_packages_2_6_13_1 KERNEL_2_6_13_1 cfg d fd mapped barrier l all = Inr (bar, s0)"
    and "reachable (prog_step (unat (kb_total bar)) 2 [mwmon_mmap_area (areas d), mwmon_mmap_area2 (areas d)]) s0 s"
  shows "\<not> all_done 2 s"
proof -
  let ?a = "mwmon_mmap_area (areas d)" and ?b = "mwmon_mmap_area2 (areas d)"
  obtain base where bar: "kb_total bar = 2" and s0: "s0 = launch (kmem (snd (kmem_mapper_open d))) l
     (threads Two_packages_2_6_13_1 KERNEL_2_6_13_1 (areas d) (mapping d base)
        [unot_sleeper KERNEL_2_6_13_1 cfg base, unot_notifier KERNEL_2_6_13_1 cfg base]) [0, 0] all"
    using unot_main_launches [OF assms(3)] by blast
  let ?progs = "threads Two_packages_2_6_13_1 KERNEL_2_6_13_1 (areas d) (mapping d base)
    [unot_sleeper KERNEL_2_6_13_1 cfg base, unot_notifier KERNEL_2_6_13_1 cfg base]"
  have ab: "?b \<noteq> ?a" using loaded_areas [OF assms(1,2)] by simp
  note E = unot_essence_13 [of Two_packages_2_6_13_1 d base cfg, simplified]
  have "sleeps (?progs ! 0) = sleeps (map essence ?progs ! 0)" by simp
  then have sl: "K_sleep ?b \<in> set (?progs ! 0)" unfolding E by (simp add: upt_10_20 flip: set_sleeps)
  have "stored (concat ?progs) = stored (concat (map essence ?progs))" by (simp add: stored_concat o_def)
  then have st: "?b \<notin> set (stored (concat ?progs))" unfolding E using ab by (auto simp: upt_20 upt_10_20)
  have len: "length ?progs = 2" by simp
  have "reachable (psys_step (length ?progs) [?a, ?b]) (launch (kmem (snd (kmem_mapper_open d))) l ?progs [0, 0] all) s"
    unfolding len psys_step_def using assms(4) s0 bar by simp
  then have "todo (thr s 0) \<noteq> []"
    by (rule never_finishes [OF _ _ sl st, rotated -1]) (simp_all add: opened_memory)
  then show ?thesis by (auto simp: all_done_def intro!: exI [of _ 0])
qed

theorem unot_hangs_on_two_packages_witness:
  "\<exists>d bar s0. unot_main Two_packages_2_6_13_1 KERNEL_2_6_13_1 CPU_XEON d 3 (Some 4096) bar0 0 15 = Inr (bar, s0)
     \<and> (\<forall>ls s. run (prog_step (unat (kb_total bar)) 2 [mwmon_mmap_area (areas d), mwmon_mmap_area2 (areas d)]) s0 ls = Some s
          \<longrightarrow> \<not> all_done 2 s)"
proof -
  obtain d where d: "loaded willing_kernel d" by (rule willing_kernel_loads)
  obtain bar s0 where s0: "unot_main Two_packages_2_6_13_1 KERNEL_2_6_13_1 CPU_XEON d 3 (Some 4096) bar0 0 15 = Inr (bar, s0)"
    by (cases "unot_main Two_packages_2_6_13_1 KERNEL_2_6_13_1 CPU_XEON d 3 (Some 4096) bar0 0 15")
      (auto simp: unot_main_def Let_def)
  have "\<not> all_done 2 s"
    if "run (prog_step (unat (kb_total bar)) 2 [mwmon_mmap_area (areas d), mwmon_mmap_area2 (areas d)]) s0 ls = Some s" for ls s
    using unot_hangs_on_two_packages [OF d willing_kernel_allocator s0 run_reachable [OF that]] .
  with s0 show ?thesis by blast
qed

end
