(* ===== verification/Test_Primitives.thy ===== *)
theory Test_Primitives
  imports Test_Runs
begin

text \<open>
  The benchmark \<open>mwait_barrier/test_primitives.c\<close> as it is built with \<open>MWMON\<close>: a heavy thread that computes and notifies
  every \<open>sync_period\<close> iterations, and a light thread that sleeps as many times.  The heavy thread does not wait for the
  light one, so its notifications can run together: whether the program ends depends on the schedule as soon as there is
  more than one of them.
\<close>

section \<open>The program\<close>

text \<open>
  \<open>!(i%sync_period)\<close>; a period of 0 is left to \<open>primitives_main\<close>, as the division then traps.  The computation of an iteration
  is a \<open>Delay\<close>, and \<open>pthread_barrier_wait\<close> a \<open>Barrier\<close>.
\<close>

definition PRIM_N :: nat where "PRIM_N = 512"

definition syncs :: "int \<Rightarrow> nat \<Rightarrow> bool" where
  "syncs sync_period i \<longleftrightarrow> int i mod sync_period = 0"

definition heavy :: "int \<Rightarrow> addr \<Rightarrow> act list" where
  "heavy sync_period mmapped_device_memory =
     [Set_affinity, Barrier]
     @ concat (map (\<lambda>i. Delay # (if syncs sync_period i then [Store mmapped_device_memory MWMON_NOTIFIED_VAL] else []))
         [0..<PRIM_N])
     @ [Print]"

definition light :: "int \<Rightarrow> act list" where
  "light sync_period =
     [Set_affinity, Barrier]
     @ concat (map (\<lambda>i. if syncs sync_period i then [Call Mwmon_mmap_sleep 0] else []) [0..<PRIM_N])
     @ [Print]"

text \<open>
  \<open>main\<close> pins the threads to two siblings of the first package of the tables of \<open>mwait_barrier/cpu.c\<close>.  \<open>Inl\<close> is the
  exit status; \<open>None\<close>: the behaviour is undefined or the division traps.  With the threads it returns \<open>nthreads\<close>, for which
  \<open>pthread_barrier_init\<close> has prepared the barrier.
\<close>

definition mb_cpu_mask :: "bool \<Rightarrow> cpu_config \<Rightarrow> nat \<Rightarrow> u64 option" where
  "mb_cpu_mask numa cfg s = MY_CPU_SET (sint (cpu_number (sib (pk (mb_cpus numa cfg) ! 0) ! s))) (MY_CPU_ZERO 0)"

definition primitives_main ::
  "patch \<Rightarrow> kernel_version \<Rightarrow> bool \<Rightarrow> cpu_config \<Rightarrow> int \<Rightarrow> mapper \<Rightarrow> int \<Rightarrow> addr option \<Rightarrow> u64 \<Rightarrow> (int + nat \<times> psys) option" where
  "primitives_main p ver numa cfg sync_period d fd mapped all =
     (let nthreads = 2 in case those [mb_cpu_mask numa cfg 0, mb_cpu_mask numa cfg 1] of
        None \<Rightarrow> None
      | Some masks \<Rightarrow>
          if fd < 0 then Some (Inl EXIT_FAILURE)
          else let d = snd (kmem_mapper_open d) in
            case mapped of
              None \<Rightarrow> Some (Inl EXIT_FAILURE)
            | Some base \<Rightarrow>
                if sync_period = 0 then None
                else Some (Inr (nthreads, launch (kmem d) 0
                  (threads p ver (areas d) (mapping d base) [heavy sync_period base, light sync_period]) masks all)))"

lemma primitives_launches:
  assumes "primitives_main p ver numa cfg sp d fd mapped all = Some (Inr (b, s0))"
  obtains base masks where "b = 2" and "sp \<noteq> 0" and "s0 = launch (kmem (snd (kmem_mapper_open d))) 0
     (threads p ver (areas d) (mapping d base) [heavy sp base, light sp]) masks all"
proof -
  have o: "areas (snd (kmem_mapper_open d)) = areas d" "mapping (snd (kmem_mapper_open d)) = mapping d"
    by (simp_all add: kmem_mapper_open_def mapping_def fun_eq_iff)
  show thesis
    using assms that by (auto simp: primitives_main_def Let_def o split: if_splits option.splits)
qed

section \<open>Its threads\<close>

text \<open>The kernels on which the stub of the sleeping call reaches it.\<close>

definition sleeping_kernels :: "(patch \<times> kernel_version) set" where
  "sleeping_kernels = {(One_package_2_6_13_1, KERNEL_2_6_13_1), (Two_packages_2_6_13_1, KERNEL_2_6_13_1),
     (Two_packages_2_6_24_2, KERNEL_2_6_24_2)}"

lemma primitives_threads:
  assumes "(p, ver) \<in> sleeping_kernels"
  shows "threads p ver (areas d) (mapping d base) [heavy sp base, light sp] =
    [[K_set_affinity, K_barrier]
       @ concat (map (\<lambda>i. K_idle # (if syncs sp i then [K_store (mwmon_mmap_area (areas d)) MWMON_NOTIFIED_VAL] else [])) [0..<PRIM_N])
       @ [K_idle],
     [K_set_affinity, K_barrier]
       @ concat (map (\<lambda>i. if syncs sp i then [K_sleep (mwmon_mmap_area (areas d))] else []) [0..<PRIM_N])
       @ [K_idle]]"
proof -
  let ?f = "perform p ver (areas d) (mapping d base)"
  have call: "?f (Call Mwmon_mmap_sleep 0) = K_sleep (mwmon_mmap_area (areas d))"
    using assms by (auto simp: sleeping_kernels_def dispatch_defs)
  have h: "map ?f (concat (map (\<lambda>i. Delay # (if syncs sp i then [Store base MWMON_NOTIFIED_VAL] else [])) xs))
      = concat (map (\<lambda>i. K_idle # (if syncs sp i then [K_store (mwmon_mmap_area (areas d)) MWMON_NOTIFIED_VAL] else [])) xs)" for xs
    by (induction xs) simp_all
  have l: "map ?f (concat (map (\<lambda>i. if syncs sp i then [Call Mwmon_mmap_sleep 0] else []) xs))
      = concat (map (\<lambda>i. if syncs sp i then [K_sleep (mwmon_mmap_area (areas d))] else []) xs)" for xs
    by (induction xs) (simp_all only: list.map concat.simps append.simps map_append call split: if_split, simp_all)
  show ?thesis by (simp only: threads_def heavy_def light_def list.map map_append h l perform.simps append.simps)
qed

text \<open>The iterations in which they synchronize: the first one, and more when the period is below 512.\<close>

lemma syncs_rest:
  assumes "sp \<noteq> 0"
  shows "(\<exists>i\<in>set [1..<PRIM_N]. syncs sp i) \<longleftrightarrow> \<bar>sp\<bar> < 512"
proof
  assume "\<exists>i\<in>set [1..<PRIM_N]. syncs sp i"
  then obtain i where i: "1 \<le> i" "i < 512" "int i mod sp = 0" by (auto simp: PRIM_N_def syncs_def)
  have "sp dvd int i" using i(3) by (simp add: dvd_eq_mod_eq_0)
  then have "\<bar>sp\<bar> \<le> int i" using i(1) dvd_imp_le_int [of "int i" sp] by simp
  then show "\<bar>sp\<bar> < 512" using i(2) by simp
next
  assume "\<bar>sp\<bar> < 512"
  moreover have "syncs sp (nat \<bar>sp\<bar>)" by (simp add: syncs_def)
  ultimately show "\<exists>i\<in>set [1..<PRIM_N]. syncs sp i"
    using assms by (intro bexI [of _ "nat \<bar>sp\<bar>"]) (auto simp: PRIM_N_def)
qed

lemma iterations: "[0..<PRIM_N] = 0 # [1..<PRIM_N]"
  by (simp add: PRIM_N_def upt_rec)

lemma syncs_first: "syncs sp 0"
  by (simp add: syncs_def)

text \<open>What the threads do after the barrier.\<close>

definition wakeups :: "int \<Rightarrow> addr \<Rightarrow> kact list" where
  "wakeups sp a = concat (map (\<lambda>i. K_idle # (if syncs sp i then [K_store a MWMON_NOTIFIED_VAL] else [])) [0..<PRIM_N]) @ [K_idle]"

definition naps :: "int \<Rightarrow> addr \<Rightarrow> kact list" where
  "naps sp a = concat (map (\<lambda>i. if syncs sp i then [K_sleep a] else []) [1..<PRIM_N]) @ [K_idle]"

lemma primitives_progs:
  assumes "(p, ver) \<in> sleeping_kernels"
  shows "threads p ver (areas d) (mapping d base) [heavy sp base, light sp] =
    [[K_set_affinity, K_barrier] @ wakeups sp (mwmon_mmap_area (areas d)),
     [K_set_affinity, K_barrier] @ K_sleep (mwmon_mmap_area (areas d)) # naps sp (mwmon_mmap_area (areas d))]"
  unfolding primitives_threads [OF assms] wakeups_def naps_def iterations by (simp add: syncs_first)

lemma wakeups_set: "set (wakeups sp a) \<subseteq> {K_idle, K_store a MWMON_NOTIFIED_VAL}" "K_store a MWMON_NOTIFIED_VAL \<in> set (wakeups sp a)"
  using syncs_first by (auto simp: wakeups_def iterations split: if_splits)

lemma naps_sleep: "sp \<noteq> 0 \<Longrightarrow> K_sleep a \<in> set (naps sp a) \<longleftrightarrow> \<bar>sp\<bar> < 512"
  unfolding syncs_rest [symmetric] by (auto simp: naps_def split: if_splits)

lemma naps_set: "set (naps sp a) \<subseteq> {K_sleep a, K_idle}"
  by (auto simp: naps_def split: if_splits)

section \<open>A single notification is enough\<close>

lemma essence_one:
  assumes "sp \<noteq> 0" and "\<not> \<bar>sp\<bar> < 512"
  shows "essence (wakeups sp a) = [K_store a MWMON_NOTIFIED_VAL]" and "essence (naps sp a) = []"
proof -
  have none: "\<not> syncs sp i" if "i \<in> set [1..<PRIM_N]" for i using syncs_rest [OF assms(1)] assms(2) that by blast
  have e1: "essence (concat (map (\<lambda>i. K_idle # (if syncs sp i then [K_store a MWMON_NOTIFIED_VAL] else [])) xs)) = []"
    if "\<forall>i\<in>set xs. \<not> syncs sp i" for xs
    using that by (induction xs) simp_all
  have e2: "essence (concat (map (\<lambda>i. if syncs sp i then [K_sleep a] else []) xs)) = []"
    if "\<forall>i\<in>set xs. \<not> syncs sp i" for xs
    using that by (induction xs) simp_all
  show "essence (wakeups sp a) = [K_store a MWMON_NOTIFIED_VAL]"
    unfolding wakeups_def iterations using e1 [of "[1..<PRIM_N]"] none syncs_first by simp
  show "essence (naps sp a) = []"
    unfolding naps_def using e2 [of "[1..<PRIM_N]"] none by simp
qed

lemma one_note_paired:
  assumes "sp \<noteq> 0" and "\<not> \<bar>sp\<bar> < 512"
  shows "well_paired [a] [[K_set_affinity, K_barrier] @ wakeups sp a, [K_set_affinity, K_barrier] @ K_sleep a # naps sp a]"
proof (rule well_paired_essence)
  show "well_paired [a] (map essence [[K_set_affinity, K_barrier] @ wakeups sp a, [K_set_affinity, K_barrier] @ K_sleep a # naps sp a])"
    by (simp add: essence_one [OF assms] well_paired_def mark_ok_def)
qed simp

section \<open>Notifications run together\<close>

text \<open>A thread that only computes and stores runs through, while no other processor watches a line.\<close>

lemma run_stores:
  assumes "t < n" and "todo (thr s t) = xs @ ys" and "set xs \<subseteq> {K_idle, K_store a v}"
    and "\<forall>u. u \<noteq> t \<longrightarrow> armed (cpu (thr s u)) = None"
  shows "run (psys_step n w) s (replicate (length xs) (PThread t))
    = Some (s\<lparr>pmem := if K_store a v \<in> set xs then (pmem s)(a := v) else pmem s,
              thr := (thr s)(t := (thr s t)\<lparr>todo := ys\<rparr>)\<rparr>)"
  using assms(2-)
proof (induction xs arbitrary: s)
  case Nil
  then have "thr s t = (thr s t)\<lparr>todo := ys\<rparr>" by simp
  then have "(thr s)(t := (thr s t)\<lparr>todo := ys\<rparr>) = thr s" by (metis fun_upd_triv)
  then show ?case by simp
next
  case (Cons x xs)
  have quiet: "u \<noteq> t \<Longrightarrow> sees b (thr s u) = thr s u" for u b using Cons.prems(3) by (simp add: sees_def)
  let ?s = "s\<lparr>pmem := if x = K_store a v then (pmem s)(a := v) else pmem s,
      thr := (thr s)(t := (thr s t)\<lparr>todo := xs @ ys\<rparr>)\<rparr>"
  have "x = K_idle \<or> x = K_store a v" using Cons.prems(2) by auto
  then have st: "psys_step n w s (PThread t) = Some ?s"
    using Cons.prems(1) assms(1) quiet
    by (auto simp: psys_defs act_step_def put_def stores_def Let_def fun_eq_iff)
  have "run (psys_step n w) ?s (replicate (length xs) (PThread t))
      = Some (?s\<lparr>pmem := if K_store a v \<in> set xs then (pmem ?s)(a := v) else pmem ?s,
              thr := (thr ?s)(t := (thr ?s t)\<lparr>todo := ys\<rparr>)\<rparr>)"
    using Cons.prems(2,3) by (intro Cons.IH) auto
  then show ?case using st by (cases s) (auto simp: fun_eq_iff)
qed

text \<open>A sleeping call on a notified byte returns at once and erases the notification.\<close>

lemma run_sleep_notified:
  assumes "t < n" and "todo (thr s t) = K_sleep a # rest" and "spc (cpu (thr s t)) = Done"
    and "pmem s a = MWMON_NOTIFIED_VAL"
  shows "\<exists>s'. run (psys_step n w) s (replicate 6 (PThread t)) = Some s' \<and> pmem s' a = MWMON_ORIGINAL_VAL
    \<and> todo (thr s' t) = rest \<and> spc (cpu (thr s' t)) = Done \<and> waitpc (thr s' t) = waitpc (thr s t)
    \<and> at_bar (thr s' t) = at_bar (thr s t) \<and> (\<forall>u. u \<noteq> t \<longrightarrow> thr s' u = sees a (thr s u))"
  using assms
  by (simp add: numeral_eq_Suc psys_defs act_step_def sleep_in_def sleep_cpu_def Let_def)

lemma wakeups_lost:
  assumes sp: "sp \<noteq> 0" "\<bar>sp\<bar> < 512"
    and P: "progs = [[K_set_affinity, K_barrier] @ wakeups sp a, [K_set_affinity, K_barrier] @ K_sleep a # naps sp a]"
  shows "\<exists>s. reachable (psys_step 2 [a]) (launch m l progs masks all) s \<and> sleeps_for_ever 2 1 a s"
proof -
  let ?step = "psys_step 2 [a]" and ?s0 = "launch m l progs masks all"
  let ?ready = "[PThread 0, PThread 0, PThread 1, PThread 1, PThread 0]"
  let ?idle = "\<lparr>spc = Done, armed = None, irqs = True\<rparr>"
  obtain s1 where s1: "run ?step ?s0 ?ready = Some s1" "todo (thr s1 0) = wakeups sp a"
      "todo (thr s1 1) = K_barrier # K_sleep a # naps sp a" "at_bar (thr s1 1)" "\<not> at_bar (thr s1 0)"
      "came (thr s1 0) = 1" "came (thr s1 1) = 1" "\<forall>u. cpu (thr s1 u) = ?idle \<and> waitpc (thr s1 u) = W_Done"
    unfolding P
    by (simp add: launch_def new_thread_def psys_defs act_step_def barrier_in_def put_def Let_def upt_rec)
  have s2: "run ?step s1 (replicate (length (wakeups sp a)) (PThread 0))
      = Some (s1\<lparr>pmem := (pmem s1)(a := MWMON_NOTIFIED_VAL), thr := (thr s1)(0 := (thr s1 0)\<lparr>todo := []\<rparr>)\<rparr>)"
      (is "_ = Some ?s2")
    using run_stores [of 0 2 s1 "wakeups sp a" "[]" a MWMON_NOTIFIED_VAL "[a]"] s1 wakeups_set by simp
  obtain s3 where s3: "run ?step ?s2 [PThread 1] = Some s3" "todo (thr s3 1) = K_sleep a # naps sp a"
      "\<not> at_bar (thr s3 1)" "thr s3 0 = (thr s1 0)\<lparr>todo := []\<rparr>" "pmem s3 a = MWMON_NOTIFIED_VAL"
      "cpu (thr s3 1) = ?idle \<and> waitpc (thr s3 1) = W_Done"
    using s1 by (simp add: psys_defs act_step_def barrier_in_def put_def Let_def upt_rec)
  obtain s4 where s4: "run ?step s3 (replicate 6 (PThread 1)) = Some s4" "pmem s4 a = MWMON_ORIGINAL_VAL"
      "todo (thr s4 1) = naps sp a" "spc (cpu (thr s4 1)) = Done" "waitpc (thr s4 1) = W_Done"
      "\<not> at_bar (thr s4 1)" "thr s4 0 = sees a (thr s3 0)"
    using run_sleep_notified [of 1 2 s3 a "naps sp a" "[a]"] s3 by auto
  have z: "thr s4 0 = (thr s1 0)\<lparr>todo := []\<rparr>" using s4(7) s3(4) s1(8) by (simp add: sees_def)
  have r: "reachable ?step ?s0 s4"
    using reachable_trans [OF run_reachable [OF s1(1)] reachable_trans [OF run_reachable [OF s2]
      reachable_trans [OF run_reachable [OF s3(1)] run_reachable [OF s4(1)]]]] .
  have "\<forall>u<2. th_ok (pmem s4) (thr s4 u)"
    using s4(2-6) s1(5,8) unfolding less_2_cases_iff by (auto simp: z intro!: th_ok_done)
  moreover have "no_store 2 (\<lambda>u. todo (thr s4 u)) a"
    using s4(3) naps_set [of sp a] unfolding less_2_cases_iff by (auto simp: z no_store_def less_2_cases_iff)
  moreover have "MWMON_ORIGINAL_VAL \<noteq> MWMON_NOTIFIED_VAL" by (simp add: MWMON_ORIGINAL_VAL_def MWMON_NOTIFIED_VAL_def)
  ultimately have "sleeps_for_ever 2 1 a s4"
    using s4 naps_sleep [OF sp(1), of a] sp(2) by (simp add: sleeps_for_ever_def)
  then show ?thesis using r by blast
qed

section \<open>When the program can be finished\<close>

text \<open>
  C22.  The \<open>MWMON\<close> build of \<open>test_primitives.c\<close>, started with a period other than 0, can be finished from every
  state it can reach exactly when it synchronizes once, that is, for a period of 512 or more, or -512 or less.  With a shorter one the heavy thread can store its notifications
  before the light thread sleeps for the first time; they count as one, and the light thread sleeps for ever.
\<close>

theorem primitives_lose_notifications:
  assumes "(p, ver) \<in> sleeping_kernels"
    and "primitives_main p ver numa cfg sync_period d fd mapped all = Some (Inr (b, s0))"
  shows "(\<forall>s. reachable (prog_step b 2 [mwmon_mmap_area (areas d)]) s0 s \<longrightarrow>
      (\<exists>ls s'. run (prog_step b 2 [mwmon_mmap_area (areas d)]) s ls = Some s' \<and> all_done 2 s'))
    \<longleftrightarrow> 512 \<le> \<bar>sync_period\<bar>"
proof -
  let ?a = "mwmon_mmap_area (areas d)"
  let ?step = "psys_step 2 [?a]"
  obtain base masks where two: "b = 2" and sp: "sync_period \<noteq> 0" and s0: "s0 = launch (kmem (snd (kmem_mapper_open d))) 0
     (threads p ver (areas d) (mapping d base) [heavy sync_period base, light sync_period]) masks all"
    using primitives_launches [OF assms(2)] by metis
  define progs where "progs = [[K_set_affinity, K_barrier] @ wakeups sync_period ?a,
      [K_set_affinity, K_barrier] @ K_sleep ?a # naps sync_period ?a]"
  have s0: "s0 = launch (kmem (snd (kmem_mapper_open d))) 0 progs masks all"
    unfolding s0 progs_def using primitives_progs [OF assms(1)] by simp
  have len: "length progs = 2" by (simp add: progs_def)
  show ?thesis
    unfolding two psys_step_def [symmetric]
  proof
    assume fin: "\<forall>s. reachable ?step s0 s \<longrightarrow> (\<exists>ls s'. run ?step s ls = Some s' \<and> all_done 2 s')"
    show "512 \<le> \<bar>sync_period\<bar>"
    proof (rule ccontr)
      assume "\<not> 512 \<le> \<bar>sync_period\<bar>"
      then obtain s where s: "reachable ?step s0 s" "sleeps_for_ever 2 1 ?a s"
        using wakeups_lost [OF sp _ progs_def] unfolding s0 by (metis not_le)
      obtain ls s' where s': "run ?step s ls = Some s'" "all_done 2 s'" using fin s(1) by blast
      have "sleeps_for_ever 2 1 ?a s'"
        using run_reachable [OF s'(1)] s(2) by (rule reachable_invariant) (rule sleeps_for_ever_step, auto)
      then show False using s'(2) by (auto simp: sleeps_for_ever_def all_done_def)
    qed
  next
    assume "512 \<le> \<bar>sync_period\<bar>"
    then have wp: "well_paired [?a] progs" unfolding progs_def using one_note_paired [OF sp] by simp
    show "\<forall>s. reachable ?step s0 s \<longrightarrow> (\<exists>ls s'. run ?step s ls = Some s' \<and> all_done 2 s')"
      using can_finish [OF wp] unfolding len s0 by blast
  qed
qed

theorem primitives_lose_notifications_witness:
  "\<exists>d b s0 s. loaded willing_kernel d
     \<and> primitives_main Two_packages_2_6_24_2 KERNEL_2_6_24_2 False CPU_XEON 64 d 3 (Some 4096) 15 = Some (Inr (b, s0))
     \<and> reachable (prog_step b 2 [mwmon_mmap_area (areas d)]) s0 s
     \<and> (\<forall>ls s'. run (prog_step b 2 [mwmon_mmap_area (areas d)]) s ls = Some s' \<longrightarrow> \<not> all_done 2 s')"
proof -
  obtain d where d: "loaded willing_kernel d" by (rule willing_kernel_loads)
  obtain b s0 where s0: "primitives_main Two_packages_2_6_24_2 KERNEL_2_6_24_2 False CPU_XEON 64 d 3 (Some 4096) 15 = Some (Inr (b, s0))"
    by (simp add: primitives_main_def Let_def mb_cpu_mask_def mb_package_def siblings_def MAX_SIBLINGS_def MY_CPU_SET_def)
  have "(Two_packages_2_6_24_2, KERNEL_2_6_24_2) \<in> sleeping_kernels" by (simp add: sleeping_kernels_def)
  from primitives_lose_notifications [OF this s0] obtain s
    where "reachable (prog_step b 2 [mwmon_mmap_area (areas d)]) s0 s"
      "\<forall>ls s'. run (prog_step b 2 [mwmon_mmap_area (areas d)]) s ls = Some s' \<longrightarrow> \<not> all_done 2 s'"
    by auto
  with d s0 show ?thesis by blast
qed

end
