(* ===== verification/Spec2Isabelle.thy ===== *)
theory Spec2Isabelle
  imports Spin_Locks Spin_Loops Barrier_Lsense Barrier_Locked Barrier_Central Mwait_Barrier
    Barrier_Asm Syscall_Table Cpu_Topology Timer Kmem_Mapper Test_Runs Test_Primitives
begin

text \<open>
  \<^bold>\<open>htsynch: synchronization of hyper-threads with MONITOR/MWAIT\<close>

  The program lets one of two threads that share a processor wait for the other without taking execution
  resources from it.  It has kernel patches with system calls that sleep in \<open>mwait\<close> until a byte is written, a
  driver that maps the page with these bytes into programs, spin locks, waiting loops and barriers for user
  space, and programs that exercise them.

  \<^bold>\<open>Theories and what they model\<close>

  \<^item> \<open>Ht_Prelude\<close>: word types, systems as partial step functions, runs, reachable states and invariants, and
    counting of threads; used by all others.
  \<^item> \<open>X86_Asm\<close>, \<open>Atomics\<close>: the instructions of the inline assembly on registers, flags and one shared word; the atomic
    operations of \<open>mwait_barrier/synch.h\<close>.
  \<^item> \<open>Mutex\<close>: an abstract lock, and the locales \<open>lock_routine\<close> and \<open>live_lock_routine\<close> a locking routine has to
    satisfy; mutual exclusion, refinement of the abstract lock and availability are proved there once.
    \<open>Spin_Locks\<close> has the five routines of \<open>synch.h\<close> and \<open>spin.c\<close>/\<open>spin.h\<close> as instruction lists, each of
    them an interpretation of the locale.
  \<^item> \<open>Spin_Loops\<close>: all waiting loops of \<open>synch.h\<close>, \<open>spin.c\<close> and \<open>spin.h\<close>, with their system calls, against any
    sequence of values of the word they read.  Two loops of \<open>synch.h\<close> destroy \<open>rax\<close> without declaring it; they are modelled
    with their operand outside of \<open>rax\<close>, as all loops, and a second time with the operand in \<open>eax\<close>.
  \<^item> \<open>Barrier_Spec\<close>: what a barrier promises, as a locale over a system with calls and returns.
    \<open>Barrier_Lsense\<close> (sense barriers of \<open>synch.h\<close>), \<open>Barrier_Locked\<close> (those of \<open>spin.c\<close> and \<open>spin.h\<close>),
    \<open>Barrier_Central\<close> (those without a sense) and \<open>Mwait_Barrier\<close> (\<open>mwait_barrier.c\<close>) model the barriers as
    threads with program counters, one step per access to shared memory, on an abstract lock.
  \<^item> \<open>Lock_Clients\<close>: any such model composed with any lock routine, instruction by instruction; the locale \<open>lock_user\<close> has the
    laws of the model, \<open>lock_client\<close> those of both, and shows that the composition reaches what the model on the abstract lock
    reaches.  \<open>Barrier_Asm\<close> interprets it: the barriers of \<open>spin.c\<close>, \<open>spin.h\<close>, \<open>synch.h\<close> (without a sense) and
    \<open>mwait_barrier.c\<close> on the instructions of the lock each of them calls.
  \<^item> \<open>Mwait_Memory\<close>: bytes, lines and aligned allocation.  \<open>Mwait_Kernel\<close>: the system calls of the three patches, statement
    by statement, with interrupts and with stores of other processors at any moment.  \<open>monitor\<close> and \<open>mwait\<close> follow
    the processor manual: a store to the armed line ends the watch and the sleep, and \<open>mwait\<close> without a
    watch does not sleep.
  \<^item> \<open>Syscall_Abi\<close>: the macros of \<open>syscall_macros.h\<close> over a register file, the kernel being a parameter.
    \<open>Syscall_Table\<close>: numbers and stubs of \<open>cpu_control_syscalls.c\<close> against the tables of the patches.
  \<^item> \<open>Cpu_Topology\<close>: both versions of \<open>cpu.c\<close>/\<open>cpu.h\<close>.  \<open>Timer\<close>: the time-stamp timers for 32 and 64 bits.
  \<^item> \<open>Kmem_Mapper\<close>: the driver \<open>kmem_mapper.c\<close>.  The kernel's services are a record of results, and every call
    of them is logged, which tells what the module holds.
  \<^item> \<open>Thread_Programs\<close>: several threads, each a list of actions, on a shared memory with the system calls of
    \<open>Mwait_Kernel\<close>.  \<open>Thread_Progress\<close>, \<open>Thread_Reports\<close> and \<open>Thread_Stuck\<close> prove in general when such a program can
    be finished, what it reports, and when it cannot be finished.
    \<open>Test_Programs\<close> translates the four programs \<open>thread_test_*.c\<close> and \<open>notify_memory.c\<close> into such threads, through
    the stubs of \<open>Syscall_Table\<close> and the masks of \<open>Cpu_Topology\<close>, and \<open>Test_Runs\<close> runs them on a loaded driver.
    \<open>Test_Primitives\<close> does the same for the \<open>MWMON\<close> build of \<open>test_primitives.c\<close>.

  \<^bold>\<open>How the parts rest on each other\<close>

  The models of the barriers take their lock in one step; \<open>Barrier_Asm\<close> proves that the instructions of the lock give the
  same states and the same progress, also for the lock of \<open>mwait_barrier.c\<close>, which one thread takes and another releases.
  The sleeping calls inside \<open>Mwait_Barrier\<close> and \<open>Thread_Programs\<close> are the definition \<open>sleep_cpu\<close> of \<open>Mwait_Kernel\<close>
  itself.  The sense barrier in \<open>Thread_Programs\<close> is the abstract one, which its own theory justifies, for the number
  of threads that \<open>main\<close> initializes it with.  A call of a
  stub goes through the number the program has for it and the function the patched kernel has
  under this number.

  \<^bold>\<open>What the lemmas show\<close>

  \<^item> Locks: mutual exclusion, every instruction a move of the abstract lock or none, and a waiting thread that finds the
    lock free gets it within 14 of its own steps; no thread leaves the code of a lock.  The decrementing locks serve
    at most \<open>2 ^ 31\<close> threads.
  \<^item> Loops: when they end, after at most seven instructions, and when they do not; the inequality loops
    miss the equality their comment promises; the halting loops of \<open>synch.h\<close>, compiled with their operand in \<open>eax\<close>,
    wait for the result of the system call.
  \<^item> Barriers: rounds are separated for every number of threads below \<open>2 ^ 32\<close> (two for \<open>mwait_barrier.c\<close>; one round without
    a sense) and every interleaving, for the halting barriers of \<open>synch.h\<close> only if the compiler keeps the awaited sense out
    of \<open>rax\<close>; the barriers without a sense can always finish their first round; the barriers of
    \<open>spin.c\<close> and \<open>mwait_barrier.c\<close> (for two threads) can always go on and are left as they were initialized; the sense
    barriers of \<open>synch.h\<close>, the barriers without a sense, and \<open>mwait_barrier\<close> with three threads can block for ever.  All
    but the sense barriers of \<open>synch.h\<close>, which have no lock, are also proved on the instructions of their locks.
  \<^item> System calls: no notification that is not overwritten is lost, none is invented, blocks are aligned and initialized; halting ends only by an
    interrupt and can miss one; the macros follow the calling convention; which stubs reach which calls, and which error numbers become \<open>errno\<close>.
  \<^item> Driver: layout of the mapped page, what every way to load it leaves held, load and unload balance, and that
    opening erases a pending notification.
  \<^item> Tables, masks, timers: the package of a processor, the round trip and the limits of a mask, sums of
    measured intervals modulo \<open>2 ^ 64\<close>, and the equivalence of both timers.
  \<^item> Programs, on the kernels they are for and while no other program writes the bytes they watch: from every reachable state all threads can finish, with the reports the programs expect; on one
    kernel a program hangs because of a wrong number, and the benchmark of the primitives hangs when its notifications run
    together.

  \<^bold>\<open>Termination and bounds\<close>

  No definition uses fuel.  A system call, a routine or a program that may go on for ever is a step function, and the
  theorems speak of its runs.  The loop over pages of the driver is a partial function that is shown to return;
  the search of \<open>get_pkid\<close> terminates by its index.  Liveness is stated as the existence of a continuation from every
  reachable state, or as a number of own steps after which a thread is done; a fair scheduler is not assumed.

  \<^bold>\<open>Not modelled\<close>

  \<^item> Printing, and the benchmark programs \<open>test_*.c\<close> and \<open>kmem_mapper_test.c\<close>, which print and measure, with the
    exception of the \<open>MWMON\<close> build of \<open>test_primitives.c\<close>, without its measurements.
  \<^item> \<open>TIMER_TOTAL\<close>, \<open>TIMER_AVE\<close> and \<open>read_hz\<close>, which compute in floating point; \<open>read_nr_cpus\<close> and \<open>read_nr_siblings\<close>,
    which run shell commands; \<open>rdtsc_shift\<close> of the 32-bit header, which does not compile.
  \<^item> \<open>cpuctrl.h\<close>: request numbers for a driver that is not in the repository.
  \<^item> The part of \<open>thread_test_kmon_unot_2regions.c\<close> for the kernels 2.6.13.1: a function it needs is not declared there.
  \<^item> Stores of other programs to the bytes the threads of a test program watch, by \<open>notify_memory\<close> or by opening the device again;
    \<open>open_erases_notification\<close> shows what the second does to a sleeper.
  \<^item> \<open>thread_test_kmon_knot.c\<close> after a failed \<open>mwmon_kernel_init\<close>, when its calls use address 0.
  \<^item> Processors shared by threads: every thread of a program has a processor of its own, as the programs pin them
    on all machines but the one with one processor in each package.
  \<^item> Weak memory: accesses take effect in program order, the store buffers of the processors are not modelled.
  \<^item> The copies of \<open>syscall_macros.h\<close>, \<open>cpu.c\<close>, \<open>cpu.h\<close> and \<open>cpu_control_syscalls.c\<close> in the other directories, which are the
    same text.
\<close>

end
